(* ===== verification/UM_Prelude.thy ===== *)
theory UM_Prelude
  imports Main "HOL-Library.AList" "HOL-Library.Multiset" "HOL-Library.Word"
begin

section \<open>Prelude: the parts of Rust and of its standard library the components share\<close>

text \<open>
  Machine arithmetic of \<open>usize\<close> (64 bits, release build: wrap-around), decimal
  printing and parsing of unsigned integers (\<open>to_string\<close>, \<open>str::parse\<close>),
  \<open>str::split\<close>, ASCII case conversion, fixed-size arrays of two elements, hash maps
  as association lists in iteration order, and the iterator methods
  \<open>position\<close>, \<open>max_by_key\<close> and \<open>min_by\<close> with their tie-breaking rules.

  A Rust \<open>String\<close> is modelled by its UTF-8 bytes (\<^typ>\<open>string\<close>).
  The case conversions below are the ASCII part of \<open>to_uppercase\<close> and
  \<open>to_lowercase\<close>: bytes above 127 are left alone.
\<close>

named_theorems usize_simps \<open>machine arithmetic that stays in range\<close>
named_theorems slots_simps \<open>what an operation does to the slots of a range list\<close>


subsection \<open>usize\<close>

type_synonym usize = nat

definition usize_add :: "usize \<Rightarrow> usize \<Rightarrow> usize" where
  "usize_add a b = (a + b) mod 2 ^ 64"

definition usize_sub :: "usize \<Rightarrow> usize \<Rightarrow> usize" where
  "usize_sub a b = (if b \<le> a then a - b else (2 ^ 64 + a) - b)"

definition usize_sum :: "usize list \<Rightarrow> usize" where
  "usize_sum xs = fold usize_add xs 0"

lemma usize_add_in_range [usize_simps]: "a + b < 2 ^ 64 \<Longrightarrow> usize_add a b = a + b"
  by (simp add: usize_add_def)

lemma usize_sub_in_range [usize_simps]: "b \<le> a \<Longrightarrow> usize_sub a b = a - b"
  by (simp add: usize_sub_def)

lemma usize_add_bound: "usize_add a b < 2 ^ 64"
  by (simp add: usize_add_def)

lemma usize_sum_aux: "acc + sum_list xs < 2 ^ 64 \<Longrightarrow> fold usize_add xs acc = acc + sum_list xs"
proof (induction xs arbitrary: acc)
  case (Cons x xs)
  then have "usize_add x acc = acc + x" by (simp add: usize_add_def)
  with Cons show ?case by (simp add: add.assoc)
qed simp

lemma usize_sum_in_range [usize_simps]: "sum_list xs < 2 ^ 64 \<Longrightarrow> usize_sum xs = sum_list xs"
  unfolding usize_sum_def using usize_sum_aux [of 0] by simp


subsection \<open>Decimal numbers\<close>

function show_nat :: "nat \<Rightarrow> string" where
  "show_nat n =
     (if n < 10 then [char_of (48 + n)]
      else show_nat (n div 10) @ [char_of (48 + n mod 10)])"
  by pat_completeness auto
termination
  by (relation "measure id") auto

declare show_nat.simps [simp del]

definition digit_val :: "char \<Rightarrow> nat option" where
  "digit_val c =
     (let n = (of_char c :: nat) in if 48 \<le> n \<and> n \<le> 57 then Some (n - 48) else None)"

fun parse_digits :: "nat \<Rightarrow> string \<Rightarrow> nat option" where
  "parse_digits acc [] = Some acc"
| "parse_digits acc (c # cs) =
     (case digit_val c of
        None \<Rightarrow> None
      | Some d \<Rightarrow>
          if acc * 10 + d < 2 ^ 64 then parse_digits (acc * 10 + d) cs else None)"

definition parse_u64 :: "string \<Rightarrow> nat option" where
  "parse_u64 s =
     (case s of
        [] \<Rightarrow> None
      | c # cs \<Rightarrow>
          if c = CHR ''+'' then (if cs = [] then None else parse_digits 0 cs)
          else parse_digits 0 s)"

lemma digit_val_char [simp]: "d < 10 \<Longrightarrow> digit_val (char_of (48 + d)) = Some d"
  by (simp add: digit_val_def of_char_of)

lemma parse_digits_append:
  "parse_digits acc (xs @ ys) =
     (case parse_digits acc xs of None \<Rightarrow> None | Some v \<Rightarrow> parse_digits v ys)"
  by (induction acc xs rule: parse_digits.induct) (auto split: option.splits)

lemma parse_digits_show: "n < 2 ^ 64 \<Longrightarrow> parse_digits 0 (show_nat n) = Some n"
proof (induction n rule: show_nat.induct)
  case (1 n)
  show ?case
  proof (cases "n < 10")
    case True
    then show ?thesis by (simp add: show_nat.simps [of n])
  next
    case False
    with 1 have "parse_digits 0 (show_nat (n div 10)) = Some (n div 10)" by simp
    with False 1(2) show ?thesis
      by (simp add: show_nat.simps [of n] parse_digits_append del: power_Suc)
  qed
qed

lemma show_nat_digits: "c \<in> set (show_nat n) \<Longrightarrow> 48 \<le> (of_char c :: nat) \<and> (of_char c :: nat) \<le> 57"
proof (induction n rule: show_nat.induct)
  case (1 n)
  show ?case
  proof (cases "n < 10")
    case True
    with 1(2) show ?thesis by (simp add: show_nat.simps [of n] of_char_of)
  next
    case False
    have "n mod 10 < 10" by simp
    with False 1 show ?thesis by (auto simp: show_nat.simps [of n] of_char_of)
  qed
qed

lemma show_nat_not_Nil [simp]: "show_nat n \<noteq> []"
  by (subst show_nat.simps) simp

lemma show_nat_no_dash: "CHR ''-'' \<notin> set (show_nat n)"
  using show_nat_digits [of "CHR ''-''" n] by auto

lemma show_nat_no_plus: "CHR ''+'' \<notin> set (show_nat n)"
  using show_nat_digits [of "CHR ''+''" n] by auto

lemma parse_u64_show [simp]: "n < 2 ^ 64 \<Longrightarrow> parse_u64 (show_nat n) = Some n"
  using parse_digits_show [of n] show_nat_no_plus [of n] show_nat_not_Nil [of n]
  by (cases "show_nat n") (auto simp: parse_u64_def)

lemma parse_digits_bound: "acc < 2 ^ 64 \<Longrightarrow> parse_digits acc s = Some n \<Longrightarrow> n < 2 ^ 64"
  by (induction acc s rule: parse_digits.induct) (auto split: option.splits if_splits)

lemma parse_u64_bound: "parse_u64 s = Some n \<Longrightarrow> n < 2 ^ 64"
  using parse_digits_bound [of 0]
  by (auto simp: parse_u64_def simp del: parse_digits.simps split: list.splits if_splits)


subsection \<open>Strings\<close>

fun split_on :: "char \<Rightarrow> string \<Rightarrow> string list" where
  "split_on d [] = [[]]"
| "split_on d (c # cs) =
     (if c = d then [] # split_on d cs
      else (case split_on d cs of [] \<Rightarrow> [[c]] | w # ws \<Rightarrow> (c # w) # ws))"

lemma split_on_not_Nil [simp]: "split_on d s \<noteq> []"
  by (induction s) (auto split: list.splits)

lemma split_on_delim: "d \<notin> set x \<Longrightarrow> split_on d (x @ d # y) = x # split_on d y"
  by (induction x) auto

lemma split_on_none: "d \<notin> set x \<Longrightarrow> split_on d x = [x]"
  by (induction x) auto

definition ascii_upper :: "char \<Rightarrow> char" where
  "ascii_upper c =
     (let n = (of_char c :: nat) in if 97 \<le> n \<and> n \<le> 122 then char_of (n - 32) else c)"

definition ascii_lower :: "char \<Rightarrow> char" where
  "ascii_lower c =
     (let n = (of_char c :: nat) in if 65 \<le> n \<and> n \<le> 90 then char_of (n + 32) else c)"

definition to_uppercase :: "string \<Rightarrow> string" where
  "to_uppercase s = map ascii_upper s"

definition to_lowercase :: "string \<Rightarrow> string" where
  "to_lowercase s = map ascii_lower s"

lemma to_uppercase_show_nat [simp]: "to_uppercase (show_nat n) = show_nat n"
proof -
  have "ascii_upper c = c" if "c \<in> set (show_nat n)" for c
    using show_nat_digits [OF that] by (simp add: ascii_upper_def Let_def)
  then show ?thesis by (simp add: to_uppercase_def map_idI)
qed


subsection \<open>Encodings as lists of strings\<close>

text \<open>
  The commands between the parts of the system are lists of strings, read by decoders
  that take an iterator and leave it after what they have consumed. The contract of a pair
  of encoder and decoder is a round trip in front of any further input.
\<close>

locale string_codec =
  fixes enc :: "'a \<Rightarrow> string list"
    and dec :: "string list \<Rightarrow> ('a \<times> string list) option"
    and wf :: "'a \<Rightarrow> bool"
  assumes dec_enc: "wf x \<Longrightarrow> dec (enc x @ rest) = Some (x, rest)"
begin

lemma dec_enc_all: "wf x \<Longrightarrow> dec (enc x) = Some (x, [])"
  using dec_enc [of x "[]"] by simp

lemma enc_prefix_free: "wf x \<Longrightarrow> wf y \<Longrightarrow> enc x @ r = enc y @ r' \<Longrightarrow> x = y \<and> r = r'"
  by (metis dec_enc option.inject prod.inject)

lemma enc_inject: "wf x \<Longrightarrow> wf y \<Longrightarrow> enc x = enc y \<longleftrightarrow> x = y"
  using enc_prefix_free [of x y "[]" "[]"] by (metis append_Nil2)

lemma dec_bind:
  "wf x \<Longrightarrow> (case dec (enc x @ rest) of None \<Rightarrow> None | Some (y, it) \<Rightarrow> f y it) = f x rest"
  by (simp add: dec_enc)

end


subsection \<open>Arrays of two elements\<close>

type_synonym 'a arr2 = "'a \<times> 'a"

definition arr2_list :: "'a arr2 \<Rightarrow> 'a list" where
  "arr2_list p = [fst p, snd p]"

definition arr2_get :: "'a arr2 \<Rightarrow> usize \<Rightarrow> 'a option" where
  "arr2_get p i = (if i = 0 then Some (fst p) else if i = 1 then Some (snd p) else None)"

definition arr2_modify :: "usize \<Rightarrow> ('a \<Rightarrow> 'a) \<Rightarrow> 'a arr2 \<Rightarrow> 'a arr2" where
  "arr2_modify i f p =
     (if i = 0 then (f (fst p), snd p) else if i = 1 then (fst p, f (snd p)) else p)"

lemma set_arr2_list [simp]: "set (arr2_list p) = {fst p, snd p}"
  by (simp add: arr2_list_def)

lemma map_arr2_list: "map f (arr2_list p) = arr2_list (map_prod f f p)"
  by (simp add: arr2_list_def)


subsection \<open>Hash maps\<close>

text \<open>
  A \<open>HashMap\<close> is the association list of its entries in iteration order, its keys
  distinct. An insertion under a new key adds the entry at the end.
\<close>

type_synonym ('k, 'v) hashmap = "('k \<times> 'v) list"

definition hm_keys :: "('k, 'v) hashmap \<Rightarrow> 'k list" where
  "hm_keys m = map fst m"

definition hm_values :: "('k, 'v) hashmap \<Rightarrow> 'v list" where
  "hm_values m = map snd m"

definition hm_get :: "('k, 'v) hashmap \<Rightarrow> 'k \<Rightarrow> 'v option" where
  "hm_get m k = map_of m k"

definition hm_contains_key :: "('k, 'v) hashmap \<Rightarrow> 'k \<Rightarrow> bool" where
  "hm_contains_key m k = (hm_get m k \<noteq> None)"

definition hm_insert :: "'k \<Rightarrow> 'v \<Rightarrow> ('k, 'v) hashmap \<Rightarrow> ('k, 'v) hashmap" where
  "hm_insert k v m = AList.update k v m"

definition hm_remove :: "'k \<Rightarrow> ('k, 'v) hashmap \<Rightarrow> ('k, 'v) hashmap" where
  "hm_remove k m = AList.delete k m"

text \<open>Writing through \<open>get_mut(k)\<close>: nothing happens when the key is missing.\<close>

definition hm_modify :: "'k \<Rightarrow> ('v \<Rightarrow> 'v) \<Rightarrow> ('k, 'v) hashmap \<Rightarrow> ('k, 'v) hashmap" where
  "hm_modify k f m = map (\<lambda>(k', v). (k', if k' = k then f v else v)) m"

text \<open>\<open>entry(k).or_insert(v)\<close>\<close>

definition hm_or_insert :: "'k \<Rightarrow> 'v \<Rightarrow> ('k, 'v) hashmap \<Rightarrow> ('k, 'v) hashmap" where
  "hm_or_insert k v m = (if hm_contains_key m k then m else hm_insert k v m)"

definition hm_map_values :: "('v \<Rightarrow> 'w) \<Rightarrow> ('k, 'v) hashmap \<Rightarrow> ('k, 'w) hashmap" where
  "hm_map_values f m = map (\<lambda>(k, v). (k, f v)) m"

definition hm_inv :: "('k, 'v) hashmap \<Rightarrow> bool" where
  "hm_inv m \<longleftrightarrow> distinct (hm_keys m)"

lemmas hm_defs = hm_keys_def hm_values_def hm_get_def hm_contains_key_def hm_insert_def
  hm_remove_def hm_modify_def hm_or_insert_def hm_map_values_def hm_inv_def

text \<open>
  What the components rely on: a finite map with lookup, insertion, removal and in-place
  modification, and an invariant all of them keep.
\<close>

locale hash_map =
  fixes lookup :: "'m \<Rightarrow> 'k \<Rightarrow> 'v option"
    and insert :: "'k \<Rightarrow> 'v \<Rightarrow> 'm \<Rightarrow> 'm"
    and remove :: "'k \<Rightarrow> 'm \<Rightarrow> 'm"
    and modify :: "'k \<Rightarrow> ('v \<Rightarrow> 'v) \<Rightarrow> 'm \<Rightarrow> 'm"
    and entries :: "'m \<Rightarrow> ('k \<times> 'v) set"
    and inv :: "'m \<Rightarrow> bool"
  assumes lookup_insert: "lookup (insert k v m) k' = (if k' = k then Some v else lookup m k')"
    and lookup_remove: "lookup (remove k m) k' = (if k' = k then None else lookup m k')"
    and lookup_modify:
      "lookup (modify k f m) k' = (if k' = k then map_option f (lookup m k) else lookup m k')"
    and lookup_entries: "inv m \<Longrightarrow> lookup m k = Some v \<longleftrightarrow> (k, v) \<in> entries m"
    and inv_insert: "inv m \<Longrightarrow> inv (insert k v m)"
    and inv_remove: "inv m \<Longrightarrow> inv (remove k m)"
    and inv_modify: "inv m \<Longrightarrow> inv (modify k f m)"
begin

lemmas lookup_simps = lookup_insert lookup_remove lookup_modify
lemmas inv_intros = inv_insert inv_remove inv_modify

lemma entries_insert:
  assumes "inv m"
  shows "entries (insert k v m) = {(k', v'). k' = k \<and> v' = v \<or> k' \<noteq> k \<and> (k', v') \<in> entries m}"
  using assms by (auto simp: lookup_entries [symmetric] inv_intros lookup_simps split: if_splits)

lemma entries_remove:
  assumes "inv m"
  shows "entries (remove k m) = {(k', v'). k' \<noteq> k \<and> (k', v') \<in> entries m}"
  using assms by (auto simp: lookup_entries [symmetric] inv_intros lookup_simps split: if_splits)

lemma entries_modify:
  assumes "inv m"
  shows "entries (modify k f m) =
    {(k', v'). k' \<noteq> k \<and> (k', v') \<in> entries m \<or> k' = k \<and> (\<exists>v. (k, v) \<in> entries m \<and> v' = f v)}"
  using assms by (auto simp: lookup_entries [symmetric] inv_intros lookup_simps split: if_splits)

end

lemma map_of_hm_modify: "map_of (hm_modify k f m) k' = (if k' = k then map_option f (map_of m k) else map_of m k')"
  by (induction m) (auto simp: hm_modify_def)

lemma hm_keys_modify [simp]: "hm_keys (hm_modify k f m) = hm_keys m"
  by (induction m) (auto simp: hm_modify_def hm_keys_def)

interpretation hm: hash_map hm_get hm_insert hm_remove hm_modify set hm_inv
proof
  show "hm_inv (hm_insert k v m)" if "hm_inv m" for k :: 'a and v :: 'b and m
    using that by (simp add: hm_inv_def hm_keys_def hm_insert_def distinct_update)
  show "hm_inv (hm_remove k m)" if "hm_inv m" for k :: 'a and m :: "('a, 'b) hashmap"
    using that by (simp add: hm_inv_def hm_keys_def hm_remove_def distinct_delete)
  show "hm_inv (hm_modify k f m)" if "hm_inv m" for k :: 'a and f :: "'b \<Rightarrow> 'b" and m
    using that by (simp add: hm_inv_def)
qed (auto simp: hm_defs update_conv' delete_conv' map_of_hm_modify [unfolded hm_modify_def])

lemmas hm_get_simps [simp] = hm.lookup_simps
lemmas hm_inv_intros [simp, intro] = hm.inv_intros

lemma hm_inv_Nil [simp]: "hm_inv []"
  by (simp add: hm_defs)

lemma hm_get_Nil [simp]: "hm_get [] k = None"
  by (simp add: hm_defs)

lemma hm_inv_or_insert [simp, intro]: "hm_inv m \<Longrightarrow> hm_inv (hm_or_insert k v m)"
  by (simp add: hm_or_insert_def)

lemma hm_get_or_insert [simp]:
  "hm_get (hm_or_insert k v m) k' =
     (if k' = k then Some (case hm_get m k of None \<Rightarrow> v | Some w \<Rightarrow> w) else hm_get m k')"
  by (auto simp: hm_or_insert_def hm_contains_key_def)

lemma hm_get_map_values [simp]: "hm_get (hm_map_values f m) k = map_option f (hm_get m k)"
  by (induction m) (auto simp: hm_defs)

lemma hm_keys_map_values [simp]: "hm_keys (hm_map_values f m) = hm_keys m"
  by (induction m) (auto simp: hm_defs)

lemma hm_inv_map_values [simp]: "hm_inv (hm_map_values f m) = hm_inv m"
  by (simp add: hm_inv_def)

lemma hm_get_in_set: "hm_get m k = Some v \<Longrightarrow> (k, v) \<in> set m"
  by (simp add: hm_defs map_of_SomeD)

lemma hm_keys_set: "k \<in> set (hm_keys m) \<longleftrightarrow> hm_get m k \<noteq> None"
  by (auto simp: hm_defs map_of_eq_None_iff)


subsection \<open>Sums over lists\<close>

lemma sum_list_map_update:
  fixes f :: "'a \<Rightarrow> 'b::comm_monoid_add"
  shows "i < length xs \<Longrightarrow> sum_list (map f (xs[i := y])) + f (xs ! i) = sum_list (map f xs) + f y"
proof (induction xs arbitrary: i)
  case (Cons x xs)
  then show ?case by (cases i) (simp_all add: ac_simps)
qed simp

lemma sum_list_map_update_add:
  fixes f :: "'a \<Rightarrow> 'b::cancel_comm_monoid_add"
  assumes "i < length xs" "f y = f (xs ! i) + d"
  shows "sum_list (map f (xs[i := y])) = sum_list (map f xs) + d"
proof -
  have "f (xs ! i) + sum_list (map f (xs[i := y])) = f (xs ! i) + (sum_list (map f xs) + d)"
    using sum_list_map_update [OF assms(1), of f y] assms(2) by (simp add: ac_simps)
  then show ?thesis by (rule add_left_imp_eq)
qed

lemma sum_list_map_update_same:
  fixes f :: "'a \<Rightarrow> 'b::cancel_comm_monoid_add"
  assumes "i < length xs" "f y = f (xs ! i)"
  shows "sum_list (map f (xs[i := y])) = sum_list (map f xs)"
  using sum_list_map_update_add [OF assms(1), of f y 0] assms(2) by simp

lemma sum_list_map_split:
  fixes f :: "'a \<Rightarrow> 'b::comm_monoid_add"
  shows "i < length xs \<Longrightarrow> \<exists>r. sum_list (map f xs) = f (xs ! i) + r"
proof (induction xs arbitrary: i)
  case (Cons x xs)
  show ?case
  proof (cases i)
    case (Suc k)
    with Cons obtain r where "sum_list (map f xs) = f (xs ! k) + r" by auto
    with Suc show ?thesis by (intro exI [of _ "f x + r"]) (simp add: ac_simps)
  qed auto
qed simp


subsection \<open>Iterator methods\<close>

text \<open>\<open>max_by_key\<close> keeps the last of the equal maxima, \<open>min_by\<close> the first minimum.\<close>

fun max_by_key :: "('a \<Rightarrow> nat) \<Rightarrow> 'a list \<Rightarrow> 'a option" where
  "max_by_key f [] = None"
| "max_by_key f (x # xs) =
     (case max_by_key f xs of
        None \<Rightarrow> Some x
      | Some y \<Rightarrow> if f x \<le> f y then Some y else Some x)"

text \<open>\<open>std::cmp::Ordering\<close>. A comparison that panics makes \<open>min_by\<close> panic (outer None).\<close>

datatype ordering = Less | Equal | Greater

definition usize_cmp :: "usize \<Rightarrow> usize \<Rightarrow> ordering" where
  "usize_cmp a b = (if a < b then Less else if a = b then Equal else Greater)"

fun min_fold :: "('a \<Rightarrow> 'a \<Rightarrow> ordering option) \<Rightarrow> 'a \<Rightarrow> 'a list \<Rightarrow> 'a option" where
  "min_fold cmp x [] = Some x"
| "min_fold cmp x (y # ys) =
     (case cmp x y of
        None \<Rightarrow> None
      | Some ord \<Rightarrow> min_fold cmp (if ord = Greater then y else x) ys)"

fun min_by :: "('a \<Rightarrow> 'a \<Rightarrow> ordering option) \<Rightarrow> 'a list \<Rightarrow> 'a option option" where
  "min_by cmp [] = Some None"
| "min_by cmp (x # xs) = map_option Some (min_fold cmp x xs)"

fun find_position :: "('a \<Rightarrow> bool) \<Rightarrow> 'a list \<Rightarrow> usize option" where
  "find_position P [] = None"
| "find_position P (x # xs) = (if P x then Some 0 else map_option Suc (find_position P xs))"

lemma max_by_key_None [simp]: "max_by_key f xs = None \<longleftrightarrow> xs = []"
  by (cases xs) (auto split: option.splits)

lemma max_by_key_Some: "max_by_key f xs = Some x \<Longrightarrow> x \<in> set xs \<and> (\<forall>y \<in> set xs. f y \<le> f x)"
proof (induction xs arbitrary: x)
  case (Cons a xs)
  then show ?case
    by (cases "max_by_key f xs") (fastforce split: if_splits)+
qed simp

lemma min_fold_least:
  assumes "\<And>a b. a \<in> insert x (set xs) \<Longrightarrow> b \<in> insert x (set xs) \<Longrightarrow>
      \<exists>ord. cmp a b = Some ord \<and> (ord = Greater \<longleftrightarrow> \<not> le a b)"
    and "\<And>a b. le a b \<or> le b a" and "\<And>a b c. le a b \<Longrightarrow> le b c \<Longrightarrow> le a c"
  shows "\<exists>m \<in> insert x (set xs). min_fold cmp x xs = Some m \<and> (\<forall>y \<in> insert x (set xs). le m y)"
  using assms(1)
proof (induction xs arbitrary: x)
  case (Cons y ys)
  obtain ord where ord: "cmp x y = Some ord" "ord = Greater \<longleftrightarrow> \<not> le x y" using Cons.prems [of x y] by auto
  define x' where "x' = (if ord = Greater then y else x)"
  have x': "le x' x" "le x' y" "x' \<in> {x, y}" using ord(2) assms(2) by (auto simp: x'_def)
  have "\<exists>ord. cmp a b = Some ord \<and> (ord = Greater \<longleftrightarrow> \<not> le a b)"
    if "a \<in> insert x' (set ys)" "b \<in> insert x' (set ys)" for a b
    using Cons.prems [of a b] that x'(3) by auto
  from Cons.IH [OF this] obtain m where
    m: "m \<in> insert x' (set ys)" "min_fold cmp x' ys = Some m" "\<forall>z \<in> insert x' (set ys). le m z" by blast
  moreover from m(3) x' assms(3) have "le m x" "le m y" by blast+
  ultimately show ?case using ord(1) x'(3) by (auto simp: x'_def [symmetric])
qed (use assms(2) in auto)

lemma min_by_least:
  assumes "\<And>a b. a \<in> set xs \<Longrightarrow> b \<in> set xs \<Longrightarrow> \<exists>ord. cmp a b = Some ord \<and> (ord = Greater \<longleftrightarrow> \<not> le a b)"
    and "\<And>a b. le a b \<or> le b a" and "\<And>a b c. le a b \<Longrightarrow> le b c \<Longrightarrow> le a c" and "xs \<noteq> []"
  shows "\<exists>m \<in> set xs. min_by cmp xs = Some (Some m) \<and> (\<forall>y \<in> set xs. le m y)"
proof (cases xs)
  case (Cons x ys)
  with min_fold_least [of x ys cmp le] assms(1-3) show ?thesis by auto
qed (use assms(4) in simp)

lemma find_position_Some:
  "find_position P xs = Some i \<Longrightarrow> i < length xs \<and> P (xs ! i) \<and> (\<forall>j < i. \<not> P (xs ! j))"
proof (induction xs arbitrary: i)
  case (Cons a xs)
  then show ?case
    by (auto split: if_splits simp: less_Suc_eq_0_disj nth_Cons')
qed simp

lemma find_position_None: "find_position P xs = None \<longleftrightarrow> (\<forall>x \<in> set xs. \<not> P x)"
  by (induction xs) auto

end
