(* ===== verification/UM_Ranges.thy ===== *)
theory UM_Ranges
  imports UM_Prelude
begin

section \<open>Ranges, range lists and range maps (src/common/cluster.rs)\<close>

text \<open>
  \<open>Range\<close>, \<open>RangeList\<close> and \<open>RangeMap\<close>: the sets of hash slots every other part
  of the system passes around. The two-index loop of \<open>RangeList::compact\<close> is kept as
  it is written and shown equal to a left-to-right merge; on ranges whose ends are below
  \<open>usize::MAX\<close> the compacted list is the unique canonical representation of its set of
  slots, which is what makes the comparisons \<open>range_list == range_list\<close> of the broker
  comparisons of sets.
\<close>


subsection \<open>Data\<close>

text \<open>A range \<open>Range(start, end)\<close> is inclusive at both ends.\<close>

type_synonym range = "usize \<times> usize"
type_synonym range_list = "range list"

definition SLOT_NUM :: usize where
  "SLOT_NUM = 16384"

text \<open>The slots of a range and of a list, in order, with repetitions.\<close>

definition range_slots :: "range \<Rightarrow> nat list" where
  "range_slots r = [fst r ..< Suc (snd r)]"

definition rl_slots :: "range_list \<Rightarrow> nat list" where
  "rl_slots rl = concat (map range_slots rl)"


subsection \<open>Compaction\<close>

definition range_normalize :: "range \<Rightarrow> range" where
  "range_normalize r = (if fst r > snd r then (snd r, fst r) else r)"

text \<open>
  The loop of \<open>compact\<close>: \<open>a\<close> is the index of the range being extended, \<open>b\<close> of
  the next one to look at. The addition \<open>s.end() + 1\<close> wraps.
\<close>

function compact_loop :: "range_list \<Rightarrow> usize \<Rightarrow> usize \<Rightarrow> range_list \<times> usize" where
  "compact_loop xs a b =
     (if b < length xs then
        (let e = xs ! b; s = xs ! a in
         if usize_add (snd s) 1 \<ge> fst e
         then compact_loop (xs[a := (fst s, max (snd s) (snd e))]) a (b + 1)
         else compact_loop (xs[a + 1 := e]) (a + 1) (b + 1))
      else (xs, a))"
  by pat_completeness auto
termination
  by (relation "measure (\<lambda>(xs, a, b). length xs - b)") auto

declare compact_loop.simps [simp del]

definition compact :: "range_list \<Rightarrow> range_list" where
  "compact rl =
     (let (xs, a) = compact_loop (sort_key fst (map range_normalize rl)) 0 1
      in take (a + 1) xs)"

definition rl_new :: "range list \<Rightarrow> range_list" where
  "rl_new ranges = compact ranges"

definition from_single_range :: "range \<Rightarrow> range_list" where
  "from_single_range r = [range_normalize r]"

definition rl_merge :: "range_list list \<Rightarrow> range_list" where
  "rl_merge range_lists = rl_new (concat range_lists)"

definition merge_another :: "range_list \<Rightarrow> range_list \<Rightarrow> range_list" where
  "merge_another self range_list = compact (self @ range_list)"

definition get_slots_num :: "range_list \<Rightarrow> usize" where
  "get_slots_num rl = usize_sum (map (\<lambda>r. usize_add (usize_sub (snd r) (fst r)) 1) rl)"


subsection \<open>Text form\<close>

definition parse_slot_range :: "string \<Rightarrow> range option" where
  "parse_slot_range s =
     (case split_on (CHR ''-'') s of
        start_str # end_str # _ \<Rightarrow>
          (case parse_u64 start_str of
             None \<Rightarrow> None
           | Some start \<Rightarrow>
               (case parse_u64 end_str of None \<Rightarrow> None | Some en \<Rightarrow> Some (start, en)))
      | _ \<Rightarrow> None)"

fun parse_ranges :: "nat \<Rightarrow> string list \<Rightarrow> (range list \<times> string list) option" where
  "parse_ranges 0 it = Some ([], it)"
| "parse_ranges (Suc n) [] = None"
| "parse_ranges (Suc n) (s # it) =
     (case parse_slot_range s of
        None \<Rightarrow> None
      | Some r \<Rightarrow> map_option (\<lambda>(rs, it'). (r # rs, it')) (parse_ranges n it))"

definition rl_parse :: "string list \<Rightarrow> (range_list \<times> string list) option" where
  "rl_parse it =
     (case it of
        [] \<Rightarrow> None
      | s # it' \<Rightarrow>
          (case parse_u64 s of
             None \<Rightarrow> None
           | Some ranges_num \<Rightarrow> map_option (map_prod rl_new id) (parse_ranges ranges_num it')))"

definition rl_try_from :: "string \<Rightarrow> range_list option" where
  "rl_try_from s = map_option fst (rl_parse (split_on (CHR '' '') s))"

definition range_to_string :: "range \<Rightarrow> string" where
  "range_to_string r = show_nat (fst r) @ CHR ''-'' # show_nat (snd r)"

definition rl_to_strings :: "range_list \<Rightarrow> string list" where
  "rl_to_strings rl = show_nat (length rl) # map range_to_string rl"


subsection \<open>Range maps\<close>

record range_map =
  min_slot :: usize
  exists_map :: "bool list"

text \<open>\<open>slot_num.checked_sub(min_slot)\<close> and then \<open>get_mut\<close>: out of range is ignored.\<close>

definition mark_slot :: "usize \<Rightarrow> usize \<Rightarrow> bool list \<Rightarrow> bool list" where
  "mark_slot mn slot_num m =
     (if mn \<le> slot_num \<and> slot_num - mn < length m then m[slot_num - mn := True] else m)"

text \<open>
  \<open>vec![false; map_len]\<close> panics on a length above \<open>isize::MAX\<close>: the result is None.
\<close>

definition range_map_from :: "range_list \<Rightarrow> range_map option" where
  "range_map_from rl =
     (let mn = (case rl of [] \<Rightarrow> None | r # _ \<Rightarrow> if fst r \<ge> SLOT_NUM then None else Some (fst r));
          mx = (case rl of [] \<Rightarrow> None | _ \<Rightarrow> if snd (last rl) \<ge> SLOT_NUM then None else Some (snd (last rl)));
          (mn', map_len) = (case (mn, mx) of
             (Some a, Some b) \<Rightarrow> (a, usize_add (usize_sub b a) 1)
           | _ \<Rightarrow> (0, 0))
      in if map_len \<ge> 2 ^ 63 then None
         else Some \<lparr>min_slot = mn',
                exists_map = fold (mark_slot mn') (rl_slots rl) (replicate map_len False)\<rparr>)"

definition contains_slot :: "range_map \<Rightarrow> usize \<Rightarrow> bool" where
  "contains_slot rm slot =
     (min_slot rm \<le> slot \<and> slot - min_slot rm < length (exists_map rm)
      \<and> exists_map rm ! (slot - min_slot rm))"


subsection \<open>Canonical range lists\<close>

definition rl_wf :: "range_list \<Rightarrow> bool" where
  "rl_wf rl \<longleftrightarrow> (\<forall>r \<in> set rl. fst r \<le> snd r)"

definition rl_bounded :: "range_list \<Rightarrow> bool" where
  "rl_bounded rl \<longleftrightarrow> (\<forall>r \<in> set rl. fst r < 2 ^ 64 - 1 \<and> snd r < 2 ^ 64 - 1)"

definition rl_canon :: "range_list \<Rightarrow> bool" where
  "rl_canon rl \<longleftrightarrow> rl_wf rl \<and> sorted_wrt (\<lambda>r r'. snd r + 1 < fst r') rl"

text \<open>The reference: one pass that extends the current range or emits it.\<close>

fun merge_from :: "range \<Rightarrow> range_list \<Rightarrow> range_list" where
  "merge_from s [] = [s]"
| "merge_from s (e # es) =
     (if usize_add (snd s) 1 \<ge> fst e then merge_from (fst s, max (snd s) (snd e)) es
      else s # merge_from e es)"

fun merge_sorted :: "range_list \<Rightarrow> range_list" where
  "merge_sorted [] = []"
| "merge_sorted (s # es) = merge_from s es"

lemma rl_slots_simps [simp]:
  "rl_slots [] = []" "rl_slots (r # rl) = range_slots r @ rl_slots rl"
  "rl_slots (xs @ ys) = rl_slots xs @ rl_slots ys"
  by (simp_all add: rl_slots_def)

lemma set_range_slots: "set (range_slots r) = {fst r .. snd r}"
  by (auto simp: range_slots_def)

lemma distinct_range_slots [simp]: "distinct (range_slots r)"
  by (simp add: range_slots_def)

lemma length_range_slots: "length (range_slots r) = Suc (snd r) - fst r"
  unfolding range_slots_def by (rule length_upt)

lemma in_rl_slots: "x \<in> set (rl_slots rl) \<longleftrightarrow> (\<exists>r \<in> set rl. fst r \<le> x \<and> x \<le> snd r)"
  by (auto simp: rl_slots_def set_range_slots)

lemma rl_wf_simps [simp]:
  "rl_wf []" "rl_wf (r # rl) \<longleftrightarrow> fst r \<le> snd r \<and> rl_wf rl" "rl_wf (xs @ ys) \<longleftrightarrow> rl_wf xs \<and> rl_wf ys"
  by (auto simp: rl_wf_def)

lemma rl_bounded_simps [simp]:
  "rl_bounded []"
  "rl_bounded (r # rl) \<longleftrightarrow> (fst r < 2 ^ 64 - 1 \<and> snd r < 2 ^ 64 - 1) \<and> rl_bounded rl"
  "rl_bounded (xs @ ys) \<longleftrightarrow> rl_bounded xs \<and> rl_bounded ys"
  by (auto simp: rl_bounded_def)

lemma rl_canon_Nil [simp]: "rl_canon []"
  by (simp add: rl_canon_def)

lemma rl_canon_Cons:
  "rl_canon (r # rl) \<longleftrightarrow> fst r \<le> snd r \<and> (\<forall>r' \<in> set rl. snd r + 1 < fst r') \<and> rl_canon rl"
  by (auto simp: rl_canon_def)

lemma rl_canon_single [simp]: "rl_canon [r] \<longleftrightarrow> fst r \<le> snd r"
  by (simp add: rl_canon_Cons)

lemma rl_canon_wf: "rl_canon rl \<Longrightarrow> rl_wf rl"
  by (simp add: rl_canon_def)

lemma range_normalize_le: "fst (range_normalize r) \<le> snd (range_normalize r)"
  by (auto simp: range_normalize_def)

lemma range_normalize_id [simp]: "fst r \<le> snd r \<Longrightarrow> range_normalize r = r"
  by (simp add: range_normalize_def)


subsection \<open>The loop is the reference\<close>

lemma compact_loop_merge_from:
  "\<exists>ys. compact_loop (pre @ s # mid @ es) (length pre) (length pre + 1 + length mid)
        = (pre @ merge_from s es @ ys, length pre + length (merge_from s es) - 1)"
proof (induction es arbitrary: pre s mid)
  case Nil
  show ?case by (subst compact_loop.simps) simp
next
  case (Cons e es)
  let ?xs = "pre @ s # mid @ e # es" and ?b = "length pre + 1 + length mid"
  have b: "?b < length ?xs" and eb: "?xs ! ?b = e" and sa: "?xs ! length pre = s"
    by (auto simp: nth_append)
  show ?case
  proof (cases "usize_add (snd s) 1 \<ge> fst e")
    case True
    define s' where "s' = (fst s, max (snd s) (snd e))"
    have "compact_loop ?xs (length pre) ?b
        = compact_loop (pre @ s' # (mid @ [e]) @ es) (length pre) (length pre + 1 + length (mid @ [e]))"
      using b eb sa True by (subst compact_loop.simps) (simp add: Let_def s'_def list_update_append)
    with True Cons.IH [of pre s' "mid @ [e]"] show ?thesis by (simp add: s'_def)
  next
    case False
    have upd: "?xs[length pre + 1 := e] = (pre @ [s]) @ e # tl (mid @ [e]) @ es"
      by (cases mid) (simp_all add: list_update_append)
    have "compact_loop ?xs (length pre) ?b = compact_loop ((pre @ [s]) @ e # tl (mid @ [e]) @ es)
        (length (pre @ [s])) (length (pre @ [s]) + 1 + length (tl (mid @ [e])))"
      using b eb sa False upd by (subst compact_loop.simps) (simp add: Let_def)
    with False Cons.IH [of "pre @ [s]" e "tl (mid @ [e])"] show ?thesis
      by (cases "merge_from e es") auto
  qed
qed

lemma merge_from_not_Nil [simp]: "merge_from s es \<noteq> []"
  by (induction s es rule: merge_from.induct) auto

lemma compact_eq_merge_sorted: "compact rl = merge_sorted (sort_key fst (map range_normalize rl))"
proof (cases "sort_key fst (map range_normalize rl)")
  case Nil
  then show ?thesis by (simp add: compact_def compact_loop.simps)
next
  case (Cons s es)
  from compact_loop_merge_from [of "[]" s "[]" es] obtain ys where
    "compact_loop (s # es) 0 1 = (merge_from s es @ ys, length (merge_from s es) - 1)" by auto
  with Cons show ?thesis by (simp add: compact_def Suc_diff_1)
qed


subsection \<open>What the reference computes\<close>

lemma merge_from_start: "sorted (map fst (s # es)) \<Longrightarrow> r \<in> set (merge_from s es) \<Longrightarrow> fst s \<le> fst r"
proof (induction s es rule: merge_from.induct)
  case (2 s e es)
  show ?case
  proof (cases "usize_add (snd s) 1 \<ge> fst e")
    case True
    with 2 show ?thesis by simp
  next
    case False
    with 2 show ?thesis by (cases "r = s") (auto intro: order.trans dest: bspec)
  qed
qed simp

lemma merge_from_bounded:
  "rl_bounded (s # es) \<Longrightarrow> rl_bounded (merge_from s es)"
  by (induction s es rule: merge_from.induct) auto

lemma merge_from_slots:
  assumes "rl_bounded (s # es)" "rl_wf (s # es)" "sorted (map fst (s # es))"
  shows "set (rl_slots (merge_from s es)) = set (rl_slots (s # es))"
  using assms
proof (induction s es rule: merge_from.induct)
  case (2 s e es)
  from "2.prems" have suc: "usize_add (snd s) 1 = snd s + 1" by (auto simp: usize_simps)
  show ?case
  proof (cases "usize_add (snd s) 1 \<ge> fst e")
    case True
    with "2.IH"(1) "2.prems"
    have "set (rl_slots (merge_from s (e # es))) = {fst s .. max (snd s) (snd e)} \<union> set (rl_slots es)"
      by (auto simp: set_range_slots)
    also have "{fst s .. max (snd s) (snd e)} = {fst s .. snd s} \<union> {fst e .. snd e}"
      using True "2.prems" suc by auto
    finally show ?thesis by (auto simp: set_range_slots)
  next
    case False
    with "2.IH"(2) "2.prems" show ?thesis by auto
  qed
qed simp

lemma merge_from_canon:
  assumes "rl_bounded (s # es)" "rl_wf (s # es)" "sorted (map fst (s # es))"
  shows "rl_canon (merge_from s es)"
  using assms
proof (induction s es rule: merge_from.induct)
  case (2 s e es)
  from "2.prems" have suc: "usize_add (snd s) 1 = snd s + 1" by (auto simp: usize_simps)
  show ?case
  proof (cases "usize_add (snd s) 1 \<ge> fst e")
    case True
    with "2.IH"(1) "2.prems" show ?thesis by auto
  next
    case False
    have "fst e \<le> fst r" if "r \<in> set (merge_from e es)" for r
      using merge_from_start [OF _ that] "2.prems" by auto
    with False suc "2.IH"(2) "2.prems" show ?thesis by (fastforce simp: rl_canon_Cons)
  qed
qed simp

lemma merge_from_id: "rl_canon (s # es) \<Longrightarrow> rl_bounded (s # es) \<Longrightarrow> merge_from s es = s # es"
proof (induction es arbitrary: s)
  case (Cons e es)
  then have "usize_add (snd s) 1 = snd s + 1" by (simp add: usize_simps)
  with Cons show ?case by (auto simp: rl_canon_Cons)
qed simp


subsection \<open>compact\<close>

abbreviation presorted :: "range_list \<Rightarrow> range_list" where
  "presorted rl \<equiv> sort_key fst (map range_normalize rl)"

lemma rl_wf_presorted: "rl_wf (presorted rl)"
  by (auto simp: rl_wf_def range_normalize_le)

lemma rl_bounded_normalize: "rl_bounded (map range_normalize rl) = rl_bounded rl"
  by (induction rl) (auto simp: range_normalize_def)

lemma rl_bounded_presorted: "rl_bounded rl \<Longrightarrow> rl_bounded (presorted rl)"
  using rl_bounded_normalize [of rl] by (simp add: rl_bounded_def)

lemma set_rl_slots_sort: "set (rl_slots (sort_key f rl)) = set (rl_slots rl)"
  by (auto simp: in_rl_slots)

lemma compact_canon: "rl_bounded rl \<Longrightarrow> rl_canon (compact rl)"
  using rl_wf_presorted [of rl] rl_bounded_presorted [of rl] sorted_sort_key [of fst "map range_normalize rl"]
  by (cases "presorted rl") (auto simp: compact_eq_merge_sorted intro!: merge_from_canon)

lemma compact_bounded [simp]: "rl_bounded rl \<Longrightarrow> rl_bounded (compact rl)"
  using rl_bounded_presorted [of rl]
  by (cases "presorted rl") (auto simp: compact_eq_merge_sorted intro!: merge_from_bounded)

lemma compact_slots_normalize:
  "rl_bounded rl \<Longrightarrow> set (rl_slots (compact rl)) = set (rl_slots (map range_normalize rl))"
  using rl_wf_presorted [of rl] rl_bounded_presorted [of rl] sorted_sort_key [of fst "map range_normalize rl"]
    set_rl_slots_sort [of fst "map range_normalize rl"]
  by (cases "presorted rl") (auto simp: compact_eq_merge_sorted merge_from_slots)

lemma map_normalize_wf [simp]: "rl_wf rl \<Longrightarrow> map range_normalize rl = rl"
  by (induction rl) auto

lemma compact_slots [slots_simps]:
  "rl_bounded rl \<Longrightarrow> rl_wf rl \<Longrightarrow> set (rl_slots (compact rl)) = set (rl_slots rl)"
  by (simp add: compact_slots_normalize)

lemma rl_canon_sorted: "rl_canon rl \<Longrightarrow> sorted (map fst rl)"
proof (induction rl)
  case (Cons r rl)
  then show ?case by (auto simp: rl_canon_Cons intro: order.trans less_imp_le)
qed simp

lemma compact_id: "rl_canon rl \<Longrightarrow> rl_bounded rl \<Longrightarrow> compact rl = rl"
proof -
  assume a: "rl_canon rl" "rl_bounded rl"
  then have "presorted rl = rl"
    by (simp add: rl_canon_wf rl_canon_sorted sort_key_id_if_sorted)
  with a show ?thesis by (cases rl) (simp_all add: compact_eq_merge_sorted merge_from_id)
qed

lemma compact_idem: "rl_bounded rl \<Longrightarrow> compact (compact rl) = compact rl"
  by (simp add: compact_id compact_canon)


subsection \<open>A canonical list is determined by its slots\<close>

lemma rl_canon_distinct: "rl_canon rl \<Longrightarrow> distinct (rl_slots rl)"
proof (induction rl)
  case (Cons r rl)
  then have "set (range_slots r) \<inter> set (rl_slots rl) = {}"
    by (fastforce simp: rl_canon_Cons set_range_slots in_rl_slots)
  with Cons show ?case by (simp add: rl_canon_Cons)
qed simp

lemma compact_mset [slots_simps]:
  assumes "rl_bounded rl" "rl_wf rl" "distinct (rl_slots rl)"
  shows "mset (rl_slots (compact rl)) = mset (rl_slots rl)"
proof -
  have "distinct (rl_slots (compact rl))"
    using assms(1) by (simp add: compact_canon rl_canon_distinct)
  with assms show ?thesis by (simp add: set_eq_iff_mset_eq_distinct [symmetric] compact_slots)
qed

lemma rl_canon_first:
  assumes "rl_canon (r # rl)"
  shows "fst r \<in> set (rl_slots (r # rl))" "snd r \<in> set (rl_slots (r # rl))"
    "Suc (snd r) \<notin> set (rl_slots (r # rl))"
    "x \<in> set (rl_slots (r # rl)) \<Longrightarrow> fst r \<le> x"
    "fst r \<le> x \<Longrightarrow> x \<le> snd r \<Longrightarrow> x \<in> set (rl_slots (r # rl))"
proof -
  from assms have a: "fst r \<le> snd r" "\<And>r'. r' \<in> set rl \<Longrightarrow> snd r + 1 < fst r'"
    by (auto simp: rl_canon_Cons)
  then show "fst r \<in> set (rl_slots (r # rl))" "snd r \<in> set (rl_slots (r # rl))"
    "Suc (snd r) \<notin> set (rl_slots (r # rl))"
    by (fastforce simp: in_rl_slots simp del: rl_slots_simps)+
  show "fst r \<le> x" if x: "x \<in> set (rl_slots (r # rl))"
  proof -
    from x obtain q where "q = r \<or> q \<in> set rl" "fst q \<le> x"
      unfolding in_rl_slots by force
    with a(1) a(2) [of q] show ?thesis by auto
  qed
  show "x \<in> set (rl_slots (r # rl))" if "fst r \<le> x" "x \<le> snd r"
    using that by (auto simp: set_range_slots)
qed

lemma rl_canon_tail:
  "rl_canon (r # rl) \<Longrightarrow> set (rl_slots rl) = set (rl_slots (r # rl)) - {fst r .. snd r}"
  by (fastforce simp: rl_canon_Cons set_range_slots in_rl_slots)

lemma rl_canon_head_eq:
  assumes a: "rl_canon (r # rl)" and b: "rl_canon (r' # rl')"
    and eq: "set (rl_slots (r # rl)) = set (rl_slots (r' # rl'))"
  shows "r = r'"
proof -
  have f: "fst r = fst r'"
    using rl_canon_first(4) [OF a, of "fst r'"] rl_canon_first(1) [OF b]
      rl_canon_first(4) [OF b, of "fst r"] rl_canon_first(1) [OF a] eq
    by (simp only: order_antisym)
  have "\<not> snd r < snd r'"
  proof
    assume "snd r < snd r'"
    then have "Suc (snd r) \<in> set (rl_slots (r' # rl'))"
      using a f by (intro rl_canon_first(5) [OF b]) (auto simp: rl_canon_Cons)
    with rl_canon_first(3) [OF a] eq show False by blast
  qed
  moreover have "\<not> snd r' < snd r"
  proof
    assume "snd r' < snd r"
    then have "Suc (snd r') \<in> set (rl_slots (r # rl))"
      using b f by (intro rl_canon_first(5) [OF a]) (auto simp: rl_canon_Cons)
    with rl_canon_first(3) [OF b] eq show False by blast
  qed
  ultimately show ?thesis using f by (simp add: prod_eq_iff)
qed

lemma rl_canon_unique:
  "rl_canon a \<Longrightarrow> rl_canon b \<Longrightarrow> set (rl_slots a) = set (rl_slots b) \<Longrightarrow> a = b"
proof (induction a arbitrary: b)
  case Nil
  then show ?case by (cases b) (auto dest: rl_canon_first(1))
next
  case (Cons r rl)
  then obtain r' rl' where b: "b = r' # rl'"
    using rl_canon_first(1) [OF Cons.prems(1)] by (cases b) auto
  with Cons.prems have r: "r = r'" by (simp add: rl_canon_head_eq del: rl_slots_simps)
  moreover have "rl = rl'"
    using Cons.prems r unfolding b
    using rl_canon_tail [of r rl] rl_canon_tail [of r' rl']
    by (intro Cons.IH) (simp_all add: rl_canon_Cons del: rl_slots_simps)
  ultimately show ?case by (simp add: b)
qed


subsection \<open>The number of slots\<close>

lemma sum_list_length_slots:
  "rl_wf rl \<Longrightarrow> sum_list (map (\<lambda>r. snd r - fst r + 1) rl) = length (rl_slots rl)"
  by (induction rl) (auto simp: length_range_slots Suc_diff_le)

lemma get_slots_num_length [slots_simps]:
  assumes "rl_wf rl" "rl_bounded rl" "length (rl_slots rl) < 2 ^ 64"
  shows "get_slots_num rl = length (rl_slots rl)"
proof -
  have "map (\<lambda>r. usize_add (usize_sub (snd r) (fst r)) 1) rl = map (\<lambda>r. snd r - fst r + 1) rl"
    using assms(1,2) by (auto simp: rl_wf_def rl_bounded_def usize_simps)
  moreover from assms have "sum_list (map (\<lambda>r. snd r - fst r + 1) rl) < 2 ^ 64"
    by (simp only: sum_list_length_slots)
  ultimately show ?thesis
    unfolding get_slots_num_def using assms(1) by (simp only: usize_simps sum_list_length_slots)
qed

lemma rl_canon_length_bound:
  assumes "rl_canon rl" "rl_bounded rl"
  shows "length (rl_slots rl) < 2 ^ 64"
proof -
  have "set (rl_slots rl) \<subseteq> {..< 2 ^ 64 - 1}"
    using assms(2) by (fastforce simp: in_rl_slots rl_bounded_def)
  then have "card (set (rl_slots rl)) \<le> card {..< 2 ^ 64 - 1 :: nat}"
    by (intro card_mono) auto
  then have "card (set (rl_slots rl)) \<le> 2 ^ 64 - 1" by (simp only: card_lessThan)
  with rl_canon_distinct [OF assms(1)] show ?thesis by (simp add: distinct_card)
qed

lemma get_slots_num_card:
  "rl_canon rl \<Longrightarrow> rl_bounded rl \<Longrightarrow> get_slots_num rl = card (set (rl_slots rl))"
  using get_slots_num_length [OF rl_canon_wf] rl_canon_length_bound
  by (simp add: distinct_card rl_canon_distinct)


subsection \<open>Range lists as sets of slots\<close>

definition rl_inv :: "range_list \<Rightarrow> bool" where
  "rl_inv rl \<longleftrightarrow> rl_canon rl \<and> rl_bounded rl"

lemma rl_inv_wf: "rl_inv rl \<Longrightarrow> rl_wf rl"
  by (simp add: rl_inv_def rl_canon_wf)

lemma rl_inv_bounded: "rl_inv rl \<Longrightarrow> rl_bounded rl"
  by (simp add: rl_inv_def)

lemma rl_inv_compact: "rl_bounded rl \<Longrightarrow> rl_inv (compact rl)"
  by (simp add: rl_inv_def compact_canon)

lemma rl_inv_distinct: "rl_inv rl \<Longrightarrow> distinct (rl_slots rl)"
  by (simp add: rl_inv_def rl_canon_distinct)

lemma rl_inv_compact_id [simp]: "rl_inv rl \<Longrightarrow> compact rl = rl"
  by (simp add: rl_inv_def compact_id)

lemma rl_inv_slots_num: "rl_inv rl \<Longrightarrow> get_slots_num rl = length (rl_slots rl)"
  by (simp add: rl_inv_def get_slots_num_card distinct_card rl_canon_distinct)

lemma rl_inv_Nil [simp]: "rl_inv []"
  by (simp add: rl_inv_def)

text \<open>
  The interface the broker uses: a representation of finite sets of slots with a union and a
  cardinality, in which equal sets are equal values.
\<close>

locale slot_set =
  fixes slots :: "'r \<Rightarrow> nat set"
    and union :: "'r \<Rightarrow> 'r \<Rightarrow> 'r"
    and num :: "'r \<Rightarrow> nat"
    and empty :: 'r
    and inv :: "'r \<Rightarrow> bool"
  assumes slots_empty: "slots empty = {}"
    and inv_empty: "inv empty"
    and slots_union: "inv a \<Longrightarrow> inv b \<Longrightarrow> slots (union a b) = slots a \<union> slots b"
    and inv_union: "inv a \<Longrightarrow> inv b \<Longrightarrow> inv (union a b)"
    and num_card: "inv a \<Longrightarrow> num a = card (slots a)"
    and finite_slots: "finite (slots a)"
    and slots_inject: "inv a \<Longrightarrow> inv b \<Longrightarrow> slots a = slots b \<Longrightarrow> a = b"
begin

lemma num_union_disjoint:
  "inv a \<Longrightarrow> inv b \<Longrightarrow> slots a \<inter> slots b = {} \<Longrightarrow> num (union a b) = num a + num b"
  by (simp add: num_card inv_union slots_union card_Un_disjoint finite_slots)

lemma union_commute: "inv a \<Longrightarrow> inv b \<Longrightarrow> union a b = union b a"
  by (intro slots_inject) (auto simp: slots_union inv_union)

lemma union_assoc: "inv a \<Longrightarrow> inv b \<Longrightarrow> inv c \<Longrightarrow> union (union a b) c = union a (union b c)"
  by (intro slots_inject) (auto simp: slots_union inv_union)

lemma union_empty: "inv a \<Longrightarrow> union a empty = a"
  by (intro slots_inject) (auto simp: slots_union inv_union slots_empty inv_empty)

lemma num_0_iff: "inv a \<Longrightarrow> num a = 0 \<longleftrightarrow> a = empty"
  by (auto simp: num_card finite_slots slots_empty intro: slots_inject inv_empty)

end

lemma merge_another_inv: "rl_inv a \<Longrightarrow> rl_inv b \<Longrightarrow> rl_inv (merge_another a b)"
  by (simp add: merge_another_def rl_inv_compact rl_inv_bounded)

lemma merge_another_slots:
  "rl_inv a \<Longrightarrow> rl_inv b \<Longrightarrow>
     set (rl_slots (merge_another a b)) = set (rl_slots a) \<union> set (rl_slots b)"
  by (simp add: merge_another_def slots_simps rl_inv_bounded rl_inv_wf)

lemma merge_another_mset:
  "rl_inv a \<Longrightarrow> rl_inv b \<Longrightarrow> set (rl_slots a) \<inter> set (rl_slots b) = {} \<Longrightarrow>
     mset (rl_slots (merge_another a b)) = mset (rl_slots a) + mset (rl_slots b)"
  by (simp add: merge_another_def slots_simps rl_inv_bounded rl_inv_wf rl_inv_distinct)

interpretation rl: slot_set "\<lambda>rl. set (rl_slots rl)" merge_another get_slots_num "[]" rl_inv
proof
  show "a = b" if "rl_inv a" "rl_inv b" "set (rl_slots a) = set (rl_slots b)" for a b
    using that by (simp add: rl_inv_def rl_canon_unique)
qed (simp_all add: merge_another_inv merge_another_slots get_slots_num_card [folded rl_inv_def] rl_inv_slots_num
    distinct_card rl_inv_distinct)


subsection \<open>Range maps\<close>

lemma length_mark_slot [simp]: "length (mark_slot mn x m) = length m"
  by (simp add: mark_slot_def)

lemma fold_mark_slot:
  "length (fold (mark_slot mn) xs m) = length m \<and>
   (\<forall>i < length m. fold (mark_slot mn) xs m ! i \<longleftrightarrow> m ! i \<or> mn + i \<in> set xs)"
proof (induction xs arbitrary: m)
  case (Cons x xs)
  then show ?case by (auto simp: mark_slot_def nth_list_update)
qed simp

lemma rl_canon_last: "rl_canon rl \<Longrightarrow> x \<in> set (rl_slots rl) \<Longrightarrow> x \<le> snd (last rl)"
proof (induction rl)
  case (Cons r rl)
  show ?case
  proof (cases "x \<in> set (rl_slots rl)")
    case True
    with Cons show ?thesis by (auto simp: rl_canon_Cons)
  next
    case False
    with Cons.prems have x: "x \<le> snd r" by (auto simp: set_range_slots)
    show ?thesis
    proof (cases rl)
      case (Cons q qs)
      with \<open>rl_canon (r # rl)\<close> have "last rl \<in> set rl" by simp
      with \<open>rl_canon (r # rl)\<close> have "snd r < fst (last rl)" "fst (last rl) \<le> snd (last rl)"
        by (auto simp: rl_canon_Cons dest: rl_canon_wf simp: rl_wf_def)
      with x Cons show ?thesis by simp
    qed (use x in simp)
  qed
qed simp

lemma rl_canon_last_mem: "rl_canon rl \<Longrightarrow> rl \<noteq> [] \<Longrightarrow> snd (last rl) \<in> set (rl_slots rl)"
  using last_in_set [of rl] by (force simp: in_rl_slots rl_canon_def rl_wf_def)

lemma range_map_from_in_range:
  assumes c: "rl_canon (r # rl)" and l: "snd (last (r # rl)) < SLOT_NUM"
  shows "range_map_from (r # rl) =
    Some \<lparr>min_slot = fst r,
      exists_map = fold (mark_slot (fst r)) (rl_slots (r # rl))
        (replicate (snd (last (r # rl)) - fst r + 1) False)\<rparr>"
proof -
  have "fst r \<le> snd (last (r # rl))"
    using rl_canon_last [OF c] rl_canon_first(1) [OF c] by blast
  with l show ?thesis
    by (simp add: range_map_from_def SLOT_NUM_def usize_simps del: rl_slots_simps)
qed

lemma range_map_from_out_of_range:
  "rl = [] \<or> snd (last rl) \<ge> SLOT_NUM \<Longrightarrow>
     \<exists>m. range_map_from rl = Some m \<and> (\<forall>s. \<not> contains_slot m s)"
  using fold_mark_slot [of 0 "rl_slots rl" "[]"]
  by (cases rl) (auto simp: range_map_from_def contains_slot_def split: option.splits)

lemma range_map_correct:
  assumes "rl_canon rl"
  shows "\<exists>m. range_map_from rl = Some m \<and>
    (\<forall>s. contains_slot m s \<longleftrightarrow> s \<in> set (rl_slots rl) \<and> (\<forall>x \<in> set (rl_slots rl). x < SLOT_NUM))"
proof (cases "rl = [] \<or> snd (last rl) \<ge> SLOT_NUM")
  case True
  with range_map_from_out_of_range [OF True] rl_canon_last_mem [OF assms] show ?thesis
    by (cases "rl = []") (auto simp: not_less)
next
  case False
  then obtain r rl' where rl: "rl = r # rl'" by (cases rl) auto
  with False assms have eq: "range_map_from rl = Some \<lparr>min_slot = fst r,
      exists_map = fold (mark_slot (fst r)) (rl_slots rl) (replicate (snd (last rl) - fst r + 1) False)\<rparr>"
    using range_map_from_in_range [of r rl'] by (simp del: rl_slots_simps)
  have b: "fst r \<le> x \<and> x \<le> snd (last rl)" if "x \<in> set (rl_slots rl)" for x
    using rl_canon_last [OF assms that] rl_canon_first(4) [of r rl'] assms that by (simp add: rl)
  define n where "n = snd (last rl) - fst r + 1"
  define m where "m = fold (mark_slot (fst r)) (rl_slots rl) (replicate n False)"
  have eqm: "range_map_from rl = Some \<lparr>min_slot = fst r, exists_map = m\<rparr>"
    unfolding m_def n_def by (rule eq)
  have m: "length m = n" "\<And>i. i < n \<Longrightarrow> m ! i \<longleftrightarrow> fst r + i \<in> set (rl_slots rl)"
    using fold_mark_slot [of "fst r" "rl_slots rl" "replicate n False"] by (simp_all add: m_def)
  have "contains_slot \<lparr>min_slot = fst r, exists_map = m\<rparr> s \<longleftrightarrow> s \<in> set (rl_slots rl)" for s
  proof
    assume "contains_slot \<lparr>min_slot = fst r, exists_map = m\<rparr> s"
    then show "s \<in> set (rl_slots rl)"
      using m(2) [of "s - fst r"] by (auto simp: contains_slot_def m(1))
  next
    assume s: "s \<in> set (rl_slots rl)"
    with b [OF s] have "s - fst r < n" unfolding n_def by linarith
    with b [OF s] s show "contains_slot \<lparr>min_slot = fst r, exists_map = m\<rparr> s"
      using m(2) [of "s - fst r"] by (simp add: contains_slot_def m(1))
  qed
  moreover have "x < SLOT_NUM" if "x \<in> set (rl_slots rl)" for x
    using b [OF that] False by simp
  ultimately show ?thesis using eqm by auto
qed


subsection \<open>Reading back what was written\<close>

lemma parse_slot_range_to_string [simp]:
  "fst r < 2 ^ 64 \<Longrightarrow> snd r < 2 ^ 64 \<Longrightarrow> parse_slot_range (range_to_string r) = Some r"
  by (simp add: parse_slot_range_def range_to_string_def split_on_delim split_on_none show_nat_no_dash)

lemma parse_ranges_to_string:
  "(\<And>r. r \<in> set rl \<Longrightarrow> fst r < 2 ^ 64 \<and> snd r < 2 ^ 64) \<Longrightarrow>
     parse_ranges (length rl) (map range_to_string rl @ rest) = Some (rl, rest)"
  by (induction rl) simp_all

lemma rl_parse_to_strings:
  assumes "rl_bounded rl" "length rl < 2 ^ 64"
  shows "rl_parse (rl_to_strings rl @ rest) = Some (compact rl, rest)"
proof -
  have "parse_ranges (length rl) (map range_to_string rl @ rest) = Some (rl, rest)"
    using assms(1) by (intro parse_ranges_to_string) (auto simp: rl_bounded_def dest!: bspec)
  with assms(2) show ?thesis
    by (simp add: rl_parse_def rl_to_strings_def rl_new_def)
qed

lemma length_le_slots: "rl_wf rl \<Longrightarrow> length rl \<le> length (rl_slots rl)"
  by (induction rl) (auto simp: length_range_slots)

lemma rl_inv_length: "rl_inv rl \<Longrightarrow> length rl < 2 ^ 64"
  using length_le_slots [of rl] rl_canon_length_bound [of rl]
  by (simp add: rl_inv_def rl_canon_wf)

interpretation rl_codec: string_codec rl_to_strings rl_parse rl_inv
proof
  show "rl_parse (rl_to_strings x @ rest) = Some (x, rest)" if "rl_inv x" for x rest
    using rl_parse_to_strings [OF rl_inv_bounded rl_inv_length, OF that that] that by simp
qed


lemma range_normalize_min_max: "range_normalize r = (min (fst r) (snd r), max (fst r) (snd r))"
  by (cases r) (simp add: range_normalize_def)


subsection \<open>Properties\<close>

text \<open>
  (C27) \<open>RangeList::compact\<close> computes a canonical form: the ranges of the result are
  nonempty, sorted and separated by at least one slot; they cover exactly the slots of the given
  ranges (a reversed range counts as the range between its ends); and no other canonical list
  covers the same slots, so comparing compacted lists compares sets of slots. The ends have to
  be below \<open>usize::MAX\<close>.
\<close>

theorem compact_is_canonical_form:
  assumes "rl_bounded rl"
  shows "rl_canon (compact rl) \<and>
    set (rl_slots (compact rl)) = (\<Union>r \<in> set rl. {min (fst r) (snd r) .. max (fst r) (snd r)}) \<and>
    (\<forall>rl'. rl_canon rl' \<and> set (rl_slots rl') = set (rl_slots (compact rl)) \<longrightarrow> rl' = compact rl)"
proof -
  have "set (rl_slots (map range_normalize rl)) = (\<Union>r \<in> set rl. {min (fst r) (snd r) .. max (fst r) (snd r)})"
    by (force simp: in_rl_slots range_normalize_min_max)
  with assms show ?thesis
    using compact_canon compact_slots_normalize rl_canon_unique by blast
qed

theorem compact_is_canonical_form_witness:
  "rl_bounded [(7, 5), (0, 4), (9, 9)] \<and> rl_canon (compact [(7, 5), (0, 4), (9, 9)])"
  using compact_is_canonical_form [of "[(7, 5), (0, 4), (9, 9)]"] by (simp add: rl_bounded_def)

text \<open>
  (C28) The in-place loop of \<open>compact\<close> over two indices is the textbook merge: sort the
  ranges by their start and extend the last range as long as the next one touches it. This holds
  for all ranges, the wrapping addition included.
\<close>

theorem compact_loop_is_sort_and_merge:
  "compact rl = merge_sorted (sort_key fst (map range_normalize rl))"
  by (rule compact_eq_merge_sorted)


end
