(* ===== verification/UM_Cluster.thy ===== *)
theory UM_Cluster
  imports UM_Ranges
begin

section \<open>Cluster metadata (src/common/cluster.rs, src/common/config.rs)\<close>

text \<open>
  Migration metadata, tagged slot ranges, cluster names, migration tasks and the cluster and
  proxy views the broker answers with. Each type with an \<open>into_strings\<close> and a
  \<open>from_strings\<close> is shown to be a \<open>string_codec\<close>, so what the coordinator
  sends is what the proxy and the broker read. Epochs are 64-bit words.
\<close>

type_synonym epoch = "64 word"
type_synonym address = string

definition show_u64 :: "epoch \<Rightarrow> string" where
  "show_u64 e = show_nat (unat e)"

definition parse_epoch :: "string \<Rightarrow> epoch option" where
  "parse_epoch s = map_option of_nat (parse_u64 s)"

lemma parse_epoch_show [simp]: "parse_epoch (show_u64 e) = Some e"
proof -
  have "unat e < 2 ^ 64" using unsigned_less [of e] by simp
  then show ?thesis by (simp add: parse_epoch_def show_u64_def)
qed


subsection \<open>Migration metadata\<close>

record migration_meta =
  mm_epoch :: epoch
  src_proxy_address :: address
  src_node_address :: address
  dst_proxy_address :: address
  dst_node_address :: address

definition mm_into_strings :: "migration_meta \<Rightarrow> string list" where
  "mm_into_strings m =
     [show_u64 (mm_epoch m), src_proxy_address m, src_node_address m,
      dst_proxy_address m, dst_node_address m]"

fun mm_from_strings :: "string list \<Rightarrow> (migration_meta \<times> string list) option" where
  "mm_from_strings (epoch_str # it) =
     (case parse_epoch epoch_str of
        None \<Rightarrow> None
      | Some e \<Rightarrow>
          (case it of
             sp # sn # dp # dn # rest \<Rightarrow>
               Some (\<lparr>mm_epoch = e, src_proxy_address = sp, src_node_address = sn,
                      dst_proxy_address = dp, dst_node_address = dn\<rparr>, rest)
           | _ \<Rightarrow> None))"
| "mm_from_strings [] = None"


subsection \<open>Slot ranges\<close>

datatype slot_range_tag =
    Migrating migration_meta
  | Importing migration_meta
  | TagNone

fun get_migration_meta :: "slot_range_tag \<Rightarrow> migration_meta option" where
  "get_migration_meta (Migrating m) = Some m"
| "get_migration_meta (Importing m) = Some m"
| "get_migration_meta TagNone = None"

fun tag_is_stable :: "slot_range_tag \<Rightarrow> bool" where
  "tag_is_stable TagNone = True"
| "tag_is_stable _ = False"

fun tag_is_migrating :: "slot_range_tag \<Rightarrow> bool" where
  "tag_is_migrating (Migrating _) = True"
| "tag_is_migrating _ = False"

fun tag_is_importing :: "slot_range_tag \<Rightarrow> bool" where
  "tag_is_importing (Importing _) = True"
| "tag_is_importing _ = False"

record slot_range =
  sr_range_list :: range_list
  sr_tag :: slot_range_tag

definition MIGRATING_TAG :: string where
  "MIGRATING_TAG = ''MIGRATING''"

definition IMPORTING_TAG :: string where
  "IMPORTING_TAG = ''IMPORTING''"

definition meta_eq :: "slot_range \<Rightarrow> slot_range \<Rightarrow> bool" where
  "meta_eq self other =
     (if sr_range_list self \<noteq> sr_range_list other then False
      else (case (sr_tag self, sr_tag other) of
              (TagNone, TagNone) \<Rightarrow> True
            | (Migrating l, Migrating r) \<Rightarrow> l = r
            | (Importing l, Importing r) \<Rightarrow> l = r
            | (Migrating l, Importing r) \<Rightarrow> l = r
            | (Importing l, Migrating r) \<Rightarrow> l = r
            | _ \<Rightarrow> False))"

definition sr_into_strings :: "slot_range \<Rightarrow> string list" where
  "sr_into_strings sr =
     (case sr_tag sr of
        Migrating m \<Rightarrow> [MIGRATING_TAG] @ rl_to_strings (sr_range_list sr) @ mm_into_strings m
      | Importing m \<Rightarrow> [IMPORTING_TAG] @ rl_to_strings (sr_range_list sr) @ mm_into_strings m
      | TagNone \<Rightarrow> rl_to_strings (sr_range_list sr))"

definition sr_from_strings :: "string list \<Rightarrow> (slot_range \<times> string list) option" where
  "sr_from_strings it =
     (case it of
        [] \<Rightarrow> None
      | s # it' \<Rightarrow>
          if to_uppercase s = MIGRATING_TAG then
            (case rl_parse it' of
               None \<Rightarrow> None
             | Some (rl, it1) \<Rightarrow>
                 (case mm_from_strings it1 of
                    None \<Rightarrow> None
                  | Some (m, it2) \<Rightarrow> Some (\<lparr>sr_range_list = rl, sr_tag = Migrating m\<rparr>, it2)))
          else if to_uppercase s = IMPORTING_TAG then
            (case rl_parse it' of
               None \<Rightarrow> None
             | Some (rl, it1) \<Rightarrow>
                 (case mm_from_strings it1 of
                    None \<Rightarrow> None
                  | Some (m, it2) \<Rightarrow> Some (\<lparr>sr_range_list = rl, sr_tag = Importing m\<rparr>, it2)))
          else
            (case rl_parse it of
               None \<Rightarrow> None
             | Some (rl, it1) \<Rightarrow> Some (\<lparr>sr_range_list = rl, sr_tag = TagNone\<rparr>, it1)))"


subsection \<open>Cluster names\<close>

text \<open>An \<open>ArrayString<[u8; 31]>\<close> of letters, digits and the characters \<open>@ - _\<close>.\<close>

type_synonym cluster_name = string

definition CLUSTER_NAME_MAX_LENGTH :: usize where
  "CLUSTER_NAME_MAX_LENGTH = 31"

definition is_ascii_alphanumeric :: "char \<Rightarrow> bool" where
  "is_ascii_alphanumeric c =
     (let n = (of_char c :: nat)
      in 48 \<le> n \<and> n \<le> 57 \<or> 65 \<le> n \<and> n \<le> 90 \<or> 97 \<le> n \<and> n \<le> 122)"

definition cluster_name_try_from :: "string \<Rightarrow> cluster_name option" where
  "cluster_name_try_from s =
     (if list_all (\<lambda>c. is_ascii_alphanumeric c \<or> c = CHR ''@'' \<or> c = CHR ''-'' \<or> c = CHR ''_'') s
      then (if length s \<le> CLUSTER_NAME_MAX_LENGTH then Some s else None)
      else None)"

definition valid_cluster_name :: "cluster_name \<Rightarrow> bool" where
  "valid_cluster_name n \<longleftrightarrow> cluster_name_try_from n = Some n"

lemma cluster_name_try_from_Some:
  "cluster_name_try_from s = Some n \<longleftrightarrow> n = s \<and> valid_cluster_name s"
  by (auto simp: valid_cluster_name_def cluster_name_try_from_def split: if_splits)


subsection \<open>Migration tasks\<close>

record migration_task_meta =
  mt_cluster_name :: cluster_name
  mt_slot_range :: slot_range

definition mt_into_strings :: "migration_task_meta \<Rightarrow> string list" where
  "mt_into_strings t = mt_cluster_name t # sr_into_strings (mt_slot_range t)"

definition mt_from_strings :: "string list \<Rightarrow> (migration_task_meta \<times> string list) option" where
  "mt_from_strings it =
     (case it of
        [] \<Rightarrow> None
      | s # it' \<Rightarrow>
          (case cluster_name_try_from s of
             None \<Rightarrow> None
           | Some n \<Rightarrow>
               (case sr_from_strings it' of
                  None \<Rightarrow> None
                | Some (sr, rest) \<Rightarrow> Some (\<lparr>mt_cluster_name = n, mt_slot_range = sr\<rparr>, rest))))"


subsection \<open>Round trips\<close>

interpretation mm_codec: string_codec mm_into_strings mm_from_strings "\<lambda>_. True"
  by unfold_locales (simp add: mm_into_strings_def)

definition sr_inv :: "slot_range \<Rightarrow> bool" where
  "sr_inv sr \<longleftrightarrow> rl_inv (sr_range_list sr)"

lemma show_nat_neq_tags [simp]:
  "show_nat n \<noteq> MIGRATING_TAG" "show_nat n \<noteq> IMPORTING_TAG"
  using show_nat_digits [of "CHR ''M''" n] by (auto simp: MIGRATING_TAG_def IMPORTING_TAG_def)

lemma tags_uppercase [simp]:
  "to_uppercase MIGRATING_TAG = MIGRATING_TAG" "to_uppercase IMPORTING_TAG = IMPORTING_TAG"
  "IMPORTING_TAG \<noteq> MIGRATING_TAG" "MIGRATING_TAG \<noteq> IMPORTING_TAG"
  by (simp_all add: MIGRATING_TAG_def IMPORTING_TAG_def to_uppercase_def ascii_upper_def Let_def)

lemma sr_from_strings_stable:
  "sr_from_strings (rl_to_strings rl @ rest) =
     (case rl_parse (rl_to_strings rl @ rest) of
        None \<Rightarrow> None
      | Some (rl, it1) \<Rightarrow> Some (\<lparr>sr_range_list = rl, sr_tag = TagNone\<rparr>, it1))"
  by (simp add: sr_from_strings_def rl_to_strings_def)

interpretation sr_codec: string_codec sr_into_strings sr_from_strings sr_inv
proof
  show "sr_from_strings (sr_into_strings sr @ rest) = Some (sr, rest)" if "sr_inv sr" for sr rest
  proof (cases "sr_tag sr")
    case TagNone
    with that show ?thesis
      by (simp add: sr_inv_def sr_into_strings_def sr_from_strings_stable rl_codec.dec_enc)
  qed (use that in \<open>simp_all add: sr_inv_def sr_into_strings_def sr_from_strings_def
        rl_codec.dec_enc mm_codec.dec_enc\<close>)
qed

definition mt_inv :: "migration_task_meta \<Rightarrow> bool" where
  "mt_inv t \<longleftrightarrow> valid_cluster_name (mt_cluster_name t) \<and> sr_inv (mt_slot_range t)"

interpretation mt_codec: string_codec mt_into_strings mt_from_strings mt_inv
  by unfold_locales
    (simp add: mt_inv_def mt_into_strings_def mt_from_strings_def valid_cluster_name_def sr_codec.dec_enc)

lemma meta_eq_refl: "meta_eq a a"
  by (simp add: meta_eq_def split: slot_range_tag.splits)

lemma meta_eq_iff:
  "meta_eq a b \<longleftrightarrow>
     sr_range_list a = sr_range_list b \<and> get_migration_meta (sr_tag a) = get_migration_meta (sr_tag b)"
  by (auto simp: meta_eq_def split: slot_range_tag.splits)


subsection \<open>Replication, nodes, clusters and proxies\<close>

datatype role = Master | Replica

record repl_peer =
  rp_node_address :: address
  rp_proxy_address :: address

record repl_meta =
  rm_role :: role
  rm_peers :: "repl_peer list"

definition repl_meta_new_free :: repl_meta where
  "repl_meta_new_free = \<lparr>rm_role = Master, rm_peers = []\<rparr>"

definition remove_peer :: "repl_meta \<Rightarrow> repl_peer \<Rightarrow> repl_peer option \<times> repl_meta" where
  "remove_peer m p =
     (find (\<lambda>q. q = p) (rm_peers m), m\<lparr>rm_peers := filter (\<lambda>q. q \<noteq> p) (rm_peers m)\<rparr>)"

record node =
  nd_address :: address
  nd_proxy_address :: address
  nd_slots :: "slot_range list"
  nd_repl :: repl_meta

definition nd_role :: "node \<Rightarrow> role" where
  "nd_role n = rm_role (nd_repl n)"

datatype compression_strategy = Disabled | SetGetOnly | AllowAll

record migration_config =
  max_migration_time :: "64 word"
  max_blocking_time :: "64 word"
  scan_interval :: "64 word"
  scan_count :: "64 word"

record cluster_config =
  cc_compression_strategy :: compression_strategy
  cc_migration_config :: migration_config

record cluster =
  cl_name :: cluster_name
  cl_epoch :: epoch
  cl_nodes :: "node list"
  cl_config :: cluster_config

definition cl_remove_node :: "cluster \<Rightarrow> address \<Rightarrow> node option \<times> cluster" where
  "cl_remove_node c a =
     (case find (\<lambda>n. nd_address n = a) (cl_nodes c) of
        None \<Rightarrow> (None, c)
      | Some n \<Rightarrow> (Some n, c\<lparr>cl_nodes := filter (\<lambda>n. nd_address n \<noteq> a) (cl_nodes c)\<rparr>))"

definition cl_get_node :: "cluster \<Rightarrow> address \<Rightarrow> node option" where
  "cl_get_node c a = find (\<lambda>n. nd_address n = a) (cl_nodes c)"

record peer_proxy =
  pp_proxy_address :: address
  pp_slots :: "slot_range list"

record proxy =
  px_cluster_name :: "cluster_name option"
  px_address :: address
  px_epoch :: epoch
  px_nodes :: "node list"
  px_peers :: "peer_proxy list"
  px_cluster_config :: "cluster_config option"

definition px_get_nodes :: "proxy \<Rightarrow> node list" where
  "px_get_nodes p = (if px_cluster_name p = None then [] else px_nodes p)"

definition px_get_free_nodes :: "proxy \<Rightarrow> address list" where
  "px_get_free_nodes p = (if px_cluster_name p \<noteq> None then [] else map nd_address (px_nodes p))"


subsection \<open>Cluster configuration\<close>

datatype config_error = ReadonlyField | FieldNotFound | InvalidValue | Forbidden

definition config_error_to_string :: "config_error \<Rightarrow> string" where
  "config_error_to_string e =
     (case e of ReadonlyField \<Rightarrow> ''READONLY_FIELD'' | FieldNotFound \<Rightarrow> ''FIELD_NOT_FOUND''
      | InvalidValue \<Rightarrow> ''INVALID_VALUE'' | Forbidden \<Rightarrow> ''FORBIDDEN'')"

definition compression_from_str :: "string \<Rightarrow> compression_strategy option" where
  "compression_from_str s =
     (let l = to_lowercase s
      in if l = ''disabled'' then Some Disabled
         else if l = ''set_get_only'' then Some SetGetOnly
         else if l = ''allow_all'' then Some AllowAll
         else None)"

definition compression_to_str :: "compression_strategy \<Rightarrow> string" where
  "compression_to_str c =
     (case c of Disabled \<Rightarrow> ''disabled'' | SetGetOnly \<Rightarrow> ''set_get_only'' | AllowAll \<Rightarrow> ''allow_all'')"

definition migration_config_default :: migration_config where
  "migration_config_default =
     \<lparr>max_migration_time = 3 * 60 * 60, max_blocking_time = 10000, scan_interval = 500, scan_count = 16\<rparr>"

definition cluster_config_default :: cluster_config where
  "cluster_config_default =
     \<lparr>cc_compression_strategy = Disabled, cc_migration_config = migration_config_default\<rparr>"

definition migration_config_set_field ::
  "migration_config \<Rightarrow> string \<Rightarrow> string \<Rightarrow> config_error + migration_config" where
  "migration_config_set_field c field val =
     (let f = to_lowercase field; v = parse_epoch val
      in if f = ''max_migration_time'' then
           (case v of None \<Rightarrow> Inl InvalidValue | Some v \<Rightarrow> Inr (c\<lparr>max_migration_time := v\<rparr>))
         else if f = ''max_blocking_time'' then
           (case v of None \<Rightarrow> Inl InvalidValue | Some v \<Rightarrow> Inr (c\<lparr>max_blocking_time := v\<rparr>))
         else if f = ''scan_interval'' then
           (case v of None \<Rightarrow> Inl InvalidValue | Some v \<Rightarrow> Inr (c\<lparr>scan_interval := v\<rparr>))
         else if f = ''scan_count'' then
           (case v of
              None \<Rightarrow> Inl InvalidValue
            | Some v \<Rightarrow> if v = 0 then Inl InvalidValue else Inr (c\<lparr>scan_count := v\<rparr>))
         else Inl FieldNotFound)"

text \<open>
  \<open>field.splitn(2, '_').nth(1)\<close> of a field that starts with \<open>migration_\<close> is what
  follows that prefix.
\<close>

definition cluster_config_set_field ::
  "cluster_config \<Rightarrow> string \<Rightarrow> string \<Rightarrow> config_error + cluster_config" where
  "cluster_config_set_field c field val =
     (let f = to_lowercase field
      in if f = ''compression_strategy'' then
           (case compression_from_str val of
              None \<Rightarrow> Inl InvalidValue
            | Some s \<Rightarrow> Inr (c\<lparr>cc_compression_strategy := s\<rparr>))
         else if take 10 f = ''migration_'' then
           (case migration_config_set_field (cc_migration_config c) (drop 10 f) val of
              Inl e \<Rightarrow> Inl e
            | Inr m \<Rightarrow> Inr (c\<lparr>cc_migration_config := m\<rparr>))
         else Inl FieldNotFound)"

definition cluster_config_to_str_map :: "cluster_config \<Rightarrow> (string, string) hashmap" where
  "cluster_config_to_str_map c =
     (let m = cc_migration_config c
      in [(''compression_strategy'', compression_to_str (cc_compression_strategy c)),
          (''migration_max_migration_time'', show_u64 (max_migration_time m)),
          (''migration_max_blocking_time'', show_u64 (max_blocking_time m)),
          (''migration_scan_interval'', show_u64 (scan_interval m)),
          (''migration_scan_count'', show_u64 (scan_count m))])"

text \<open>Setting the fields of a map one after the other, in its iteration order.\<close>

fun cluster_config_set_fields ::
  "cluster_config \<Rightarrow> (string \<times> string) list \<Rightarrow> (string \<times> string \<times> config_error) + cluster_config" where
  "cluster_config_set_fields c [] = Inr c"
| "cluster_config_set_fields c ((k, v) # kvs) =
     (case cluster_config_set_field c k v of
        Inl e \<Rightarrow> Inl (k, v, e)
      | Inr c' \<Rightarrow> cluster_config_set_fields c' kvs)"


lemma compression_from_to_str [simp]: "compression_from_str (compression_to_str c) = Some c"
  by (cases c) (simp_all add: compression_from_str_def compression_to_str_def to_lowercase_def ascii_lower_def Let_def)

lemma set_field_simps:
  "cluster_config_set_field d ''compression_strategy'' (compression_to_str x) = Inr (d\<lparr>cc_compression_strategy := x\<rparr>)"
  "cluster_config_set_field d ''migration_max_migration_time'' (show_u64 w) =
     Inr (d\<lparr>cc_migration_config := (cc_migration_config d)\<lparr>max_migration_time := w\<rparr>\<rparr>)"
  "cluster_config_set_field d ''migration_max_blocking_time'' (show_u64 w) =
     Inr (d\<lparr>cc_migration_config := (cc_migration_config d)\<lparr>max_blocking_time := w\<rparr>\<rparr>)"
  "cluster_config_set_field d ''migration_scan_interval'' (show_u64 w) =
     Inr (d\<lparr>cc_migration_config := (cc_migration_config d)\<lparr>scan_interval := w\<rparr>\<rparr>)"
  "w \<noteq> 0 \<Longrightarrow> cluster_config_set_field d ''migration_scan_count'' (show_u64 w) =
     Inr (d\<lparr>cc_migration_config := (cc_migration_config d)\<lparr>scan_count := w\<rparr>\<rparr>)"
  by (simp_all add: cluster_config_set_field_def migration_config_set_field_def Let_def to_lowercase_def ascii_lower_def)

text \<open>Two configurations agree on a set of fields.\<close>

definition config_agree :: "string set \<Rightarrow> cluster_config \<Rightarrow> cluster_config \<Rightarrow> bool" where
  "config_agree K d c \<longleftrightarrow>
     (''compression_strategy'' \<in> K \<longrightarrow> cc_compression_strategy d = cc_compression_strategy c) \<and>
     (''migration_max_migration_time'' \<in> K \<longrightarrow>
        max_migration_time (cc_migration_config d) = max_migration_time (cc_migration_config c)) \<and>
     (''migration_max_blocking_time'' \<in> K \<longrightarrow>
        max_blocking_time (cc_migration_config d) = max_blocking_time (cc_migration_config c)) \<and>
     (''migration_scan_interval'' \<in> K \<longrightarrow>
        scan_interval (cc_migration_config d) = scan_interval (cc_migration_config c)) \<and>
     (''migration_scan_count'' \<in> K \<longrightarrow>
        scan_count (cc_migration_config d) = scan_count (cc_migration_config c))"

lemma config_agree_all: "config_agree (set (hm_keys (cluster_config_to_str_map c))) d c \<Longrightarrow> d = c"
  by (cases d; cases c; cases "cc_migration_config d"; cases "cc_migration_config c")
    (simp add: config_agree_def cluster_config_to_str_map_def hm_keys_def Let_def)

lemma set_field_agree:
  assumes "(k, v) \<in> set (cluster_config_to_str_map c)" "scan_count (cc_migration_config c) \<noteq> 0"
    "config_agree K d c"
  shows "\<exists>d'. cluster_config_set_field d k v = Inr d' \<and> config_agree (insert k K) d' c"
proof -
  note kv = assms(1) [unfolded cluster_config_to_str_map_def Let_def set_simps insert_iff empty_iff prod.inject]
  from kv show ?thesis
    by (elim disjE conjE FalseE; hypsubst)
      (use assms(2,3) in \<open>simp_all add: set_field_simps config_agree_def\<close>)
qed

lemma set_fields_agree:
  assumes "set kvs \<subseteq> set (cluster_config_to_str_map c)" "scan_count (cc_migration_config c) \<noteq> 0" "config_agree K d c"
  shows "\<exists>d'. cluster_config_set_fields d kvs = Inr d' \<and> config_agree (fst ` set kvs \<union> K) d' c"
  using assms
proof (induction kvs arbitrary: d K)
  case (Cons kv kvs)
  obtain k v where kv: "kv = (k, v)" by fastforce
  with Cons.prems obtain d' where d': "cluster_config_set_field d k v = Inr d'" "config_agree (insert k K) d' c"
    using set_field_agree [of k v c K d] by auto
  from Cons.IH [OF _ Cons.prems(2) d'(2)] Cons.prems(1) show ?case by (auto simp: kv d'(1))
qed simp


subsection \<open>Properties\<close>

text \<open>
  (C29) A cluster configuration survives its text form: setting the fields of
  \<open>to_str_map\<close> one by one on any configuration, in any order, gives the configuration
  back. \<open>scan_count\<close> must not be 0, which \<open>set_field\<close> rejects.
\<close>

theorem config_round_trip:
  assumes "mset kvs = mset (cluster_config_to_str_map c)" "scan_count (cc_migration_config c) \<noteq> 0"
  shows "cluster_config_set_fields d kvs = Inr c"
proof -
  have s: "set kvs = set (cluster_config_to_str_map c)" using assms(1) by (rule mset_eq_setD)
  then obtain d' where d': "cluster_config_set_fields d kvs = Inr d'" "config_agree (fst ` set kvs) d' c"
    using set_fields_agree [of kvs c "{}" d] assms(2) by (auto simp: config_agree_def)
  then have "d' = c" by (intro config_agree_all) (simp add: s hm_keys_def)
  with d' show ?thesis by simp
qed

theorem config_round_trip_witness:
  "scan_count (cc_migration_config cluster_config_default) \<noteq> 0 \<and>
   cluster_config_set_fields
     \<lparr>cc_compression_strategy = AllowAll, cc_migration_config = migration_config_default\<rparr>
     (rev (cluster_config_to_str_map cluster_config_default)) = Inr cluster_config_default"
proof -
  have "scan_count (cc_migration_config cluster_config_default) \<noteq> 0"
    by (simp add: cluster_config_default_def migration_config_default_def)
  then show ?thesis by (simp add: config_round_trip)
qed

end
