(* ===== verification/UM_Store.thy ===== *)
theory UM_Store
  imports UM_Cluster
begin

section \<open>The broker's metadata store (src/broker/store.rs)\<close>

text \<open>
  The records of the store, the queries on one cluster, \<open>to_slot_range\<close> and
  \<open>limit_migration\<close>. Arrays of length two and four are pairs and pairs of pairs.
  A Rust panic (\<open>expect\<close> on None) is the value None of a query and
  \<open>Panic\<close> of a fallible operation.
\<close>


subsection \<open>Constants, errors and results\<close>

definition NODES_PER_PROXY :: usize where "NODES_PER_PROXY = 2"
definition CHUNK_PARTS :: usize where "CHUNK_PARTS = 2"
definition CHUNK_HALF_NODE_NUM :: usize where "CHUNK_HALF_NODE_NUM = 2"
definition CHUNK_NODE_NUM :: usize where "CHUNK_NODE_NUM = 4"

datatype meta_sync_error = SyncIo | SyncReplication | SyncJson | SyncLock

definition sync_error_to_code :: "meta_sync_error \<Rightarrow> string" where
  "sync_error_to_code e =
     (case e of
        SyncIo \<Rightarrow> ''PERSISTENCE_IO_ERROR''
      | SyncReplication \<Rightarrow> ''REPLICATION_ERROR''
      | SyncJson \<Rightarrow> ''PERSISTENCE_JSON_ERROR''
      | SyncLock \<Rightarrow> ''PERSISTENCE_LOCK_ERROR'')"

datatype meta_store_error =
    InUse | NotInUse | NoAvailableResource | ResourceNotBalance | AlreadyExisted
  | ClusterNotFound | FreeNodeNotFound | FreeNodeFound | ProxyNotFound | InvalidNodeNum
  | NodeNumAlreadyEnough | InvalidClusterName | InvalidMigrationTask | InvalidProxyAddress
  | MigrationTaskNotFound | MigrationRunning | InvalidConfig string string string
  | SlotsAlreadyEven | SyncError meta_sync_error | InvalidMetaVersion | SmallEpoch
  | MissingIndex | ProxyResourceOutOfOrder | OrderedProxyEnabled | OneClusterAlreadyExisted
  | ProxyNotSync | NodeNumberChanging | External | Retry | EmptyExternalVersion | ExternalTimeout

fun error_to_code :: "meta_store_error \<Rightarrow> string" where
  "error_to_code InUse = ''IN_USE''"
| "error_to_code NotInUse = ''NOT_IN_USE''"
| "error_to_code NoAvailableResource = ''NO_AVAILABLE_RESOURCE''"
| "error_to_code ResourceNotBalance = ''RESOURCE_NOT_BALANCE''"
| "error_to_code AlreadyExisted = ''ALREADY_EXISTED''"
| "error_to_code ClusterNotFound = ''CLUSTER_NOT_FOUND''"
| "error_to_code FreeNodeNotFound = ''FREE_NODE_NOT_FOUND''"
| "error_to_code FreeNodeFound = ''FREE_NODE_FOUND''"
| "error_to_code ProxyNotFound = ''PROXY_NOT_FOUND''"
| "error_to_code InvalidNodeNum = ''INVALID_NODE_NUMBER''"
| "error_to_code NodeNumAlreadyEnough = ''NODE_NUM_ALREADY_ENOUGH''"
| "error_to_code InvalidClusterName = ''INVALID_CLUSTER_NAME''"
| "error_to_code InvalidMigrationTask = ''INVALID_MIGRATION_TASK''"
| "error_to_code InvalidProxyAddress = ''INVALID_PROXY_ADDRESS''"
| "error_to_code MigrationTaskNotFound = ''MIGRATION_TASK_NOT_FOUND''"
| "error_to_code MigrationRunning = ''MIGRATION_RUNNING''"
| "error_to_code (InvalidConfig _ _ _) = ''INVALID_CONFIG''"
| "error_to_code SlotsAlreadyEven = ''SLOTS_ALREADY_EVEN''"
| "error_to_code (SyncError e) = sync_error_to_code e"
| "error_to_code InvalidMetaVersion = ''INVALID_META_VERSION''"
| "error_to_code SmallEpoch = ''EPOCH_SMALLER_THAN_CURRENT''"
| "error_to_code MissingIndex = ''MISSING_SERVER_PROXY_INDEX''"
| "error_to_code ProxyResourceOutOfOrder = ''PROXY_RESOURCE_OUT_OF_ORDER''"
| "error_to_code OrderedProxyEnabled = ''ORDERED_PROXY_ENABLED''"
| "error_to_code OneClusterAlreadyExisted = ''ONE_CLUSTER_ALREADY_EXISTED''"
| "error_to_code ProxyNotSync = ''PROXY_NOT_SYNC''"
| "error_to_code NodeNumberChanging = ''NODE_NUMBER_CHANGING''"
| "error_to_code External = ''EXTERNAL''"
| "error_to_code Retry = ''RETRY''"
| "error_to_code EmptyExternalVersion = ''EMPTY_EXTERNAL_VERSION''"
| "error_to_code ExternalTimeout = ''EXTERNAL_TIMEOUT''"

datatype 'a outcome = Ok 'a | Err meta_store_error | Panic


subsection \<open>Data\<close>

type_synonym 'a arr4 = "'a arr2 arr2"

definition arr4_get :: "'a arr4 \<Rightarrow> usize \<Rightarrow> 'a option" where
  "arr4_get p i = (if i < 2 then arr2_get (fst p) i else arr2_get (snd p) (i - 2))"

record proxy_resource =
  pr_proxy_address :: address
  pr_node_addresses :: "address arr2"
  pr_host :: string
  pr_index :: usize
  pr_cluster :: "cluster_name option"

record host_proxy =
  hp_host :: string
  hp_proxy_address :: address

datatype chunk_role_position = Normal | FirstChunkMaster | SecondChunkMaster

record migration_meta_store =
  ms_epoch :: epoch
  src_chunk_index :: usize
  src_chunk_part :: usize
  dst_chunk_index :: usize
  dst_chunk_part :: usize

record migration_slot_range_store =
  mr_range_list :: range_list
  mr_is_migrating :: bool
  mr_meta :: migration_meta_store

record chunk_store =
  role_position :: chunk_role_position
  stable_slots :: "slot_range option arr2"
  migrating_slots :: "migration_slot_range_store list arr2"
  proxy_addresses :: "address arr2"
  hosts :: "string arr2"
  node_addresses :: "address arr4"

record cluster_info =
  ci_name :: cluster_name
  ci_node_number :: usize
  ci_node_number_with_slots :: usize
  ci_is_migrating :: bool

record cluster_store =
  cs_epoch :: epoch
  cs_name :: cluster_name
  cs_chunks :: "chunk_store list"
  cs_config :: cluster_config

record migration_slots_rec =
  mg_ranges :: range_list
  mg_meta :: migration_meta_store

datatype scale_op = NoOp | ScaleOut | ScaleDown

text \<open>The report times of \<open>failures\<close> are seconds since the epoch (\<open>i64\<close>).\<close>

record meta_store =
  version :: string
  global_epoch :: epoch
  clusters :: "(cluster_name, cluster_store) hashmap"
  all_proxies :: "(address, proxy_resource) hashmap"
  failed_proxies :: "address list"
  failures :: "(address, (string, int) hashmap) hashmap"
  enable_ordered_proxy :: bool

definition UNDERMOON_MEM_BROKER_META_VERSION :: string where
  "UNDERMOON_MEM_BROKER_META_VERSION = ''mem-broker-0.2''"


subsection \<open>Slot ranges of migrations\<close>

fun chunk_part_to_proxy_index :: "usize \<Rightarrow> chunk_role_position \<Rightarrow> usize" where
  "chunk_part_to_proxy_index part pos =
     (if part = 0 \<and> pos = SecondChunkMaster then 1
      else if part = 1 \<and> pos = FirstChunkMaster then 0
      else part)"

fun chunk_part_to_node_index :: "usize \<Rightarrow> chunk_role_position \<Rightarrow> usize" where
  "chunk_part_to_node_index part pos =
     (if part = 0 \<and> pos = SecondChunkMaster then 3
      else if part = 1 \<and> pos = FirstChunkMaster then 1
      else 2 * part)"

definition list_get :: "'a list \<Rightarrow> usize \<Rightarrow> 'a option" where
  "list_get xs i = (if i < length xs then Some (xs ! i) else None)"

definition endpoint :: "chunk_store list \<Rightarrow> usize \<Rightarrow> usize \<Rightarrow> (address \<times> address) option" where
  "endpoint chunks index part =
     (case list_get chunks index of
        None \<Rightarrow> None
      | Some chunk \<Rightarrow>
          (case arr2_get (proxy_addresses chunk) (chunk_part_to_proxy_index part (role_position chunk)) of
             None \<Rightarrow> None
           | Some proxy_address \<Rightarrow>
               (case arr4_get (node_addresses chunk) (chunk_part_to_node_index part (role_position chunk)) of
                  None \<Rightarrow> None
                | Some node_address \<Rightarrow> Some (proxy_address, node_address))))"

definition to_slot_range :: "migration_slot_range_store \<Rightarrow> chunk_store list \<Rightarrow> slot_range option" where
  "to_slot_range e chunks =
     (let m = mr_meta e in
      case endpoint chunks (src_chunk_index m) (src_chunk_part m) of
        None \<Rightarrow> None
      | Some (sp, sn) \<Rightarrow>
          (case endpoint chunks (dst_chunk_index m) (dst_chunk_part m) of
             None \<Rightarrow> None
           | Some (dp, dn) \<Rightarrow>
               (let meta = \<lparr>mm_epoch = ms_epoch m, src_proxy_address = sp, src_node_address = sn,
                            dst_proxy_address = dp, dst_node_address = dn\<rparr>
                in Some \<lparr>sr_range_list = mr_range_list e,
                         sr_tag = (if mr_is_migrating e then Migrating meta else Importing meta)\<rparr>)))"


subsection \<open>Queries on a cluster\<close>

definition chunk_is_migrating :: "chunk_store \<Rightarrow> bool" where
  "chunk_is_migrating chunk = list_ex (\<lambda>slots. slots \<noteq> []) (arr2_list (migrating_slots chunk))"

definition cs_is_migrating :: "cluster_store \<Rightarrow> bool" where
  "cs_is_migrating c = list_ex chunk_is_migrating (cs_chunks c)"

definition cs_get_proxy_addresses :: "cluster_store \<Rightarrow> address list" where
  "cs_get_proxy_addresses c = concat (map (\<lambda>chunk. arr2_list (proxy_addresses chunk)) (cs_chunks c))"

definition cs_get_node_number :: "cluster_store \<Rightarrow> usize" where
  "cs_get_node_number c = length (cs_chunks c) * CHUNK_NODE_NUM"

definition cs_get_node_number_with_slots :: "cluster_store \<Rightarrow> usize" where
  "cs_get_node_number_with_slots c =
     sum_list (map (\<lambda>chunk. length (filter (\<lambda>s. s \<noteq> None) (arr2_list (stable_slots chunk)))) (cs_chunks c))
     * CHUNK_HALF_NODE_NUM"

definition cs_get_info :: "cluster_store \<Rightarrow> cluster_info" where
  "cs_get_info c =
     \<lparr>ci_name = cs_name c, ci_node_number = cs_get_node_number c,
      ci_node_number_with_slots = cs_get_node_number_with_slots c, ci_is_migrating = cs_is_migrating c\<rparr>"

definition cs_set_epoch :: "epoch \<Rightarrow> cluster_store \<Rightarrow> cluster_store" where
  "cs_set_epoch e c = c\<lparr>cs_epoch := e\<rparr>"


subsection \<open>Writing to one part of one chunk\<close>

text \<open>
  \<open>chunks.get_mut(i).and_then(|chunk| chunk.f.get_mut(j)).expect(..)\<close>, for the migrating
  and for the stable slots.
\<close>

definition push_migrating ::
  "usize \<Rightarrow> usize \<Rightarrow> migration_slot_range_store \<Rightarrow> chunk_store list \<Rightarrow> chunk_store list option" where
  "push_migrating i j e chunks =
     (if i < length chunks \<and> j < 2
      then Some (chunks[i := (chunks ! i)\<lparr>migrating_slots :=
             arr2_modify j (\<lambda>es. es @ [e]) (migrating_slots (chunks ! i))\<rparr>])
      else None)"

fun stable_merge_slots :: "range_list \<Rightarrow> slot_range option \<Rightarrow> slot_range option" where
  "stable_merge_slots rl None =
     Some \<lparr>sr_range_list = merge_another (rl_new []) rl, sr_tag = TagNone\<rparr>"
| "stable_merge_slots rl (Some sr) =
     Some (sr\<lparr>sr_range_list := merge_another (sr_range_list sr) rl\<rparr>)"

definition merge_stable ::
  "usize \<Rightarrow> usize \<Rightarrow> range_list \<Rightarrow> chunk_store list \<Rightarrow> chunk_store list option" where
  "merge_stable i j rl chunks =
     (if i < length chunks \<and> j < 2
      then Some (chunks[i := (chunks ! i)\<lparr>stable_slots :=
             arr2_modify j (stable_merge_slots rl) (stable_slots (chunks ! i))\<rparr>])
      else None)"


subsection \<open>limit\_migration\<close>

definition MAX_MIGRATING_OUT :: usize where "MAX_MIGRATING_OUT = 1"

record limit_state =
  lm_chunks :: "chunk_store list"
  lm_migration_num :: nat
  lm_migrating_out :: "(usize \<times> usize, usize) hashmap"

definition limit_step ::
  "64 word \<Rightarrow> limit_state \<Rightarrow> migration_slot_range_store \<Rightarrow> limit_state option" where
  "limit_step migration_limit st e =
     (if \<not> mr_is_migrating e then Some st
      else
        (let m = mr_meta e;
             src = (src_chunk_index m, src_chunk_part m);
             out = hm_or_insert src 0 (lm_migrating_out st);
             cnt = the (hm_get out src);
             st' = st\<lparr>lm_migrating_out := out\<rparr>
         in if lm_migration_num st \<ge> unat migration_limit \<or> cnt \<ge> MAX_MIGRATING_OUT then
              map_option (\<lambda>chunks. st'\<lparr>lm_chunks := chunks\<rparr>)
                (merge_stable (src_chunk_index m) (src_chunk_part m) (mr_range_list e) (lm_chunks st))
            else
              (case push_migrating (src_chunk_index m) (src_chunk_part m) e (lm_chunks st) of
                 None \<Rightarrow> None
               | Some chunks1 \<Rightarrow>
                   map_option
                     (\<lambda>chunks2. \<lparr>lm_chunks = chunks2,
                        lm_migration_num = lm_migration_num st + 1,
                        lm_migrating_out = hm_modify src (\<lambda>c. c + 1) out\<rparr>)
                     (push_migrating (dst_chunk_index m) (dst_chunk_part m)
                        (e\<lparr>mr_is_migrating := False\<rparr>) chunks1))))"

fun limit_loop ::
  "64 word \<Rightarrow> limit_state \<Rightarrow> migration_slot_range_store list \<Rightarrow> limit_state option" where
  "limit_loop migration_limit st [] = Some st"
| "limit_loop migration_limit st (e # es) =
     (case limit_step migration_limit st e of
        None \<Rightarrow> None
      | Some st' \<Rightarrow> limit_loop migration_limit st' es)"

definition chunk_entries :: "chunk_store \<Rightarrow> migration_slot_range_store list" where
  "chunk_entries chunk = concat (arr2_list (migrating_slots chunk))"

definition all_entries :: "chunk_store list \<Rightarrow> migration_slot_range_store list" where
  "all_entries chunks = concat (map chunk_entries chunks)"

definition limit_migration :: "64 word \<Rightarrow> cluster_store \<Rightarrow> cluster_store option" where
  "limit_migration migration_limit c =
     (if migration_limit = 0 then Some c
      else
        map_option (\<lambda>st. c\<lparr>cs_chunks := lm_chunks st\<rparr>)
          (limit_loop migration_limit
             \<lparr>lm_chunks = map (\<lambda>chunk. chunk\<lparr>migrating_slots := ([], [])\<rparr>) (cs_chunks c),
              lm_migration_num = 0, lm_migrating_out = []\<rparr>
             (all_entries (cs_chunks c))))"

end
