(* ===== verification/UM_Ownership.thy ===== *)
theory UM_Ownership
  imports UM_Store
begin

section \<open>Who owns which slot\<close>

text \<open>
  A slot of a cluster belongs to the stable slots of one part of one chunk, or to one
  migrating entry of a part. The multiset \<open>owned\<close> counts the owners of every slot, so a
  cluster in which \<open>owned\<close> is the multiset of \<open>0 ..< SLOT_NUM\<close> gives every slot
  exactly one owner. Importing entries mirror the migrating ones. The lemmas say what the two
  elementary writes of the broker (\<open>push_migrating\<close>, \<open>merge_stable\<close>) do to both,
  and that \<open>limit_migration\<close> keeps them.
\<close>


subsection \<open>Accounting\<close>

fun opt_slots :: "slot_range option \<Rightarrow> nat list" where
  "opt_slots None = []"
| "opt_slots (Some sr) = rl_slots (sr_range_list sr)"

definition entry_slots :: "migration_slot_range_store \<Rightarrow> nat multiset" where
  "entry_slots e = (if mr_is_migrating e then mset (rl_slots (mr_range_list e)) else {#})"

definition entries_slots :: "migration_slot_range_store list \<Rightarrow> nat multiset" where
  "entries_slots es = sum_list (map entry_slots es)"

definition stable_mset :: "slot_range option arr2 \<Rightarrow> nat multiset" where
  "stable_mset p = mset (opt_slots (fst p)) + mset (opt_slots (snd p))"

definition chunk_owned :: "chunk_store \<Rightarrow> nat multiset" where
  "chunk_owned chunk = stable_mset (stable_slots chunk) + entries_slots (chunk_entries chunk)"

definition owned :: "chunk_store list \<Rightarrow> nat multiset" where
  "owned chunks = sum_list (map chunk_owned chunks)"

type_synonym migration_key = "range_list \<times> migration_meta_store"

definition mr_key :: "migration_slot_range_store \<Rightarrow> migration_key" where
  "mr_key e = (mr_range_list e, mr_meta e)"

definition keys_of :: "bool \<Rightarrow> migration_slot_range_store list \<Rightarrow> migration_key multiset" where
  "keys_of b es = mset (map mr_key (filter (\<lambda>e. mr_is_migrating e = b) es))"

definition chunks_keys :: "bool \<Rightarrow> chunk_store list \<Rightarrow> migration_key multiset" where
  "chunks_keys b chunks = sum_list (map (\<lambda>chunk. keys_of b (chunk_entries chunk)) chunks)"

definition mirrored :: "chunk_store list \<Rightarrow> bool" where
  "mirrored chunks \<longleftrightarrow> chunks_keys True chunks = chunks_keys False chunks"

definition part :: "usize \<Rightarrow> 'a arr2 \<Rightarrow> 'a" where
  "part j p = (if j = 0 then fst p else snd p)"

definition meta_ok :: "usize \<Rightarrow> migration_meta_store \<Rightarrow> bool" where
  "meta_ok n m \<longleftrightarrow> src_chunk_index m < n \<and> src_chunk_part m < 2 \<and> dst_chunk_index m < n \<and> dst_chunk_part m < 2"

definition entry_ok :: "usize \<Rightarrow> usize \<Rightarrow> usize \<Rightarrow> migration_slot_range_store \<Rightarrow> bool" where
  "entry_ok n i j e \<longleftrightarrow>
     meta_ok n (mr_meta e) \<and> rl_inv (mr_range_list e) \<and> mr_range_list e \<noteq> [] \<and>
     (i, j) = (if mr_is_migrating e
               then (src_chunk_index (mr_meta e), src_chunk_part (mr_meta e))
               else (dst_chunk_index (mr_meta e), dst_chunk_part (mr_meta e)))"

fun stable_ok :: "slot_range option \<Rightarrow> bool" where
  "stable_ok None = True"
| "stable_ok (Some sr) = (rl_inv (sr_range_list sr) \<and> sr_tag sr = TagNone)"

definition chunk_ok :: "usize \<Rightarrow> usize \<Rightarrow> chunk_store \<Rightarrow> bool" where
  "chunk_ok n i chunk \<longleftrightarrow>
     (\<forall>j < 2. stable_ok (part j (stable_slots chunk)) \<and>
        (\<forall>e \<in> set (part j (migrating_slots chunk)). entry_ok n i j e))"

definition chunks_ok :: "chunk_store list \<Rightarrow> bool" where
  "chunks_ok chunks \<longleftrightarrow> (\<forall>i < length chunks. chunk_ok (length chunks) i (chunks ! i))"

definition uniq :: "nat multiset \<Rightarrow> bool" where
  "uniq M \<longleftrightarrow> (\<forall>x. count M x \<le> 1)"

text \<open>The invariant of a cluster's slots, for a set of slots \<open>T\<close> (normally all of them).\<close>

definition slots_inv :: "nat multiset \<Rightarrow> chunk_store list \<Rightarrow> bool" where
  "slots_inv T chunks \<longleftrightarrow> chunks_ok chunks \<and> mirrored chunks \<and> owned chunks = T"

definition all_slots :: "nat multiset" where
  "all_slots = mset [0 ..< SLOT_NUM]"


subsection \<open>Multisets without repetition\<close>

lemma uniq_mset: "uniq (mset xs) \<longleftrightarrow> distinct xs"
proof
  assume u: "uniq (mset xs)"
  have "count (mset xs) a = (if a \<in> set xs then 1 else 0)" for a
  proof (cases "a \<in> set xs")
    case True
    then have "count (mset xs) a \<noteq> 0" by simp
    with u True show ?thesis by (simp add: uniq_def le_Suc_eq)
  next
    case False
    then show ?thesis by simp
  qed
  then show "distinct xs" by (simp add: distinct_count_atmost_1)
next
  assume "distinct xs"
  then show "uniq (mset xs)" by (simp add: uniq_def distinct_count_atmost_1)
qed

lemma uniq_all_slots [simp]: "uniq all_slots"
  unfolding all_slots_def uniq_mset by simp

lemma uniq_addD1: "uniq (A + B) \<Longrightarrow> uniq A"
  unfolding uniq_def by (metis add_leD1 count_union)

lemma uniq_addD2: "uniq (A + B) \<Longrightarrow> uniq B"
  using uniq_addD1 [of B A] by (simp add: add.commute)

lemma uniq_disjoint: "uniq (A + B) \<Longrightarrow> x \<in># A \<Longrightarrow> x \<notin># B"
proof
  assume u: "uniq (A + B)" and "x \<in># A" "x \<in># B"
  then have "0 < count A x" "0 < count B x" by simp_all
  moreover from u have "count A x + count B x \<le> 1" unfolding uniq_def by (metis count_union)
  ultimately show False by linarith
qed

lemmas uniqD = uniq_addD1 uniq_addD2 uniq_disjoint


subsection \<open>Entries\<close>

lemma entries_slots_simps [simp]:
  "entries_slots [] = {#}" "entries_slots (e # es) = entry_slots e + entries_slots es"
  "entries_slots (xs @ ys) = entries_slots xs + entries_slots ys"
  by (simp_all add: entries_slots_def)

lemma keys_of_simps [simp]:
  "keys_of b [] = {#}"
  "keys_of b (e # es) = (if mr_is_migrating e = b then {#mr_key e#} else {#}) + keys_of b es"
  "keys_of b (xs @ ys) = keys_of b xs + keys_of b ys"
  by (simp_all add: keys_of_def)

lemma chunk_entries_eq: "chunk_entries chunk = part 0 (migrating_slots chunk) @ part 1 (migrating_slots chunk)"
  by (simp add: chunk_entries_def arr2_list_def part_def)

lemma part_simps [simp]:
  "part 0 p = fst p" "part 1 p = snd p" "part (Suc 0) p = snd p"
  by (simp_all add: part_def)

lemma all_less_2: "(\<forall>j < (2::nat). P j) \<longleftrightarrow> P 0 \<and> P 1"
  by (auto simp: less_2_cases_iff)

lemma Ex_less_2: "(\<exists>j < (2::nat). P j) \<longleftrightarrow> P 0 \<or> P 1"
  by (auto simp: less_2_cases_iff)

lemma less_2_elim: "j < (2::nat) \<Longrightarrow> (j = 0 \<Longrightarrow> P) \<Longrightarrow> (j = 1 \<Longrightarrow> P) \<Longrightarrow> P"
  by (auto simp: less_2_cases_iff)

lemma part_arr2_modify:
  "j < 2 \<Longrightarrow> k < 2 \<Longrightarrow> part k (arr2_modify j f p) = (if k = j then f (part j p) else part k p)"
  by (auto simp: part_def arr2_modify_def)

lemma arr2_modify_other_sum:
  fixes g :: "'a \<Rightarrow> 'b::comm_monoid_add"
  assumes "j < 2" "g (f (part j p)) = g (part j p) + d"
  shows "g (fst (arr2_modify j f p)) + g (snd (arr2_modify j f p)) = g (fst p) + g (snd p) + d"
  using assms by (auto simp: less_2_cases_iff arr2_modify_def part_def ac_simps)

lemma all_entries_simps [simp]:
  "all_entries [] = []" "all_entries (c # cs) = chunk_entries c @ all_entries cs"
  by (simp_all add: all_entries_def)

lemma in_all_entries:
  "e \<in> set (all_entries chunks) \<longleftrightarrow>
     (\<exists>i < length chunks. \<exists>j < 2. e \<in> set (part j (migrating_slots (chunks ! i))))"
proof -
  have "e \<in> set (all_entries chunks) \<longleftrightarrow> (\<exists>c \<in> set chunks. \<exists>j < 2. e \<in> set (part j (migrating_slots c)))"
    by (auto simp: all_entries_def chunk_entries_eq Ex_less_2)
  then show ?thesis by (metis in_set_conv_nth)
qed

lemma chunks_ok_entry:
  assumes "chunks_ok chunks" "e \<in> set (all_entries chunks)"
  shows "\<exists>i < length chunks. \<exists>j < 2. entry_ok (length chunks) i j e"
  using assms by (auto simp: in_all_entries chunks_ok_def chunk_ok_def) blast

lemma owned_split: "owned chunks = sum_list (map (\<lambda>c. stable_mset (stable_slots c)) chunks) + entries_slots (all_entries chunks)"
  by (induction chunks) (simp_all add: owned_def chunk_owned_def ac_simps)

lemma chunks_keys_all: "chunks_keys b chunks = keys_of b (all_entries chunks)"
  by (induction chunks) (simp_all add: chunks_keys_def)

lemma keys_slots: "entries_slots es = sum_mset (image_mset (\<lambda>k. mset (rl_slots (fst k))) (keys_of True es))"
  by (induction es) (auto simp: entry_slots_def mr_key_def)


subsection \<open>Adding an entry\<close>

lemma push_migrating_Some:
  "push_migrating i j e chunks = Some chunks' \<longleftrightarrow>
     i < length chunks \<and> j < 2 \<and>
     chunks' = chunks[i := (chunks ! i)\<lparr>migrating_slots :=
             arr2_modify j (\<lambda>es. es @ [e]) (migrating_slots (chunks ! i))\<rparr>]"
  by (auto simp: push_migrating_def)

lemma push_migrating_ok:
  assumes p: "push_migrating i j e chunks = Some chunks'" and ok: "chunks_ok chunks"
    and e: "entry_ok (length chunks) i j e"
  shows "chunks_ok chunks'"
  unfolding chunks_ok_def
proof (intro allI impI)
  fix k assume k: "k < length chunks'"
  from p k ok have l: "length chunks' = length chunks" and okk: "chunk_ok (length chunks) k (chunks ! k)"
    by (auto simp: push_migrating_Some chunks_ok_def)
  from p e okk show "chunk_ok (length chunks') k (chunks' ! k)"
    by (auto simp: l push_migrating_Some chunk_ok_def nth_list_update part_arr2_modify)
qed

lemma chunk_entries_push:
  assumes "j < 2"
  shows "mset (chunk_entries (c\<lparr>migrating_slots := arr2_modify j (\<lambda>es. es @ [e]) (migrating_slots c)\<rparr>))
    = mset (chunk_entries c) + {#e#}"
  using assms by (auto simp: less_2_cases_iff chunk_entries_eq arr2_modify_def)

lemma entries_slots_mset: "entries_slots es = sum_mset (image_mset entry_slots (mset es))"
  by (induction es) simp_all

lemma keys_of_mset: "keys_of b es = image_mset mr_key (filter_mset (\<lambda>e. mr_is_migrating e = b) (mset es))"
  by (induction es) simp_all

lemma push_migrating_owned:
  assumes "push_migrating i j e chunks = Some chunks'"
  shows "owned chunks' = owned chunks + entry_slots e"
  using assms unfolding owned_def push_migrating_Some
  by (auto intro!: sum_list_map_update_add simp: chunk_owned_def entries_slots_mset chunk_entries_push)

lemma push_migrating_keys:
  assumes "push_migrating i j e chunks = Some chunks'"
  shows "chunks_keys b chunks' = chunks_keys b chunks + (if mr_is_migrating e = b then {#mr_key e#} else {#})"
proof -
  from assms have ij: "i < length chunks" "j < 2"
    and c: "chunks' = chunks[i := (chunks ! i)\<lparr>migrating_slots :=
             arr2_modify j (\<lambda>es. es @ [e]) (migrating_slots (chunks ! i))\<rparr>]"
    by (auto simp: push_migrating_Some)
  show ?thesis
    unfolding chunks_keys_def c using ij
    by (intro sum_list_map_update_add) (auto simp: keys_of_mset chunk_entries_push)
qed

lemma push_migrating_length: "push_migrating i j e chunks = Some chunks' \<Longrightarrow> length chunks' = length chunks"
  by (auto simp: push_migrating_Some)


subsection \<open>Merging into the stable slots\<close>

lemma merge_stable_Some:
  "merge_stable i j rl chunks = Some chunks' \<longleftrightarrow>
     i < length chunks \<and> j < 2 \<and>
     chunks' = chunks[i := (chunks ! i)\<lparr>stable_slots :=
             arr2_modify j (stable_merge_slots rl) (stable_slots (chunks ! i))\<rparr>]"
  by (auto simp: merge_stable_def)

lemma rl_new_Nil [simp]: "rl_new [] = []"
  by (simp add: rl_new_def)

lemma stable_merge_ok: "rl_inv rl \<Longrightarrow> stable_ok s \<Longrightarrow> stable_ok (stable_merge_slots rl s)"
  by (cases s) (auto simp: merge_another_inv)

lemma stable_merge_mset:
  assumes "rl_inv rl" "stable_ok s" "set (rl_slots rl) \<inter> set (opt_slots s) = {}"
  shows "mset (opt_slots (stable_merge_slots rl s)) = mset (opt_slots s) + mset (rl_slots rl)"
  using assms by (cases s) (auto simp: merge_another_mset Int_commute)

lemma merge_stable_ok:
  assumes p: "merge_stable i j rl chunks = Some chunks'" and ok: "chunks_ok chunks" and rl: "rl_inv rl"
  shows "chunks_ok chunks'"
  unfolding chunks_ok_def
proof (intro allI impI)
  fix k assume k: "k < length chunks'"
  from p k ok have l: "length chunks' = length chunks" and okk: "chunk_ok (length chunks) k (chunks ! k)"
    by (auto simp: merge_stable_Some chunks_ok_def)
  from p rl okk show "chunk_ok (length chunks') k (chunks' ! k)"
    by (auto simp: l merge_stable_Some chunk_ok_def nth_list_update part_arr2_modify stable_merge_ok)
qed

lemma stable_part_subset: "j < 2 \<Longrightarrow> set (opt_slots (part j p)) \<subseteq> set_mset (stable_mset p)"
  by (auto simp: less_2_cases_iff stable_mset_def)

lemma owned_stable_part:
  assumes "i < length chunks" "j < 2"
  shows "set (opt_slots (part j (stable_slots (chunks ! i)))) \<subseteq> set_mset (owned chunks)"
proof -
  obtain r where "owned chunks = chunk_owned (chunks ! i) + r"
    unfolding owned_def using sum_list_map_split [OF assms(1)] by blast
  then show ?thesis
    using stable_part_subset [OF assms(2)] by (fastforce simp: chunk_owned_def)
qed

lemma merge_stable_owned:
  assumes p: "merge_stable i j rl chunks = Some chunks'" and ok: "chunks_ok chunks" and rl: "rl_inv rl"
    and u: "uniq (owned chunks + mset (rl_slots rl))"
  shows "owned chunks' = owned chunks + mset (rl_slots rl)"
proof -
  from p have ij: "i < length chunks" "j < 2"
    and c: "chunks' = chunks[i := (chunks ! i)\<lparr>stable_slots :=
             arr2_modify j (stable_merge_slots rl) (stable_slots (chunks ! i))\<rparr>]"
    by (auto simp: merge_stable_Some)
  let ?s = "part j (stable_slots (chunks ! i))"
  have "set (rl_slots rl) \<inter> set (opt_slots ?s) = {}"
    using uniq_disjoint [OF u] owned_stable_part [OF ij] by fastforce
  moreover have "stable_ok ?s" using ok ij by (auto simp: chunks_ok_def chunk_ok_def)
  ultimately have "mset (opt_slots (stable_merge_slots rl ?s)) = mset (opt_slots ?s) + mset (rl_slots rl)"
    by (simp add: stable_merge_mset rl)
  then have "stable_mset (arr2_modify j (stable_merge_slots rl) (stable_slots (chunks ! i)))
      = stable_mset (stable_slots (chunks ! i)) + mset (rl_slots rl)"
    unfolding stable_mset_def
    by (rule arr2_modify_other_sum [where g = "\<lambda>s. mset (opt_slots s)", OF ij(2)])
  then show ?thesis
    unfolding owned_def c using ij(1)
    by (intro sum_list_map_update_add) (simp_all add: chunk_owned_def chunk_entries_def ac_simps)
qed

lemma merge_stable_keys: "merge_stable i j rl chunks = Some chunks' \<Longrightarrow> chunks_keys b chunks' = chunks_keys b chunks"
  unfolding chunks_keys_def
  by (auto simp: merge_stable_Some chunk_entries_def intro!: sum_list_map_update_same)

lemma merge_stable_length: "merge_stable i j rl chunks = Some chunks' \<Longrightarrow> length chunks' = length chunks"
  by (auto simp: merge_stable_Some)


subsection \<open>What limit\_migration shows\<close>

definition key_src :: "migration_key \<Rightarrow> usize \<times> usize" where
  "key_src k = (src_chunk_index (snd k), src_chunk_part (snd k))"

text \<open>
  The reference: go through the migrations in the order of the chunks and let one run when fewer
  than the limit are running and its source part is not yet migrating out.
\<close>

fun limit_select :: "nat \<Rightarrow> nat \<Rightarrow> (usize \<times> usize) set \<Rightarrow> migration_key list \<Rightarrow> migration_key list" where
  "limit_select lim n used [] = []"
| "limit_select lim n used (k # ks) =
     (if n \<ge> lim \<or> key_src k \<in> used then limit_select lim n used ks
      else k # limit_select lim (Suc n) (insert (key_src k) used) ks)"

lemma limit_select_subset: "mset (limit_select lim n used ks) \<subseteq># mset ks"
proof (induction lim n used ks rule: limit_select.induct)
  case (2 lim n used k ks)
  then show ?case by (auto intro: subset_mset.add_increasing [of "{#k#}", simplified])
qed simp

lemma limit_select_length: "n \<le> lim \<Longrightarrow> n + length (limit_select lim n used ks) \<le> lim"
  by (induction lim n used ks rule: limit_select.induct) auto

lemma limit_select_sources:
  "distinct (map key_src (limit_select lim n used ks)) \<and>
   key_src ` set (limit_select lim n used ks) \<inter> used = {}"
  by (induction lim n used ks rule: limit_select.induct) auto

text \<open>Giving back one running migration never takes another one's turn away.\<close>

lemma limit_select_full: "n \<ge> lim \<Longrightarrow> limit_select lim n used ks = []"
  by (induction ks) auto

lemma limit_select_release:
  "s \<notin> used \<Longrightarrow> set (limit_select lim (Suc n) (insert s used) ks) \<subseteq> set (limit_select lim n used ks)"
proof (induction ks arbitrary: n used)
  case (Cons k ks)
  show ?case
  proof (cases "Suc n \<ge> lim")
    case True
    then show ?thesis by (simp add: limit_select_full)
  next
    case False
    show ?thesis
    proof (cases "key_src k = s")
      case True
      with False Cons.prems show ?thesis by auto
    next
      case ks: False
      with False Cons.prems Cons.IH [of used n] Cons.IH [of "insert (key_src k) used" "Suc n"]
      show ?thesis by (auto simp: insert_commute [of s])
    qed
  qed
qed simp

lemma limit_select_remove1:
  assumes "k \<in> set (limit_select lim n used ks)" "distinct ks"
  shows "set (limit_select lim n used ks) - {k} \<subseteq> set (limit_select lim n used (remove1 k ks))"
  using assms
proof (induction ks arbitrary: n used)
  case (Cons x ks)
  show ?case
  proof (cases "n \<ge> lim \<or> key_src x \<in> used")
    case True
    then show ?thesis
      using Cons limit_select_subset [of lim n used ks]
      by (cases "n \<ge> lim") (auto simp: limit_select_full dest!: mset_subset_eqD)
  next
    case False
    show ?thesis
    proof (cases "x = k")
      case True
      with False show ?thesis
        using limit_select_release [of "key_src k" used lim n ks] by auto
    next
      case xk: False
      with False Cons.prems Cons.IH [of "Suc n" "insert (key_src x) used"] show ?thesis by auto
    qed
  qed
qed simp

definition limit_inv :: "nat multiset \<Rightarrow> migration_slot_range_store list \<Rightarrow> chunk_store list \<Rightarrow> bool" where
  "limit_inv T es chunks \<longleftrightarrow> chunks_ok chunks \<and> mirrored chunks \<and> owned chunks + entries_slots es = T"

definition out_of :: "limit_state \<Rightarrow> usize \<times> usize \<Rightarrow> nat" where
  "out_of st s = (case hm_get (lm_migrating_out st) s of None \<Rightarrow> 0 | Some c \<Rightarrow> c)"

definition used_of :: "limit_state \<Rightarrow> (usize \<times> usize) set" where
  "used_of st = {s. 0 < out_of st s}"

lemma limit_merge_inv:
  assumes "limit_inv T (e # es) chunks" "uniq T" "mr_is_migrating e"
    and "meta_ok (length chunks) (mr_meta e)" "rl_inv (mr_range_list e)"
  shows "\<exists>chunks'. merge_stable (src_chunk_index (mr_meta e)) (src_chunk_part (mr_meta e)) (mr_range_list e) chunks
      = Some chunks' \<and> limit_inv T es chunks' \<and> length chunks' = length chunks
      \<and> chunks_keys True chunks' = chunks_keys True chunks"
proof -
  obtain chunks' where m: "merge_stable (src_chunk_index (mr_meta e)) (src_chunk_part (mr_meta e))
      (mr_range_list e) chunks = Some chunks'"
    using assms(4) by (auto simp: merge_stable_def meta_ok_def)
  have T: "owned chunks + mset (rl_slots (mr_range_list e)) + entries_slots es = T"
    using assms(1,3) by (simp add: limit_inv_def entry_slots_def ac_simps)
  have u: "uniq (owned chunks + mset (rl_slots (mr_range_list e)))"
    using assms(2) unfolding T [symmetric] by (rule uniq_addD1)
  have ok: "chunks_ok chunks" and mi: "mirrored chunks" using assms(1) by (auto simp: limit_inv_def)
  have "limit_inv T es chunks'"
    using merge_stable_ok [OF m ok assms(5)] merge_stable_owned [OF m ok assms(5) u] mi T
    by (simp add: limit_inv_def mirrored_def merge_stable_keys [OF m])
  then show ?thesis using m by (auto simp: merge_stable_keys [OF m] merge_stable_length [OF m])
qed

lemma limit_push_inv:
  assumes "limit_inv T (e # es) chunks" "mr_is_migrating e"
    and "meta_ok (length chunks) (mr_meta e)" "rl_inv (mr_range_list e)" "mr_range_list e \<noteq> []"
  shows "\<exists>chunks1 chunks2. push_migrating (src_chunk_index (mr_meta e)) (src_chunk_part (mr_meta e)) e chunks = Some chunks1
      \<and> push_migrating (dst_chunk_index (mr_meta e)) (dst_chunk_part (mr_meta e)) (e\<lparr>mr_is_migrating := False\<rparr>) chunks1 = Some chunks2
      \<and> limit_inv T es chunks2 \<and> length chunks2 = length chunks
      \<and> chunks_keys True chunks2 = chunks_keys True chunks + {#mr_key e#}"
proof -
  let ?e' = "e\<lparr>mr_is_migrating := False\<rparr>"
  obtain chunks1 where 1: "push_migrating (src_chunk_index (mr_meta e)) (src_chunk_part (mr_meta e)) e chunks = Some chunks1"
    using assms(3) by (auto simp: push_migrating_def meta_ok_def)
  obtain chunks2 where 2: "push_migrating (dst_chunk_index (mr_meta e)) (dst_chunk_part (mr_meta e)) ?e' chunks1 = Some chunks2"
    using assms(3) push_migrating_length [OF 1] by (auto simp: push_migrating_def meta_ok_def)
  have ok: "chunks_ok chunks" and mi: "mirrored chunks" using assms(1) by (auto simp: limit_inv_def)
  have "chunks_ok chunks1"
    using assms by (intro push_migrating_ok [OF 1 ok]) (simp add: entry_ok_def)
  then have "chunks_ok chunks2"
    using assms by (intro push_migrating_ok [OF 2]) (simp_all add: entry_ok_def push_migrating_length [OF 1])
  moreover have k: "chunks_keys b chunks2 = chunks_keys b chunks + {#mr_key e#}" for b
    using assms(2) by (cases b) (simp_all add: push_migrating_keys [OF 1] push_migrating_keys [OF 2] mr_key_def)
  moreover have "owned chunks2 = owned chunks + entry_slots e"
    by (simp add: push_migrating_owned [OF 1] push_migrating_owned [OF 2] entry_slots_def)
  ultimately have "limit_inv T es chunks2"
    using assms(1) mi by (simp add: limit_inv_def mirrored_def ac_simps)
  then show ?thesis using 1 2 k by (auto simp: push_migrating_length)
qed

definition limit_ok :: "nat multiset \<Rightarrow> usize \<Rightarrow> migration_slot_range_store list \<Rightarrow> limit_state \<Rightarrow> bool" where
  "limit_ok T n es st \<longleftrightarrow>
     limit_inv T es (lm_chunks st) \<and> length (lm_chunks st) = n \<and>
     (\<forall>e \<in> set es. meta_ok n (mr_meta e) \<and> rl_inv (mr_range_list e) \<and> mr_range_list e \<noteq> [])"

lemma limit_loop_correct:
  assumes "limit_ok T n es st" "uniq T"
  shows "\<exists>st'. limit_loop lim st es = Some st' \<and> limit_ok T n [] st' \<and>
    chunks_keys True (lm_chunks st') = chunks_keys True (lm_chunks st) +
      mset (limit_select (unat lim) (lm_migration_num st) (used_of st) (map mr_key (filter mr_is_migrating es)))"
  using assms
proof (induction es arbitrary: st)
  case (Cons e es)
  let ?m = "mr_meta e"
  let ?src = "(src_chunk_index ?m, src_chunk_part ?m)"
  have inv: "limit_inv T (e # es) (lm_chunks st)" and n: "length (lm_chunks st) = n"
    and e: "meta_ok n ?m" "rl_inv (mr_range_list e)" "mr_range_list e \<noteq> []"
    and es: "\<forall>e \<in> set es. meta_ok n (mr_meta e) \<and> rl_inv (mr_range_list e) \<and> mr_range_list e \<noteq> []"
    using Cons.prems by (auto simp: limit_ok_def)
  have ks: "key_src (mr_key e) = ?src" by (simp add: key_src_def mr_key_def)
  show ?case
  proof (cases "mr_is_migrating e")
    case False
    with Cons.prems have "limit_ok T n es st" by (simp add: limit_ok_def limit_inv_def entry_slots_def)
    with Cons.IH Cons.prems(2) False show ?thesis by (simp add: limit_step_def)
  next
    case mig: True
    define out where "out = hm_or_insert ?src 0 (lm_migrating_out st)"
    show ?thesis
    proof (cases "lm_migration_num st \<ge> unat lim \<or> out_of st ?src \<ge> MAX_MIGRATING_OUT")
      case True
      obtain chunks' where m: "merge_stable (fst ?src) (snd ?src) (mr_range_list e) (lm_chunks st) = Some chunks'"
        and ci: "limit_inv T es chunks'" "length chunks' = n"
        and ck: "chunks_keys True chunks' = chunks_keys True (lm_chunks st)"
        using limit_merge_inv [OF inv Cons.prems(2) mig] e n by auto
      let ?st = "st\<lparr>lm_migrating_out := out, lm_chunks := chunks'\<rparr>"
      have step: "limit_step lim st e = Some ?st"
        using True m mig by (auto simp: limit_step_def Let_def out_def out_of_def)
      have "out_of ?st s = out_of st s" for s
        by (cases "s = ?src") (simp_all add: out_of_def out_def split: option.split)
      then have same: "used_of ?st = used_of st" by (simp only: used_of_def)
      have "limit_ok T n es ?st" using ci es by (simp add: limit_ok_def)
      from Cons.IH [OF this Cons.prems(2)] True show ?thesis
        by (simp add: step same ck mig ks MAX_MIGRATING_OUT_def used_of_def [of st] Suc_le_eq)
    next
      case False
      obtain chunks1 chunks2 where p1: "push_migrating (fst ?src) (snd ?src) e (lm_chunks st) = Some chunks1"
        and p2: "push_migrating (dst_chunk_index ?m) (dst_chunk_part ?m) (e\<lparr>mr_is_migrating := False\<rparr>) chunks1 = Some chunks2"
        and ci: "limit_inv T es chunks2" "length chunks2 = n"
        and ck: "chunks_keys True chunks2 = chunks_keys True (lm_chunks st) + {#mr_key e#}"
        using limit_push_inv [OF inv mig] e n by auto
      let ?st = "\<lparr>lm_chunks = chunks2, lm_migration_num = lm_migration_num st + 1,
                  lm_migrating_out = hm_modify ?src (\<lambda>c. c + 1) out\<rparr>"
      have step: "limit_step lim st e = Some ?st"
        using False p1 p2 mig by (auto simp: limit_step_def Let_def out_def out_of_def)
      have used: "used_of ?st = insert ?src (used_of st)"
      proof -
        have "0 < out_of ?st s \<longleftrightarrow> s = ?src \<or> 0 < out_of st s" for s
          by (cases "s = ?src") (simp_all add: out_of_def out_def split: option.split)
        then show ?thesis unfolding used_of_def by blast
      qed
      have "limit_ok T n es ?st" using ci es by (simp add: limit_ok_def)
      from Cons.IH [OF this Cons.prems(2)] False show ?thesis
        by (simp add: step used [simplified] ck mig ks MAX_MIGRATING_OUT_def used_of_def [of st] Suc_le_eq)
    qed
  qed
qed (simp add: limit_ok_def)


lemma owned_clear:
  "owned (map (\<lambda>c. c\<lparr>migrating_slots := ([], [])\<rparr>) chunks) = sum_list (map (\<lambda>c. stable_mset (stable_slots c)) chunks)"
  by (induction chunks) (simp_all add: owned_def chunk_owned_def chunk_entries_eq)

lemma keys_clear: "chunks_keys b (map (\<lambda>c. c\<lparr>migrating_slots := ([], [])\<rparr>) chunks) = {#}"
  by (induction chunks) (simp_all add: chunks_keys_def chunk_entries_eq)

lemma chunks_ok_clear: "chunks_ok chunks \<Longrightarrow> chunks_ok (map (\<lambda>c. c\<lparr>migrating_slots := ([], [])\<rparr>) chunks)"
  by (auto simp: chunks_ok_def chunk_ok_def all_less_2)

lemma limit_ok_init:
  assumes "slots_inv T chunks"
  shows "limit_ok T (length chunks) (all_entries chunks)
    \<lparr>lm_chunks = map (\<lambda>c. c\<lparr>migrating_slots := ([], [])\<rparr>) chunks, lm_migration_num = 0, lm_migrating_out = []\<rparr>"
proof -
  have "meta_ok (length chunks) (mr_meta e) \<and> rl_inv (mr_range_list e) \<and> mr_range_list e \<noteq> []"
    if "e \<in> set (all_entries chunks)" for e
    using chunks_ok_entry [OF _ that] assms by (auto simp: slots_inv_def entry_ok_def)
  moreover have "sum_list (map (\<lambda>c. stable_mset (stable_slots c)) chunks) + entries_slots (all_entries chunks) = T"
    using assms owned_split [of chunks] by (simp add: slots_inv_def)
  ultimately show ?thesis
    using assms by (simp add: limit_ok_def limit_inv_def slots_inv_def chunks_ok_clear mirrored_def
        keys_clear owned_clear)
qed

definition out_keys_list :: "chunk_store list \<Rightarrow> migration_key list" where
  "out_keys_list chunks = map mr_key (filter mr_is_migrating (all_entries chunks))"

lemma mset_out_keys_list: "mset (out_keys_list chunks) = chunks_keys True chunks"
  by (simp add: out_keys_list_def chunks_keys_all keys_of_def)

lemma limit_migration_spec:
  assumes "slots_inv T (cs_chunks c)" "uniq T"
  shows "\<exists>c'. limit_migration lim c = Some c' \<and> slots_inv T (cs_chunks c') \<and>
    length (cs_chunks c') = length (cs_chunks c) \<and>
    (lim \<noteq> 0 \<longrightarrow> chunks_keys True (cs_chunks c') =
       mset (limit_select (unat lim) 0 {} (out_keys_list (cs_chunks c))))"
proof (cases "lim = 0")
  case True
  with assms show ?thesis by (simp add: limit_migration_def)
next
  case False
  from limit_loop_correct [OF limit_ok_init [OF assms(1)] assms(2), of lim] obtain st' where
    l: "limit_loop lim \<lparr>lm_chunks = map (\<lambda>c. c\<lparr>migrating_slots := ([], [])\<rparr>) (cs_chunks c), lm_migration_num = 0,
        lm_migrating_out = []\<rparr> (all_entries (cs_chunks c)) = Some st'"
    and ok: "limit_ok T (length (cs_chunks c)) [] st'"
    and k: "chunks_keys True (lm_chunks st') = mset (limit_select (unat lim) 0 {} (out_keys_list (cs_chunks c)))"
    by (auto simp: keys_clear out_of_def used_of_def out_keys_list_def)
  from ok have "slots_inv T (lm_chunks st')" "length (lm_chunks st') = length (cs_chunks c)"
    by (auto simp: limit_ok_def limit_inv_def slots_inv_def)
  with False l k show ?thesis by (simp add: limit_migration_def)
qed


text \<open>
  When one of the shown migrations leaves the list, every other shown one is still shown: the
  guarantee the comment on \<open>limit_migration\<close> asks for.
\<close>

lemma limit_migration_not_stopped:
  assumes c: "slots_inv T (cs_chunks c)" and c1: "slots_inv T (cs_chunks c1)" and T: "uniq T"
    and d: "distinct (out_keys_list (cs_chunks c))"
    and rem: "out_keys_list (cs_chunks c1) = remove1 k (out_keys_list (cs_chunks c))"
    and v: "limit_migration lim c = Some v" and k: "k \<in># chunks_keys True (cs_chunks v)"
  shows "\<exists>v1. limit_migration lim c1 = Some v1 \<and>
    set_mset (chunks_keys True (cs_chunks v)) - {k} \<subseteq> set_mset (chunks_keys True (cs_chunks v1))"
proof (cases "lim = 0")
  case True
  with v d show ?thesis
    by (auto simp: limit_migration_def mset_out_keys_list [symmetric] rem)
next
  case False
  from limit_migration_spec [OF c T, of lim] v False have
    1: "chunks_keys True (cs_chunks v) = mset (limit_select (unat lim) 0 {} (out_keys_list (cs_chunks c)))" by auto
  from limit_migration_spec [OF c1 T, of lim] False obtain v1 where
    2: "limit_migration lim c1 = Some v1"
       "chunks_keys True (cs_chunks v1) = mset (limit_select (unat lim) 0 {} (remove1 k (out_keys_list (cs_chunks c))))"
    by (auto simp: rem)
  have "k \<in> set (limit_select (unat lim) 0 {} (out_keys_list (cs_chunks c)))" using k 1 by simp
  from limit_select_remove1 [OF this d] show ?thesis using 1 2 by simp
qed

lemma distinct_map_filter_le_1: "distinct (map f xs) \<Longrightarrow> length (filter (\<lambda>x. f x = y) xs) \<le> 1"
proof (induction xs)
  case (Cons x xs)
  have "filter (\<lambda>x. f x = y) xs = []" if "f x = y"
    using Cons.prems that by (auto simp: filter_empty_conv) (metis image_eqI)
  with Cons show ?case by auto
qed simp


subsection \<open>An example\<close>

text \<open>Two chunks; part 0 of the first one is migrating the slots 4 and 5 to part 0 of the second.\<close>

definition example_meta :: migration_meta_store where
  "example_meta = \<lparr>ms_epoch = 3, src_chunk_index = 0, src_chunk_part = 0, dst_chunk_index = 1, dst_chunk_part = 0\<rparr>"

definition example_entry :: "bool \<Rightarrow> migration_slot_range_store" where
  "example_entry b = \<lparr>mr_range_list = [(4, 5)], mr_is_migrating = b, mr_meta = example_meta\<rparr>"

definition example_chunks :: "chunk_store list" where
  "example_chunks =
     [\<lparr>role_position = Normal,
       stable_slots = (Some \<lparr>sr_range_list = [(0, 1)], sr_tag = TagNone\<rparr>, Some \<lparr>sr_range_list = [(2, 3)], sr_tag = TagNone\<rparr>),
       migrating_slots = ([example_entry True], []), proxy_addresses = (''p1'', ''p2''), hosts = (''h1'', ''h2''),
       node_addresses = ((''n1'', ''n2''), (''n3'', ''n4''))\<rparr>,
      \<lparr>role_position = FirstChunkMaster, stable_slots = (None, None),
       migrating_slots = ([example_entry False], []), proxy_addresses = (''p3'', ''p4''), hosts = (''h1'', ''h2''),
       node_addresses = ((''n5'', ''n6''), (''n7'', ''n8''))\<rparr>]"

definition example_cluster :: cluster_store where
  "example_cluster =
     \<lparr>cs_epoch = 3, cs_name = ''db'', cs_chunks = example_chunks, cs_config = cluster_config_default\<rparr>"

lemmas example_simps = example_chunks_def example_entry_def example_meta_def example_cluster_def

lemma example_chunks_ok: "chunks_ok example_chunks"
  by (simp add: example_simps chunks_ok_def chunk_ok_def All_less_Suc all_less_2 entry_ok_def meta_ok_def
      rl_inv_def rl_canon_Cons rl_bounded_def)

lemma example_slots_inv: "slots_inv (mset [0, 1, 2, 3, 4, 5]) example_chunks"
  unfolding slots_inv_def
  by (intro conjI example_chunks_ok)
    (simp_all add: example_simps mirrored_def chunks_keys_def chunk_entries_eq mr_key_def owned_def
      chunk_owned_def stable_mset_def entry_slots_def range_slots_def upt_rec)


subsection \<open>Properties\<close>



end
