(* ===== verification/UM_Query.thy ===== *)
theory UM_Query
  imports UM_Ownership
begin

section \<open>Queries (src/broker/query.rs)\<close>

text \<open>
  The views the broker answers with: the nodes of a cluster with their roles, replication peers
  and slots (\<open>cluster_store_to_cluster\<close>), the view of one proxy, the free proxies, and
  the store's own consistency check \<open>check_metadata\<close>. None is a panic.
\<close>


subsection \<open>The nodes of a cluster\<close>

fun slot_index_pair :: "chunk_role_position \<Rightarrow> usize \<times> usize" where
  "slot_index_pair Normal = (0, 2)"
| "slot_index_pair FirstChunkMaster = (0, 1)"
| "slot_index_pair SecondChunkMaster = (3, 2)"

fun node_role :: "chunk_role_position \<Rightarrow> usize \<Rightarrow> role" where
  "node_role Normal i = (if i mod 2 = 1 then Replica else Master)"
| "node_role FirstChunkMaster i = (if i \<ge> CHUNK_HALF_NODE_NUM then Replica else Master)"
| "node_role SecondChunkMaster i = (if i < CHUNK_HALF_NODE_NUM then Replica else Master)"

definition peer_index :: "usize \<Rightarrow> usize" where
  "peer_index i = (if i = 0 then 3 else if i = 1 then 2 else if i = 2 then 1 else 0)"

definition part_slot_ranges :: "chunk_store list \<Rightarrow> chunk_store \<Rightarrow> usize \<Rightarrow> slot_range list option" where
  "part_slot_ranges chunks chunk j =
     map_option (\<lambda>slot_ranges. (case part j (stable_slots chunk) of None \<Rightarrow> [] | Some s \<Rightarrow> [s]) @ slot_ranges)
       (those (map (\<lambda>e. to_slot_range e chunks) (part j (migrating_slots chunk))))"

definition node_slots :: "chunk_store list \<Rightarrow> chunk_store \<Rightarrow> usize \<Rightarrow> slot_range list option" where
  "node_slots chunks chunk i =
     (let (first_slot_index, second_slot_index) = slot_index_pair (role_position chunk) in
      case (if i = first_slot_index then part_slot_ranges chunks chunk 0 else Some []) of
        None \<Rightarrow> None
      | Some s0 \<Rightarrow>
          (case (if i = second_slot_index then part_slot_ranges chunks chunk 1 else Some []) of
             None \<Rightarrow> None
           | Some s1 \<Rightarrow> Some (s0 @ s1)))"

definition chunk_node :: "chunk_store list \<Rightarrow> chunk_store \<Rightarrow> usize \<Rightarrow> node option" where
  "chunk_node chunks chunk i =
     (case (arr4_get (node_addresses chunk) i, arr2_get (proxy_addresses chunk) (i div 2)) of
        (Some address, Some proxy_address) \<Rightarrow>
          (case node_slots chunks chunk i of
             None \<Rightarrow> None
           | Some slots \<Rightarrow>
               (case (arr4_get (node_addresses chunk) (peer_index i),
                      arr2_get (proxy_addresses chunk) (peer_index i div 2)) of
                  (Some peer_node, Some peer_proxy) \<Rightarrow>
                    Some \<lparr>nd_address = address, nd_proxy_address = proxy_address, nd_slots = slots,
                          nd_repl = \<lparr>rm_role = node_role (role_position chunk) i,
                            rm_peers = [\<lparr>rp_node_address = peer_node, rp_proxy_address = peer_proxy\<rparr>]\<rparr>\<rparr>
                | _ \<Rightarrow> None))
      | _ \<Rightarrow> None)"

definition chunk_nodes :: "chunk_store list \<Rightarrow> chunk_store \<Rightarrow> node list option" where
  "chunk_nodes chunks chunk = those (map (chunk_node chunks chunk) [0 ..< CHUNK_NODE_NUM])"

definition cluster_store_to_cluster :: "cluster_store \<Rightarrow> cluster option" where
  "cluster_store_to_cluster c =
     map_option (\<lambda>nodes. \<lparr>cl_name = cs_name c, cl_epoch = cs_epoch c, cl_nodes = concat nodes,
                          cl_config = cs_config c\<rparr>)
       (those (map (chunk_nodes (cs_chunks c)) (cs_chunks c)))"


subsection \<open>Queries on the store\<close>

definition get_proxies :: "meta_store \<Rightarrow> address list" where
  "get_proxies s = hm_keys (all_proxies s)"

definition paginate :: "usize option \<Rightarrow> usize option \<Rightarrow> 'a list \<Rightarrow> 'a list" where
  "paginate offset limit xs =
     (let it = drop (case offset of None \<Rightarrow> 0 | Some o' \<Rightarrow> o') xs
      in case limit of None \<Rightarrow> it | Some l \<Rightarrow> take l it)"

definition get_proxies_with_pagination :: "meta_store \<Rightarrow> usize option \<Rightarrow> usize option \<Rightarrow> address list" where
  "get_proxies_with_pagination s offset limit = paginate offset limit (hm_keys (all_proxies s))"

definition get_cluster_names :: "meta_store \<Rightarrow> cluster_name list" where
  "get_cluster_names s = hm_keys (clusters s)"

definition get_cluster_names_with_pagination ::
  "meta_store \<Rightarrow> usize option \<Rightarrow> usize option \<Rightarrow> cluster_name list" where
  "get_cluster_names_with_pagination s offset limit = paginate offset limit (hm_keys (clusters s))"

text \<open>The outer None is a panic of \<open>limit_migration\<close>, the inner one a missing cluster.\<close>

definition get_cluster_store ::
  "(cluster_name, cluster_store) hashmap \<Rightarrow> cluster_name \<Rightarrow> 64 word \<Rightarrow> cluster_store option option" where
  "get_cluster_store cs name migration_limit =
     (case hm_get cs name of
        None \<Rightarrow> Some None
      | Some c \<Rightarrow> map_option Some (limit_migration migration_limit c))"

fun group_by_adjacent :: "('a \<Rightarrow> 'k) \<Rightarrow> 'a list \<Rightarrow> ('k \<times> 'a list) list" where
  "group_by_adjacent f [] = []"
| "group_by_adjacent f (x # xs) =
     (case group_by_adjacent f xs of
        [] \<Rightarrow> [(f x, [x])]
      | (k, ys) # gs \<Rightarrow> if f x = k then (k, x # ys) # gs else (f x, [x]) # (k, ys) # gs)"

definition cluster_peers :: "cluster \<Rightarrow> address \<Rightarrow> peer_proxy list" where
  "cluster_peers cl address =
     map (\<lambda>(proxy_address, nodes). \<lparr>pp_proxy_address = proxy_address, pp_slots = concat (map nd_slots nodes)\<rparr>)
       (group_by_adjacent nd_proxy_address
          (filter (\<lambda>n. nd_role n = Master \<and> nd_proxy_address n \<noteq> address) (cl_nodes cl)))"

definition free_proxy_view :: "meta_store \<Rightarrow> address \<Rightarrow> proxy_resource \<Rightarrow> proxy" where
  "free_proxy_view s address pr =
     \<lparr>px_cluster_name = None, px_address = address, px_epoch = global_epoch s,
      px_nodes = map (\<lambda>a. \<lparr>nd_address = a, nd_proxy_address = pr_proxy_address pr, nd_slots = [],
                           nd_repl = repl_meta_new_free\<rparr>) (arr2_list (pr_node_addresses pr)),
      px_peers = [], px_cluster_config = None\<rparr>"

definition proxy_view :: "cluster \<Rightarrow> address \<Rightarrow> proxy" where
  "proxy_view cl address =
     \<lparr>px_cluster_name = Some (cl_name cl), px_address = address, px_epoch = cl_epoch cl,
      px_nodes = filter (\<lambda>n. nd_proxy_address n = address) (cl_nodes cl),
      px_peers = cluster_peers cl address, px_cluster_config = Some (cl_config cl)\<rparr>"

definition get_proxy_by_address :: "meta_store \<Rightarrow> address \<Rightarrow> 64 word \<Rightarrow> proxy option option" where
  "get_proxy_by_address s address migration_limit =
     (case hm_get (all_proxies s) address of
        None \<Rightarrow> Some None
      | Some pr \<Rightarrow>
          (case (case pr_cluster pr of
                   None \<Rightarrow> Some None
                 | Some name \<Rightarrow> get_cluster_store (clusters s) name migration_limit) of
             None \<Rightarrow> None
           | Some None \<Rightarrow> Some (Some (free_proxy_view s address pr))
           | Some (Some c) \<Rightarrow>
               map_option (\<lambda>cl. Some (proxy_view cl address)) (cluster_store_to_cluster c)))"

definition get_cluster_by_name :: "meta_store \<Rightarrow> string \<Rightarrow> 64 word \<Rightarrow> cluster option option" where
  "get_cluster_by_name s cluster_name migration_limit =
     (case cluster_name_try_from cluster_name of
        None \<Rightarrow> Some None
      | Some name \<Rightarrow>
          (case get_cluster_store (clusters s) name migration_limit of
             None \<Rightarrow> None
           | Some None \<Rightarrow> Some None
           | Some (Some c) \<Rightarrow> map_option Some (cluster_store_to_cluster c)))"

definition get_cluster_info_by_name :: "meta_store \<Rightarrow> string \<Rightarrow> 64 word \<Rightarrow> cluster_info option option" where
  "get_cluster_info_by_name s cluster_name migration_limit =
     (case cluster_name_try_from cluster_name of
        None \<Rightarrow> Some None
      | Some name \<Rightarrow> map_option (map_option cs_get_info) (get_cluster_store (clusters s) name migration_limit))"

definition get_free_proxy_resource :: "meta_store \<Rightarrow> proxy_resource list" where
  "get_free_proxy_resource s =
     filter (\<lambda>pr. pr_cluster pr = None
               \<and> \<not> List.member (failed_proxies s) (pr_proxy_address pr)
               \<and> \<not> hm_contains_key (failures s) (pr_proxy_address pr))
       (hm_values (all_proxies s))"

definition get_free_proxies :: "meta_store \<Rightarrow> host_proxy list" where
  "get_free_proxies s =
     map (\<lambda>pr. \<lparr>hp_host = pr_host pr, hp_proxy_address = pr_proxy_address pr\<rparr>) (get_free_proxy_resource s)"


subsection \<open>check\_metadata\<close>

text \<open>One proxy of a chunk: whether it is consistent, and the proxies of the cluster seen so far.\<close>

definition check_chunk_proxy ::
  "meta_store \<Rightarrow> cluster_name \<Rightarrow> chunk_store \<Rightarrow> usize \<Rightarrow> bool \<times> address list \<Rightarrow> bool \<times> address list" where
  "check_chunk_proxy s name chunk i st =
     (let (ok, seen) = st; a = part i (proxy_addresses chunk) in
      case hm_get (all_proxies s) a of
        None \<Rightarrow> (False, seen)
      | Some pr \<Rightarrow>
          (ok \<and> pr_proxy_address pr = a \<and> pr_cluster pr = Some name \<and> \<not> List.member seen a
             \<and> part i (hosts chunk) = pr_host pr
             \<and> part i (node_addresses chunk) = pr_node_addresses pr,
           a # seen))"

definition check_cluster :: "meta_store \<Rightarrow> cluster_name \<Rightarrow> cluster_store \<Rightarrow> bool" where
  "check_cluster s name c =
     fst (fold (\<lambda>chunk st. check_chunk_proxy s name chunk 1 (check_chunk_proxy s name chunk 0 st))
            (cs_chunks c) (True, []))"

definition check_proxy :: "meta_store \<Rightarrow> address \<Rightarrow> proxy_resource \<Rightarrow> bool" where
  "check_proxy s a pr =
     (case pr_cluster pr of
        None \<Rightarrow> True
      | Some name \<Rightarrow>
          (case hm_get (clusters s) name of
             None \<Rightarrow> False
           | Some c \<Rightarrow> find (\<lambda>chunk. List.member (arr2_list (proxy_addresses chunk)) a) (cs_chunks c) \<noteq> None))"

definition check_metadata :: "meta_store \<Rightarrow> bool" where
  "check_metadata s =
     (list_all (\<lambda>(name, c). check_cluster s name c) (clusters s)
      \<and> list_all (\<lambda>(a, pr). check_proxy s a pr) (all_proxies s))"


subsection \<open>Where the master of a part is\<close>

lemma those_map_Some:
  "(\<And>x. x \<in> set xs \<Longrightarrow> f x = Some (g x)) \<Longrightarrow> those (map f xs) = Some (map g xs)"
  by (induction xs) auto

lemma master_index:
  "j < 2 \<Longrightarrow> chunk_part_to_node_index j pos = part j (slot_index_pair pos)"
  "j < 2 \<Longrightarrow> chunk_part_to_proxy_index j pos = part j (slot_index_pair pos) div 2"
  "j < 2 \<Longrightarrow> part j (slot_index_pair pos) < 4"
  "j < 2 \<Longrightarrow> node_role pos (part j (slot_index_pair pos)) = Master"
  by (cases pos; auto simp: less_2_cases_iff CHUNK_HALF_NODE_NUM_def)+

lemma less_4_elim:
  "i < (4::nat) \<Longrightarrow> (i = 0 \<Longrightarrow> P) \<Longrightarrow> (i = 1 \<Longrightarrow> P) \<Longrightarrow> (i = 2 \<Longrightarrow> P) \<Longrightarrow> (i = 3 \<Longrightarrow> P) \<Longrightarrow> P"
  by linarith

definition node_addr :: "chunk_store \<Rightarrow> usize \<Rightarrow> address" where
  "node_addr chunk i = part (i mod 2) (part (i div 2) (node_addresses chunk))"

definition proxy_addr :: "chunk_store \<Rightarrow> usize \<Rightarrow> address" where
  "proxy_addr chunk i = part (i div 2) (proxy_addresses chunk)"

lemma arr4_get_node: "i < 4 \<Longrightarrow> arr4_get (node_addresses chunk) i = Some (node_addr chunk i)"
  by (erule less_4_elim; simp add: arr4_get_def arr2_get_def node_addr_def part_def)

lemma arr2_get_proxy: "i < 4 \<Longrightarrow> arr2_get (proxy_addresses chunk) (i div 2) = Some (proxy_addr chunk i)"
  by (erule less_4_elim; simp add: arr2_get_def proxy_addr_def part_def)

definition master_of :: "chunk_store \<Rightarrow> usize \<Rightarrow> address \<times> address" where
  "master_of chunk j =
     (let i = part j (slot_index_pair (role_position chunk)) in (proxy_addr chunk i, node_addr chunk i))"

lemma endpoint_master:
  "k < length chunks \<Longrightarrow> j < 2 \<Longrightarrow> endpoint chunks k j = Some (master_of (chunks ! k) j)"
  using master_index(3) [of j "role_position (chunks ! k)"]
  by (simp add: endpoint_def list_get_def master_index arr4_get_node arr2_get_proxy master_of_def Let_def
      del: chunk_part_to_proxy_index.simps chunk_part_to_node_index.simps)

definition entry_meta :: "chunk_store list \<Rightarrow> migration_slot_range_store \<Rightarrow> migration_meta" where
  "entry_meta chunks e =
     (let m = mr_meta e;
          (sp, sn) = master_of (chunks ! src_chunk_index m) (src_chunk_part m);
          (dp, dn) = master_of (chunks ! dst_chunk_index m) (dst_chunk_part m)
      in \<lparr>mm_epoch = ms_epoch m, src_proxy_address = sp, src_node_address = sn,
          dst_proxy_address = dp, dst_node_address = dn\<rparr>)"

definition entry_slot_range :: "chunk_store list \<Rightarrow> migration_slot_range_store \<Rightarrow> slot_range" where
  "entry_slot_range chunks e =
     \<lparr>sr_range_list = mr_range_list e,
      sr_tag = (if mr_is_migrating e then Migrating else Importing) (entry_meta chunks e)\<rparr>"

lemma to_slot_range_meta:
  "meta_ok (length chunks) (mr_meta e) \<Longrightarrow> to_slot_range e chunks = Some (entry_slot_range chunks e)"
  by (simp add: to_slot_range_def meta_ok_def endpoint_master entry_slot_range_def entry_meta_def
      Let_def split_beta)


subsection \<open>The nodes a chunk is shown as\<close>

definition part_ranges :: "chunk_store list \<Rightarrow> chunk_store \<Rightarrow> usize \<Rightarrow> slot_range list" where
  "part_ranges chunks chunk j =
     (case part j (stable_slots chunk) of None \<Rightarrow> [] | Some s \<Rightarrow> [s])
     @ map (entry_slot_range chunks) (part j (migrating_slots chunk))"

definition node_ranges :: "chunk_store list \<Rightarrow> chunk_store \<Rightarrow> usize \<Rightarrow> slot_range list" where
  "node_ranges chunks chunk i =
     (if i = fst (slot_index_pair (role_position chunk)) then part_ranges chunks chunk 0 else [])
     @ (if i = snd (slot_index_pair (role_position chunk)) then part_ranges chunks chunk 1 else [])"

definition shown_node :: "chunk_store list \<Rightarrow> chunk_store \<Rightarrow> usize \<Rightarrow> node" where
  "shown_node chunks chunk i =
     \<lparr>nd_address = node_addr chunk i, nd_proxy_address = proxy_addr chunk i,
      nd_slots = node_ranges chunks chunk i,
      nd_repl = \<lparr>rm_role = node_role (role_position chunk) i,
        rm_peers = [\<lparr>rp_node_address = node_addr chunk (peer_index i),
                     rp_proxy_address = proxy_addr chunk (peer_index i)\<rparr>]\<rparr>\<rparr>"

lemma chunks_ok_part:
  "chunks_ok chunks \<Longrightarrow> k < length chunks \<Longrightarrow> j < 2 \<Longrightarrow> e \<in> set (part j (migrating_slots (chunks ! k))) \<Longrightarrow>
     entry_ok (length chunks) k j e"
  by (auto simp: chunks_ok_def chunk_ok_def)

lemma part_slot_ranges_shown:
  assumes "chunks_ok chunks" "k < length chunks" "j < 2"
  shows "part_slot_ranges chunks (chunks ! k) j = Some (part_ranges chunks (chunks ! k) j)"
proof -
  have "those (map (\<lambda>e. to_slot_range e chunks) (part j (migrating_slots (chunks ! k))))
      = Some (map (entry_slot_range chunks) (part j (migrating_slots (chunks ! k))))"
    using chunks_ok_part [OF assms] by (intro those_map_Some to_slot_range_meta) (auto simp: entry_ok_def)
  then show ?thesis by (simp add: part_slot_ranges_def part_ranges_def)
qed

lemma peer_index_less [simp]: "peer_index i < 4"
  by (simp add: peer_index_def)

lemma chunk_node_shown:
  assumes "chunks_ok chunks" "k < length chunks" "i < 4"
  shows "chunk_node chunks (chunks ! k) i = Some (shown_node chunks (chunks ! k) i)"
proof -
  have "node_slots chunks (chunks ! k) i = Some (node_ranges chunks (chunks ! k) i)"
    using part_slot_ranges_shown [OF assms(1,2), of 0] part_slot_ranges_shown [OF assms(1,2), of 1]
    by (simp add: node_slots_def node_ranges_def split_beta)
  with assms(3) show ?thesis
    by (simp add: chunk_node_def arr4_get_node arr2_get_proxy shown_node_def)
qed

lemma chunk_nodes_shown:
  "chunks_ok chunks \<Longrightarrow> k < length chunks \<Longrightarrow>
     chunk_nodes chunks (chunks ! k) = Some (map (shown_node chunks (chunks ! k)) [0 ..< 4])"
  unfolding chunk_nodes_def CHUNK_NODE_NUM_def by (intro those_map_Some) (auto simp: chunk_node_shown)

definition shown_nodes :: "chunk_store list \<Rightarrow> node list" where
  "shown_nodes chunks = concat (map (\<lambda>chunk. map (shown_node chunks chunk) [0 ..< 4]) chunks)"

definition shown_cluster :: "cluster_store \<Rightarrow> cluster" where
  "shown_cluster c =
     \<lparr>cl_name = cs_name c, cl_epoch = cs_epoch c, cl_nodes = shown_nodes (cs_chunks c), cl_config = cs_config c\<rparr>"

lemma cluster_store_to_cluster_shown:
  assumes "chunks_ok (cs_chunks c)"
  shows "cluster_store_to_cluster c = Some (shown_cluster c)"
proof -
  have "those (map (chunk_nodes (cs_chunks c)) (cs_chunks c))
      = Some (map (\<lambda>chunk. map (shown_node (cs_chunks c) chunk) [0 ..< 4]) (cs_chunks c))"
    using chunk_nodes_shown [OF assms] by (intro those_map_Some) (auto simp: in_set_conv_nth)
  then show ?thesis
    by (simp add: cluster_store_to_cluster_def shown_cluster_def shown_nodes_def del: upt_rec_numeral)
qed

lemma concat_nth_uniform:
  "(\<And>ys. ys \<in> set yss \<Longrightarrow> length ys = n) \<Longrightarrow> k < length yss \<Longrightarrow> i < n \<Longrightarrow> concat yss ! (n * k + i) = yss ! k ! i"
proof (induction yss arbitrary: k)
  case (Cons ys yss)
  then show ?case by (cases k) (auto simp: nth_append add.assoc)
qed simp

lemma shown_nodes_nth:
  "k < length chunks \<Longrightarrow> i < 4 \<Longrightarrow> shown_nodes chunks ! (4 * k + i) = shown_node chunks (chunks ! k) i"
  unfolding shown_nodes_def
  by (subst concat_nth_uniform [where n = 4]) (auto simp del: upt_rec_numeral)

lemma length_shown_nodes: "length (shown_nodes chunks) = 4 * length chunks"
proof -
  have "length (concat (map (\<lambda>chunk. map (f chunk) [0 ..< 4]) xs)) = 4 * length xs"
    for f :: "chunk_store \<Rightarrow> nat \<Rightarrow> node" and xs
    by (induction xs) (simp_all del: upt_rec_numeral)
  then show ?thesis by (simp add: shown_nodes_def del: upt_rec_numeral)
qed

lemma set_shown_nodes:
  "n \<in> set (shown_nodes chunks) \<longleftrightarrow> (\<exists>k < length chunks. \<exists>i < 4. n = shown_node chunks (chunks ! k) i)"
proof -
  have "n \<in> set (shown_nodes chunks) \<longleftrightarrow> (\<exists>c \<in> set chunks. \<exists>i < 4. n = shown_node chunks c i)"
    unfolding shown_nodes_def set_concat set_map set_upt by fastforce
  then show ?thesis by (metis in_set_conv_nth)
qed


subsection \<open>Slots shown\<close>

definition sr_owned :: "slot_range \<Rightarrow> nat multiset" where
  "sr_owned sr = (if tag_is_importing (sr_tag sr) then {#} else mset (rl_slots (sr_range_list sr)))"

definition nodes_owned :: "node list \<Rightarrow> nat multiset" where
  "nodes_owned ns = sum_list (map (\<lambda>n. sum_list (map sr_owned (nd_slots n))) ns)"

lemma sr_owned_entry: "sr_owned (entry_slot_range chunks e) = entry_slots e"
  by (simp add: sr_owned_def entry_slot_range_def entry_slots_def)

lemma part_ranges_owned:
  assumes "stable_ok (part j (stable_slots chunk))"
  shows "sum_list (map sr_owned (part_ranges chunks chunk j))
    = mset (opt_slots (part j (stable_slots chunk))) + entries_slots (part j (migrating_slots chunk))"
proof -
  have "sum_list (map sr_owned (map (entry_slot_range chunks) es)) = entries_slots es" for es
    by (induction es) (simp_all add: sr_owned_entry)
  then show ?thesis
    using assms by (cases "part j (stable_slots chunk)") (simp_all add: part_ranges_def sr_owned_def)
qed

lemma chunk_shown_owned:
  assumes "chunk_ok n k chunk"
  shows "sum_list (map (\<lambda>i. sum_list (map sr_owned (nd_slots (shown_node chunks chunk i)))) [0 ..< 4]) = chunk_owned chunk"
proof -
  have o: "sum_list (map sr_owned (part_ranges chunks chunk j))
    = mset (opt_slots (part j (stable_slots chunk))) + entries_slots (part j (migrating_slots chunk))" if "j < 2" for j
    using assms that by (intro part_ranges_owned) (auto simp: chunk_ok_def)
  show ?thesis
    using o [of 0] o [of 1]
    by (cases "role_position chunk")
      (simp_all add: shown_node_def node_ranges_def upt_rec chunk_owned_def stable_mset_def chunk_entries_eq ac_simps)
qed

lemma nodes_owned_shown:
  assumes "chunks_ok chunks"
  shows "nodes_owned (shown_nodes chunks) = owned chunks"
proof -
  have "sum_list (map (\<lambda>n. sum_list (map sr_owned (nd_slots n))) (concat (map (\<lambda>chunk. map (shown_node chunks chunk) [0 ..< 4]) xs)))
      = sum_list (map chunk_owned xs)" if "set xs \<subseteq> set chunks" for xs
    using that
  proof (induction xs)
    case (Cons x xs)
    then obtain k where "k < length chunks" "x = chunks ! k" by (auto simp: in_set_conv_nth)
    with assms have "chunk_ok (length chunks) k x" by (simp add: chunks_ok_def)
    from chunk_shown_owned [OF this, of chunks] Cons show ?case
      by (simp add: comp_def del: upt_rec_numeral)
  qed simp
  then show ?thesis by (simp add: nodes_owned_def shown_nodes_def owned_def)
qed

lemma replica_no_slots:
  "i < 4 \<Longrightarrow> node_role (role_position chunk) i = Replica \<Longrightarrow> node_ranges chunks chunk i = []"
  by (erule less_4_elim; cases "role_position chunk"; simp add: node_ranges_def CHUNK_HALF_NODE_NUM_def)

lemma peer_role: "i < 4 \<Longrightarrow> node_role pos (peer_index i) \<noteq> node_role pos i"
  by (erule less_4_elim; cases pos; simp add: peer_index_def CHUNK_HALF_NODE_NUM_def)

lemma peer_index_eq: "i < 4 \<Longrightarrow> peer_index i = 3 - i"
  by (erule less_4_elim; simp add: peer_index_def)

fun tag_names :: "slot_range_tag \<Rightarrow> node \<Rightarrow> bool" where
  "tag_names (Migrating m) n \<longleftrightarrow> src_proxy_address m = nd_proxy_address n \<and> src_node_address m = nd_address n"
| "tag_names (Importing m) n \<longleftrightarrow> dst_proxy_address m = nd_proxy_address n \<and> dst_node_address m = nd_address n"
| "tag_names TagNone n \<longleftrightarrow> True"

lemma entry_tag_names:
  assumes "entry_ok (length chunks) k j e" "k < length chunks" "j < 2"
    "master_of (chunks ! k) j = (nd_proxy_address n, nd_address n)"
  shows "tag_names (sr_tag (entry_slot_range chunks e)) n"
  using assms by (auto simp: entry_slot_range_def entry_meta_def entry_ok_def Let_def split_beta split: if_splits)

lemma part_ranges_tag_names:
  assumes "chunks_ok chunks" "k < length chunks" "j < 2" "sr \<in> set (part_ranges chunks (chunks ! k) j)"
    "master_of (chunks ! k) j = (nd_proxy_address n, nd_address n)"
  shows "tag_names (sr_tag sr) n"
proof -
  have "stable_ok (part j (stable_slots (chunks ! k)))"
    using assms(1-3) by (auto simp: chunks_ok_def chunk_ok_def)
  moreover have "tag_names (sr_tag (entry_slot_range chunks e)) n"
    if "e \<in> set (part j (migrating_slots (chunks ! k)))" for e
    using entry_tag_names [OF chunks_ok_part [OF assms(1-3) that] assms(2,3,5)] .
  ultimately show ?thesis
    using assms(4) by (cases "part j (stable_slots (chunks ! k))") (auto simp: part_ranges_def)
qed

lemma shown_node_tag_names:
  assumes "chunks_ok chunks" "k < length chunks" "sr \<in> set (nd_slots (shown_node chunks (chunks ! k) i))"
  shows "tag_names (sr_tag sr) (shown_node chunks (chunks ! k) i)"
proof -
  let ?n = "shown_node chunks (chunks ! k) i"
  from assms(3) obtain j where j: "j < 2" "i = part j (slot_index_pair (role_position (chunks ! k)))"
    and sr: "sr \<in> set (part_ranges chunks (chunks ! k) j)"
  proof -
    have "i = fst (slot_index_pair (role_position (chunks ! k))) \<and> sr \<in> set (part_ranges chunks (chunks ! k) 0)
      \<or> i = snd (slot_index_pair (role_position (chunks ! k))) \<and> sr \<in> set (part_ranges chunks (chunks ! k) 1)"
      using assms(3) by (simp add: shown_node_def node_ranges_def split: if_splits)
    then show ?thesis using that [of 0] that [of 1] by auto
  qed
  then have "master_of (chunks ! k) j = (nd_proxy_address ?n, nd_address ?n)"
    by (simp add: master_of_def shown_node_def Let_def)
  with part_ranges_tag_names [OF assms(1,2) j(1) sr] show ?thesis by blast
qed


lemma count_all_slots: "count all_slots x = (if x < SLOT_NUM then 1 else 0)"
  by (simp add: all_slots_def distinct_count_atmost_1 SLOT_NUM_def)

text \<open>The two sides of a migration.\<close>

lemma mirrored_entry:
  assumes "mirrored chunks" "chunks_ok chunks" "e \<in> set (all_entries chunks)"
  shows "\<exists>e'. e' \<in> set (all_entries chunks) \<and> mr_is_migrating e' = (\<not> mr_is_migrating e) \<and> mr_key e' = mr_key e"
proof -
  have "mr_key e \<in># chunks_keys (mr_is_migrating e) chunks"
    using assms(3) by (auto simp: chunks_keys_all keys_of_def)
  then have "mr_key e \<in># chunks_keys (\<not> mr_is_migrating e) chunks"
    using assms(1) by (cases "mr_is_migrating e") (simp_all add: mirrored_def)
  then show ?thesis by (auto simp: chunks_keys_all keys_of_def)
qed

lemma entry_shown:
  assumes "chunks_ok chunks" "e \<in> set (all_entries chunks)"
  shows "\<exists>n \<in> set (shown_nodes chunks). nd_role n = Master \<and> entry_slot_range chunks e \<in> set (nd_slots n)"
proof -
  from assms(2) obtain k j where k: "k < length chunks" "j < 2" "e \<in> set (part j (migrating_slots (chunks ! k)))"
    by (auto simp: in_all_entries)
  let ?i = "part j (slot_index_pair (role_position (chunks ! k)))"
  have i: "?i < 4" "node_role (role_position (chunks ! k)) ?i = Master" using k(2) master_index by blast+
  have "entry_slot_range chunks e \<in> set (node_ranges chunks (chunks ! k) ?i)"
    using k(2,3) by (auto simp: less_2_cases_iff node_ranges_def part_ranges_def)
  then have "entry_slot_range chunks e \<in> set (nd_slots (shown_node chunks (chunks ! k) ?i))"
    "nd_role (shown_node chunks (chunks ! k) ?i) = Master"
    using i by (simp_all add: shown_node_def nd_role_def)
  then show ?thesis using k(1) i(1) set_shown_nodes by blast
qed

lemma shown_range_cases:
  assumes "chunks_ok chunks" "n \<in> set (shown_nodes chunks)" "sr \<in> set (nd_slots n)"
  shows "sr_tag sr = TagNone \<or> (\<exists>e \<in> set (all_entries chunks). sr = entry_slot_range chunks e)"
proof -
  from assms(2) obtain k i where k: "k < length chunks" "i < 4" "n = shown_node chunks (chunks ! k) i"
    by (auto simp: set_shown_nodes)
  from assms(3) obtain j where j: "j < 2" "sr \<in> set (part_ranges chunks (chunks ! k) j)"
    using Ex_less_2 [of "\<lambda>j. sr \<in> set (part_ranges chunks (chunks ! k) j)"]
    by (auto simp: k(3) shown_node_def node_ranges_def split: if_splits)
  have "stable_ok (part j (stable_slots (chunks ! k)))"
    using assms(1) k(1) j(1) by (auto simp: chunks_ok_def chunk_ok_def)
  moreover have "e \<in> set (all_entries chunks)" if "e \<in> set (part j (migrating_slots (chunks ! k)))" for e
    using that k(1) j(1) by (auto simp: in_all_entries)
  ultimately show ?thesis
    using j(2) by (cases "part j (stable_slots (chunks ! k))") (auto simp: part_ranges_def)
qed

lemma shown_mirror:
  assumes "mirrored chunks" "chunks_ok chunks" "n \<in> set (shown_nodes chunks)" "sr \<in> set (nd_slots n)"
    "sr_tag sr \<noteq> TagNone"
  shows "\<exists>n' \<in> set (shown_nodes chunks). \<exists>sr' \<in> set (nd_slots n').
    meta_eq sr sr' \<and> tag_is_migrating (sr_tag sr') = (\<not> tag_is_migrating (sr_tag sr))"
proof -
  from shown_range_cases [OF assms(2-4)] assms(5) obtain e where
    e: "e \<in> set (all_entries chunks)" "sr = entry_slot_range chunks e" by auto
  from mirrored_entry [OF assms(1,2) e(1)] obtain e' where
    e': "e' \<in> set (all_entries chunks)" "mr_is_migrating e' = (\<not> mr_is_migrating e)" "mr_key e' = mr_key e" by blast
  have "meta_eq sr (entry_slot_range chunks e')"
    using e'(2,3) by (simp add: e(2) meta_eq_iff entry_slot_range_def mr_key_def entry_meta_def)
  moreover have "tag_is_migrating (sr_tag (entry_slot_range chunks e')) = (\<not> tag_is_migrating (sr_tag sr))"
    using e'(2) by (simp add: e(2) entry_slot_range_def)
  ultimately show ?thesis using entry_shown [OF assms(2) e'(1)] by blast
qed


subsection \<open>Properties\<close>

text \<open>
  (C16) Whatever migration limit a proxy asks with, the view of a well-formed cluster that the
  broker answers with exists (no panic) and gives every slot below \<open>SLOT_NUM\<close> to exactly
  one node as a stable or migrating slot, and no other slot to anybody; only masters have slots.
\<close>

theorem cluster_view_gives_each_slot_one_master:
  assumes "hm_get (clusters s) name = Some c" "valid_cluster_name name" "slots_inv all_slots (cs_chunks c)"
  shows "\<exists>cl. get_cluster_by_name s name lim = Some (Some cl) \<and>
    (\<forall>slot. count (nodes_owned (cl_nodes cl)) slot = (if slot < SLOT_NUM then 1 else 0)) \<and>
    (\<forall>n \<in> set (cl_nodes cl). nd_role n = Replica \<longrightarrow> nd_slots n = [])"
proof -
  obtain c' where c': "limit_migration lim c = Some c'" "slots_inv all_slots (cs_chunks c')"
    using limit_migration_spec [OF assms(3) uniq_all_slots] by blast
  then have ok: "chunks_ok (cs_chunks c')" by (simp add: slots_inv_def)
  have "nd_slots n = []" if "n \<in> set (shown_nodes (cs_chunks c'))" "nd_role n = Replica" for n
    using that by (auto simp: set_shown_nodes shown_node_def nd_role_def replica_no_slots)
  moreover have "nodes_owned (shown_nodes (cs_chunks c')) = all_slots"
    using c'(2) nodes_owned_shown [OF ok] by (simp add: slots_inv_def)
  moreover have "get_cluster_by_name s name lim = Some (Some (shown_cluster c'))"
    using assms(1,2) c'(1) cluster_store_to_cluster_shown [OF ok]
    by (simp add: get_cluster_by_name_def get_cluster_store_def valid_cluster_name_def)
  ultimately show ?thesis by (auto simp: shown_cluster_def count_all_slots)
qed

text \<open>One chunk that owns all the slots, and a store with it.\<close>

definition example_full_cluster :: cluster_store where
  "example_full_cluster =
     \<lparr>cs_epoch = 1, cs_name = ''db'',
      cs_chunks = [\<lparr>role_position = Normal,
        stable_slots = (Some \<lparr>sr_range_list = [(0, 8191)], sr_tag = TagNone\<rparr>,
                        Some \<lparr>sr_range_list = [(8192, 16383)], sr_tag = TagNone\<rparr>),
        migrating_slots = ([], []), proxy_addresses = (''p1:1'', ''p2:1''), hosts = (''p1'', ''p2''),
        node_addresses = ((''n1'', ''n2''), (''n3'', ''n4''))\<rparr>],
      cs_config = cluster_config_default\<rparr>"

definition example_store :: meta_store where
  "example_store =
     \<lparr>version = UNDERMOON_MEM_BROKER_META_VERSION, global_epoch = 1,
      clusters = [(''db'', example_full_cluster)],
      all_proxies =
        [(''p1:1'', \<lparr>pr_proxy_address = ''p1:1'', pr_node_addresses = (''n1'', ''n2''), pr_host = ''p1'', pr_index = 0, pr_cluster = Some ''db''\<rparr>),
         (''p2:1'', \<lparr>pr_proxy_address = ''p2:1'', pr_node_addresses = (''n3'', ''n4''), pr_host = ''p2'', pr_index = 0, pr_cluster = Some ''db''\<rparr>)],
      failed_proxies = [], failures = [], enable_ordered_proxy = False\<rparr>"

lemma example_full_slots_inv: "slots_inv all_slots (cs_chunks example_full_cluster)"
proof -
  have "[0 ..< 16384] = [0 ..< 8192] @ [8192 ..< 16384 :: nat]"
    using upt_add_eq_append [of 0 8192 8192] by (simp del: upt_rec_numeral)
  then show ?thesis
    by (simp add: slots_inv_def chunks_ok_def chunk_ok_def all_less_2 example_full_cluster_def rl_inv_def
        rl_canon_Cons rl_bounded_def mirrored_def chunks_keys_def chunk_entries_eq owned_def chunk_owned_def
        stable_mset_def range_slots_def all_slots_def SLOT_NUM_def del: upt_rec_numeral)
qed

lemma valid_name_db: "valid_cluster_name ''db''"
  by (simp add: valid_cluster_name_def cluster_name_try_from_def is_ascii_alphanumeric_def CLUSTER_NAME_MAX_LENGTH_def)

theorem cluster_view_gives_each_slot_one_master_witness:
  "hm_get (clusters example_store) ''db'' = Some example_full_cluster \<and>
   slots_inv all_slots (cs_chunks example_full_cluster) \<and>
   (\<exists>cl. get_cluster_by_name example_store ''db'' 1 = Some (Some cl) \<and> count (nodes_owned (cl_nodes cl)) 42 = 1)"
proof -
  have 1: "hm_get (clusters example_store) ''db'' = Some example_full_cluster"
    by (simp add: example_store_def hm_get_def)
  from cluster_view_gives_each_slot_one_master [OF 1 valid_name_db example_full_slots_inv, of 1] obtain cl where
    cl: "get_cluster_by_name example_store ''db'' 1 = Some (Some cl)"
    and "\<forall>slot. count (nodes_owned (cl_nodes cl)) slot = (if slot < SLOT_NUM then 1 else 0)" by blast
  then have "count (nodes_owned (cl_nodes cl)) 42 = 1" by (simp add: SLOT_NUM_def)
  with 1 cl example_full_slots_inv show ?thesis by blast
qed

text \<open>
  (C26) The shape of the view: a cluster of \<open>n\<close> chunks has \<open>4 n\<close> nodes; node
  \<open>i\<close> of a chunk has exactly one replication peer, node \<open>3 - i\<close> of the same chunk,
  which lies on the other proxy and has the opposite role. So every master has one replica on the
  other proxy whatever the role position of the chunk is.
\<close>

theorem cluster_view_replication:
  assumes "chunks_ok (cs_chunks c)" "k < length (cs_chunks c)" "i < 4"
    "fst (proxy_addresses (cs_chunks c ! k)) \<noteq> snd (proxy_addresses (cs_chunks c ! k))"
  shows "\<exists>cl n p. cluster_store_to_cluster c = Some cl \<and> length (cl_nodes cl) = 4 * length (cs_chunks c) \<and>
    n = cl_nodes cl ! (4 * k + i) \<and> p = cl_nodes cl ! (4 * k + (3 - i)) \<and>
    rm_peers (nd_repl n) = [\<lparr>rp_node_address = nd_address p, rp_proxy_address = nd_proxy_address p\<rparr>] \<and>
    nd_role n \<noteq> nd_role p \<and> nd_proxy_address n \<noteq> nd_proxy_address p"
proof -
  let ?cs = "cs_chunks c" and ?i' = "peer_index i"
  have "nd_proxy_address (shown_node ?cs (?cs ! k) i) \<noteq> nd_proxy_address (shown_node ?cs (?cs ! k) ?i')"
    using assms(3,4) by (elim less_4_elim; simp add: shown_node_def proxy_addr_def peer_index_def)
  moreover have "nd_role (shown_node ?cs (?cs ! k) i) \<noteq> nd_role (shown_node ?cs (?cs ! k) ?i')"
    using peer_role [OF assms(3), of "role_position (?cs ! k)"] by (simp add: shown_node_def nd_role_def)
  moreover have "rm_peers (nd_repl (shown_node ?cs (?cs ! k) i)) =
      [\<lparr>rp_node_address = nd_address (shown_node ?cs (?cs ! k) ?i'),
        rp_proxy_address = nd_proxy_address (shown_node ?cs (?cs ! k) ?i')\<rparr>]"
    by (simp add: shown_node_def)
  ultimately show ?thesis
    using cluster_store_to_cluster_shown [OF assms(1)] assms(2,3) peer_index_eq [OF assms(3)]
      shown_nodes_nth [of k ?cs i] shown_nodes_nth [of k ?cs ?i'] length_shown_nodes [of ?cs]
    by (simp add: shown_cluster_def)
qed

theorem cluster_view_replication_witness:
  "chunks_ok (cs_chunks example_cluster) \<and>
   (\<exists>cl n. cluster_store_to_cluster example_cluster = Some cl \<and> n = cl_nodes cl ! 5 \<and>
      rm_peers (nd_repl n) = [\<lparr>rp_node_address = nd_address (cl_nodes cl ! 6), rp_proxy_address = nd_proxy_address (cl_nodes cl ! 6)\<rparr>])"
proof -
  have 1: "chunks_ok (cs_chunks example_cluster)" using example_chunks_ok by (simp add: example_cluster_def)
  moreover have "1 < length (cs_chunks example_cluster)" "(1::nat) < 4"
    "fst (proxy_addresses (cs_chunks example_cluster ! 1)) \<noteq> snd (proxy_addresses (cs_chunks example_cluster ! 1))"
    by (simp_all add: example_simps)
  ultimately show ?thesis using cluster_view_replication [of example_cluster 1 1] by auto
qed

text \<open>
  (C25) The two ends of a migration agree in the view: a slot range a node migrates out names
  that node as its source, one it imports names it as its destination, and for each of them some
  node of the view holds the other side with the same ranges and metadata (\<open>meta_eq\<close>).
\<close>

theorem cluster_view_migrations_are_paired:
  assumes "mirrored (cs_chunks c)" "chunks_ok (cs_chunks c)" "cluster_store_to_cluster c = Some cl"
    "n \<in> set (cl_nodes cl)" "sr \<in> set (nd_slots n)" "sr_tag sr \<noteq> TagNone"
  shows "tag_names (sr_tag sr) n \<and>
    (\<exists>n' \<in> set (cl_nodes cl). \<exists>sr' \<in> set (nd_slots n').
       meta_eq sr sr' \<and> tag_is_migrating (sr_tag sr') = (\<not> tag_is_migrating (sr_tag sr)) \<and> tag_names (sr_tag sr') n')"
proof -
  have cl: "cl_nodes cl = shown_nodes (cs_chunks c)"
    using assms(3) cluster_store_to_cluster_shown [OF assms(2)] by (auto simp: shown_cluster_def)
  have names: "tag_names (sr_tag sr) n" if "n \<in> set (cl_nodes cl)" "sr \<in> set (nd_slots n)" for n sr
    using that shown_node_tag_names [OF assms(2)] by (auto simp: cl set_shown_nodes)
  show ?thesis
    using names assms(4,5) shown_mirror [OF assms(1,2) _ assms(5,6)] unfolding cl by meson
qed

theorem cluster_view_migrations_are_paired_witness:
  "\<exists>cl n sr. cluster_store_to_cluster example_cluster = Some cl \<and> n \<in> set (cl_nodes cl) \<and> sr \<in> set (nd_slots n) \<and>
     tag_is_migrating (sr_tag sr) \<and> tag_names (sr_tag sr) n"
proof -
  have ok: "chunks_ok (cs_chunks example_cluster)" "mirrored (cs_chunks example_cluster)"
    using example_slots_inv by (simp_all add: example_cluster_def slots_inv_def)
  let ?cl = "shown_cluster example_cluster" and ?e = "example_entry True" and ?cs = "cs_chunks example_cluster"
  have cl: "cluster_store_to_cluster example_cluster = Some ?cl" by (rule cluster_store_to_cluster_shown [OF ok(1)])
  have e: "?e \<in> set (all_entries ?cs)" by (simp add: example_cluster_def example_chunks_def chunk_entries_eq)
  obtain n where n: "n \<in> set (cl_nodes ?cl)" "entry_slot_range ?cs ?e \<in> set (nd_slots n)"
    using entry_shown [OF ok(1) e] by (auto simp: shown_cluster_def)
  have "tag_is_migrating (sr_tag (entry_slot_range ?cs ?e))" by (simp add: entry_slot_range_def example_entry_def)
  then show ?thesis
    using cluster_view_migrations_are_paired [OF ok(2,1) cl n] cl n by fastforce
qed

end
