(* ===== verification/UM_Registry.thy ===== *)
theory UM_Registry
  imports UM_Query
begin

section \<open>The registry of proxies: what check\_metadata checks\<close>

text \<open>
  An abstract view of the store: which proxies there are, and which cluster has which members (a
  proxy with its host and its two nodes). \<open>check_metadata\<close> accepts a store exactly when
  the two sides agree. Every operation that moves proxies between clusters is one abstract step,
  \<open>reassign\<close>: a cluster gets a new list of members, the new ones marked as its own and
  the dropped ones freed; it keeps the agreement.
\<close>

type_synonym member = "address \<times> string \<times> address arr2"

definition chunk_members :: "chunk_store \<Rightarrow> member list" where
  "chunk_members chunk =
     map (\<lambda>i. (part i (proxy_addresses chunk), part i (hosts chunk), part i (node_addresses chunk))) [0, 1]"

definition members_of :: "chunk_store list \<Rightarrow> member list" where
  "members_of chunks = concat (map chunk_members chunks)"

definition member_addrs :: "member list \<Rightarrow> address set" where
  "member_addrs ms = fst ` set ms"

record registry =
  reg_proxies :: "address \<rightharpoonup> proxy_resource"
  reg_members :: "cluster_name \<rightharpoonup> member list"

definition members_of_name :: "registry \<Rightarrow> cluster_name \<Rightarrow> member list" where
  "members_of_name r name = (case reg_members r name of None \<Rightarrow> [] | Some ms \<Rightarrow> ms)"

definition member_ok :: "registry \<Rightarrow> cluster_name option set \<Rightarrow> member \<Rightarrow> bool" where
  "member_ok r names m \<longleftrightarrow>
     (\<exists>pr. reg_proxies r (fst m) = Some pr \<and> pr_cluster pr \<in> names
        \<and> pr_host pr = fst (snd m) \<and> pr_node_addresses pr = snd (snd m))"

definition consistent :: "registry \<Rightarrow> bool" where
  "consistent r \<longleftrightarrow>
     (\<forall>a pr. reg_proxies r a = Some pr \<longrightarrow> pr_proxy_address pr = a) \<and>
     (\<forall>name ms. reg_members r name = Some ms \<longrightarrow>
        distinct (map fst ms) \<and> (\<forall>m \<in> set ms. member_ok r {Some name} m)) \<and>
     (\<forall>a pr name. reg_proxies r a = Some pr \<longrightarrow> pr_cluster pr = Some name \<longrightarrow>
        (\<exists>ms. reg_members r name = Some ms \<and> a \<in> member_addrs ms))"

definition set_owner :: "cluster_name option \<Rightarrow> proxy_resource \<Rightarrow> proxy_resource" where
  "set_owner n pr = pr\<lparr>pr_cluster := n\<rparr>"

definition reassign :: "cluster_name \<Rightarrow> member list option \<Rightarrow> registry \<Rightarrow> registry" where
  "reassign name new r =
     (let ms = (case new of None \<Rightarrow> [] | Some ms \<Rightarrow> ms) in
      \<lparr>reg_proxies = (\<lambda>a.
         if a \<in> member_addrs ms then map_option (set_owner (Some name)) (reg_proxies r a)
         else if a \<in> member_addrs (members_of_name r name) then map_option (set_owner None) (reg_proxies r a)
         else reg_proxies r a),
       reg_members = (reg_members r)(name := new)\<rparr>)"

lemma set_owner_simps [simp]:
  "pr_cluster (set_owner n pr) = n" "pr_host (set_owner n pr) = pr_host pr"
  "pr_node_addresses (set_owner n pr) = pr_node_addresses pr"
  "pr_proxy_address (set_owner n pr) = pr_proxy_address pr"
  by (simp_all add: set_owner_def)

lemma member_addrs_simps [simp]:
  "member_addrs [] = {}" "member_addrs (m # ms) = insert (fst m) (member_addrs ms)"
  "member_addrs (xs @ ys) = member_addrs xs \<union> member_addrs ys"
  by (auto simp: member_addrs_def)

lemma consistent_owner:
  "consistent r \<Longrightarrow> a \<in> member_addrs (members_of_name r name) \<Longrightarrow>
     \<exists>pr. reg_proxies r a = Some pr \<and> pr_cluster pr = Some name"
  by (cases "reg_members r name")
    (force simp: consistent_def members_of_name_def member_addrs_def member_ok_def)+

lemma reassign_owner:
  assumes "consistent r" and "\<forall>m \<in> set (case new of None \<Rightarrow> [] | Some ms \<Rightarrow> ms). member_ok r {None, Some name} m"
    and "reg_proxies r a = Some pr" "pr_cluster pr = Some name'" "name' \<noteq> name"
  shows "reg_proxies (reassign name new r) a = Some pr"
proof -
  have "a \<notin> member_addrs (members_of_name r name)"
    using consistent_owner [OF assms(1), of a name] assms(3-5) by auto
  moreover have "a \<notin> member_addrs (case new of None \<Rightarrow> [] | Some ms \<Rightarrow> ms)"
    using assms(2-5) by (force simp: member_addrs_def member_ok_def)
  ultimately show ?thesis using assms(3) by (simp add: reassign_def Let_def)
qed

text \<open>The one step every reassignment of proxies refines.\<close>

lemma reassign_consistent:
  assumes c: "consistent r" and d: "distinct (map fst (case new of None \<Rightarrow> [] | Some ms \<Rightarrow> ms))"
    and ok: "\<forall>m \<in> set (case new of None \<Rightarrow> [] | Some ms \<Rightarrow> ms). member_ok r {None, Some name} m"
  shows "consistent (reassign name new r)"
proof -
  let ?ms = "case new of None \<Rightarrow> [] | Some ms \<Rightarrow> ms" and ?r = "reassign name new r"
  have addr: "pr_proxy_address pr = a" if "reg_proxies ?r a = Some pr" for a pr
    using that c by (auto simp: reassign_def consistent_def Let_def split: if_splits)
  have mem: "distinct (map fst ms) \<and> (\<forall>m \<in> set ms. member_ok ?r {Some name'} m)"
    if ms: "reg_members ?r name' = Some ms" for name' ms
  proof (cases "name' = name")
    case True
    with ms have new: "new = Some ms" by (simp add: reassign_def Let_def)
    have "member_ok ?r {Some name} m" if "m \<in> set ms" for m
    proof -
      have "fst m \<in> member_addrs ms" using that by (simp add: member_addrs_def)
      with ok that show ?thesis by (fastforce simp: new member_ok_def reassign_def Let_def)
    qed
    with True d show ?thesis by (simp add: new)
  next
    case False
    with ms c have old: "distinct (map fst ms)" "\<And>m. m \<in> set ms \<Longrightarrow> member_ok r {Some name'} m"
      by (auto simp: reassign_def consistent_def Let_def)
    have "member_ok ?r {Some name'} m" if "m \<in> set ms" for m
      using old(2) [OF that] reassign_owner [OF c ok, of "fst m" _ name'] False
      by (auto simp: member_ok_def)
    with old(1) show ?thesis by blast
  qed
  have own: "\<exists>ms. reg_members ?r name' = Some ms \<and> a \<in> member_addrs ms"
    if pr: "reg_proxies ?r a = Some pr" "pr_cluster pr = Some name'" for a pr name'
  proof (cases "a \<in> member_addrs ?ms")
    case True
    with pr have "name' = name" by (auto simp: reassign_def Let_def)
    with True show ?thesis by (cases new) (auto simp: reassign_def Let_def)
  next
    case False
    with pr have a: "a \<notin> member_addrs (members_of_name r name)" and "reg_proxies r a = Some pr"
      by (auto simp: reassign_def Let_def split: if_splits)
    with c pr(2) obtain ms where ms: "reg_members r name' = Some ms" "a \<in> member_addrs ms"
      unfolding consistent_def by blast
    with a have "name' \<noteq> name" by (auto simp: members_of_name_def)
    with ms show ?thesis by (simp add: reassign_def Let_def)
  qed
  show ?thesis unfolding consistent_def using addr mem own by blast
qed


subsection \<open>The registry of a store\<close>

definition registry_of :: "meta_store \<Rightarrow> registry" where
  "registry_of s =
     \<lparr>reg_proxies = hm_get (all_proxies s),
      reg_members = (\<lambda>name. map_option (\<lambda>c. members_of (cs_chunks c)) (hm_get (clusters s) name))\<rparr>"

definition keyed :: "meta_store \<Rightarrow> bool" where
  "keyed s \<longleftrightarrow> hm_inv (clusters s) \<and> hm_inv (all_proxies s) \<and>
     (\<forall>a pr. hm_get (all_proxies s) a = Some pr \<longrightarrow> pr_proxy_address pr = a)"

lemma members_of_simps [simp]:
  "members_of [] = []" "members_of (c # cs) = chunk_members c @ members_of cs"
  "members_of (xs @ ys) = members_of xs @ members_of ys"
  by (simp_all add: members_of_def)

definition seen_after :: "meta_store \<Rightarrow> member list \<Rightarrow> address list \<Rightarrow> address list" where
  "seen_after s ms seen = rev (map fst (filter (\<lambda>m. hm_get (all_proxies s) (fst m) \<noteq> None) ms)) @ seen"

lemma check_chunk_proxy_eq:
  assumes "i < 2" "keyed s" "m = (part i (proxy_addresses chunk), part i (hosts chunk), part i (node_addresses chunk))"
  shows "check_chunk_proxy s name chunk i (ok, seen) =
    (ok \<and> member_ok (registry_of s) {Some name} m \<and> fst m \<notin> set seen, seen_after s [m] seen)"
  using assms
  by (cases "hm_get (all_proxies s) (part i (proxy_addresses chunk))")
    (auto simp: check_chunk_proxy_def Let_def member_ok_def registry_of_def seen_after_def keyed_def)

lemma fold_check_chunks:
  assumes k: "keyed s"
  shows "fst (fold (\<lambda>chunk st. check_chunk_proxy s name chunk 1 (check_chunk_proxy s name chunk 0 st)) chunks (ok, seen))
    \<longleftrightarrow> ok \<and> (\<forall>m \<in> set (members_of chunks). member_ok (registry_of s) {Some name} m)
       \<and> distinct (map fst (members_of chunks)) \<and> set (map fst (members_of chunks)) \<inter> set seen = {}"
proof (induction chunks arbitrary: ok seen)
  case (Cons chunk chunks)
  let ?m = "\<lambda>i. (part i (proxy_addresses chunk), part i (hosts chunk), part i (node_addresses chunk))"
  let ?R = "registry_of s"
  have found: "member_ok ?R {Some name} m \<Longrightarrow> hm_get (all_proxies s) (fst m) \<noteq> None" for m
    by (auto simp: member_ok_def registry_of_def)
  have "fst (fold (\<lambda>chunk st. check_chunk_proxy s name chunk 1 (check_chunk_proxy s name chunk 0 st)) (chunk # chunks) (ok, seen))
    \<longleftrightarrow> (ok \<and> member_ok ?R {Some name} (?m 0) \<and> fst (?m 0) \<notin> set seen)
        \<and> (member_ok ?R {Some name} (?m 1) \<and> fst (?m 1) \<notin> set (seen_after s [?m 0] seen))
        \<and> (\<forall>m \<in> set (members_of chunks). member_ok ?R {Some name} m)
        \<and> distinct (map fst (members_of chunks))
        \<and> set (map fst (members_of chunks)) \<inter> set (seen_after s [?m 1] (seen_after s [?m 0] seen)) = {}"
    by (simp add: check_chunk_proxy_eq [OF _ k refl, of 0] check_chunk_proxy_eq [OF _ k refl, of "Suc 0"] Cons.IH [unfolded One_nat_def])
  also have "\<dots> \<longleftrightarrow> ok \<and> (\<forall>m \<in> set (members_of (chunk # chunks)). member_ok ?R {Some name} m)
       \<and> distinct (map fst (members_of (chunk # chunks)))
       \<and> set (map fst (members_of (chunk # chunks))) \<inter> set seen = {}"
    using found [of "?m 0"] found [of "?m 1"]
    by (auto simp: chunk_members_def seen_after_def)
  finally show ?case .
qed simp

lemma chunk_addr_members:
  "List.member (arr2_list (proxy_addresses chunk)) a \<longleftrightarrow> a \<in> member_addrs (chunk_members chunk)"
  by (auto simp: chunk_members_def member_addrs_def)

lemma member_addrs_members_of:
  "a \<in> member_addrs (members_of chunks) \<longleftrightarrow> (\<exists>chunk \<in> set chunks. a \<in> member_addrs (chunk_members chunk))"
  by (induction chunks) auto

lemma check_proxy_iff:
  "check_proxy s a pr \<longleftrightarrow>
     (\<forall>name. pr_cluster pr = Some name \<longrightarrow>
        (\<exists>ms. reg_members (registry_of s) name = Some ms \<and> a \<in> member_addrs ms))"
proof (cases "pr_cluster pr")
  case (Some name)
  then show ?thesis
    by (cases "hm_get (clusters s) name")
      (simp_all add: check_proxy_def registry_of_def find_None_iff member_addrs_members_of
        chunk_addr_members [symmetric] Bex_def del: not_None_eq)
qed (simp add: check_proxy_def)

lemma hm_list_all:
  "hm_inv m \<Longrightarrow> list_all (\<lambda>(k, v). P k v) m \<longleftrightarrow> (\<forall>k v. hm_get m k = Some v \<longrightarrow> P k v)"
  by (simp add: list_all_iff Ball_def hm.lookup_entries split_paired_All)

lemma check_metadata_iff:
  assumes k: "keyed s"
  shows "check_metadata s \<longleftrightarrow> consistent (registry_of s)"
proof -
  have inv: "hm_inv (clusters s)" "hm_inv (all_proxies s)" using k by (simp_all add: keyed_def)
  have one: "check_cluster s name c \<longleftrightarrow> distinct (map fst (members_of (cs_chunks c)))
      \<and> (\<forall>m \<in> set (members_of (cs_chunks c)). member_ok (registry_of s) {Some name} m)" for name c
    by (simp add: check_cluster_def fold_check_chunks [OF k, simplified One_nat_def] conj_commute)
  have mem: "reg_members (registry_of s) name = Some ms \<longleftrightarrow>
      (\<exists>c. hm_get (clusters s) name = Some c \<and> ms = members_of (cs_chunks c))" for name ms
    by (auto simp: registry_of_def)
  have cl: "list_all (\<lambda>(name, c). check_cluster s name c) (clusters s) \<longleftrightarrow>
    (\<forall>name ms. reg_members (registry_of s) name = Some ms \<longrightarrow>
        distinct (map fst ms) \<and> (\<forall>m \<in> set ms. member_ok (registry_of s) {Some name} m))"
    unfolding hm_list_all [OF inv(1)] one mem by blast
  have px: "list_all (\<lambda>(a, pr). check_proxy s a pr) (all_proxies s) \<longleftrightarrow>
    (\<forall>a pr name. reg_proxies (registry_of s) a = Some pr \<longrightarrow> pr_cluster pr = Some name \<longrightarrow>
        (\<exists>ms. reg_members (registry_of s) name = Some ms \<and> a \<in> member_addrs ms))"
    unfolding hm_list_all [OF inv(2)] check_proxy_iff by (simp add: registry_of_def)
  have "(\<forall>a pr. reg_proxies (registry_of s) a = Some pr \<longrightarrow> pr_proxy_address pr = a)"
    using k by (simp add: registry_of_def keyed_def)
  then show ?thesis unfolding check_metadata_def cl px consistent_def by blast
qed

end
