(* ===== verification/UM_Alloc.thy ===== *)
theory UM_Alloc
  imports UM_Registry
begin

section \<open>Allocation of free proxies (src/broker/update.rs)\<close>

text \<open>
  How the broker picks the proxies of new chunks: the free proxies are grouped by host, the host
  with too many of them is trimmed, and pairs are formed from the host with the most free proxies
  and the host it shares the fewest chunks with. The second way, for ordered proxies (a Kubernetes
  stateful set), takes the proxies with consecutive indices. Both keep the contract
  \<open>free_proxy_allocator\<close> that \<open>add_cluster\<close> and \<open>auto_add_nodes\<close> rely
  on. The numbers of proxies are lengths of lists in memory and do not overflow.
\<close>


subsection \<open>Free proxies by host\<close>

type_synonym host_proxies = "(string, address list) hashmap"
type_synonym link_table = "(string, (string, usize) hashmap) hashmap"

definition generate_free_host_proxies :: "meta_store \<Rightarrow> host_proxies" where
  "generate_free_host_proxies s =
     fold (\<lambda>hp m. hm_modify (hp_host hp) (\<lambda>ps. ps @ [hp_proxy_address hp]) (hm_or_insert (hp_host hp) [] m))
       (get_free_proxies s) []"

definition hp_sum :: "host_proxies \<Rightarrow> usize" where
  "hp_sum m = sum_list (map length (hm_values m))"

definition hp_max :: "host_proxies \<Rightarrow> usize" where
  "hp_max m = fold max (map length (hm_values m)) 0"

text \<open>The loop over one host: it pops proxies as long as the host has more than half of all.\<close>

function pop_redundant :: "address list \<Rightarrow> usize \<Rightarrow> usize \<Rightarrow> address list \<times> usize" where
  "pop_redundant proxies max_proxy_num free_proxy_num =
     (if max_proxy_num * 2 > free_proxy_num
      then pop_redundant (butlast proxies) (max_proxy_num - 1) (usize_sub free_proxy_num 1)
      else (proxies, free_proxy_num))"
  by pat_completeness auto
termination
  by (relation "measure (\<lambda>(_, mx, _). mx)") auto

declare pop_redundant.simps [simp del]

fun trim_first_max :: "usize \<Rightarrow> usize \<Rightarrow> host_proxies \<Rightarrow> host_proxies \<times> usize" where
  "trim_first_max mx free [] = ([], free)"
| "trim_first_max mx free ((host, proxies) # m) =
     (if length proxies = mx
      then (let (proxies', free') = pop_redundant proxies mx free in ((host, proxies') # m, free'))
      else (let (m', free') = trim_first_max mx free m in ((host, proxies) # m', free')))"

definition remove_redundant_chunks :: "host_proxies \<Rightarrow> usize \<Rightarrow> host_proxies outcome" where
  "remove_redundant_chunks m expected_num =
     (let (m', free) = trim_first_max (hp_max m) (hp_sum m) m
      in if free < expected_num then Err NoAvailableResource else Ok m')"


subsection \<open>How many chunks two hosts share\<close>

definition link_entry :: "string \<Rightarrow> string \<Rightarrow> link_table \<Rightarrow> link_table" where
  "link_entry a b t = hm_modify a (hm_or_insert b 0) (hm_or_insert a [] t)"

definition link_inc :: "string \<Rightarrow> string \<Rightarrow> link_table \<Rightarrow> link_table" where
  "link_inc a b t = hm_modify a (hm_modify b (\<lambda>c. usize_add c 1)) t"

definition free_hosts :: "meta_store \<Rightarrow> string list" where
  "free_hosts s = remdups (map pr_host (filter (\<lambda>pr. pr_cluster pr = None) (hm_values (all_proxies s))))"

definition link_hosts :: "string list \<Rightarrow> string \<Rightarrow> string \<Rightarrow> link_table \<Rightarrow> link_table" where
  "link_hosts free first_host second_host t =
     (if first_host = second_host then t
      else if \<not> List.member free first_host \<and> \<not> List.member free second_host then t
      else link_entry second_host first_host (link_entry first_host second_host t))"

definition link_chunk :: "chunk_store \<Rightarrow> link_table \<Rightarrow> link_table" where
  "link_chunk chunk t =
     (let first_host = fst (hosts chunk); second_host = snd (hosts chunk);
          t1 = link_inc first_host second_host (link_entry first_host second_host t)
      in link_inc second_host first_host (link_entry second_host first_host t1))"

definition build_link_table :: "meta_store \<Rightarrow> link_table" where
  "build_link_table s =
     (let free = free_hosts s;
          proxies = hm_values (all_proxies s);
          t = fold (\<lambda>p1. fold (\<lambda>p2. link_hosts free (pr_host p1) (pr_host p2)) proxies) proxies []
      in fold (\<lambda>c. fold link_chunk (cs_chunks c)) (hm_values (clusters s)) t)"

definition second_host_cmp ::
  "string \<Rightarrow> usize \<Rightarrow> string \<Rightarrow> usize \<Rightarrow> host_proxies \<Rightarrow> ordering option" where
  "second_host_cmp host1 count1 host2 count2 free_host_proxies =
     (if usize_cmp count1 count2 \<noteq> Equal then Some (usize_cmp count1 count2)
      else
        (case (hm_get free_host_proxies host1, hm_get free_host_proxies host2) of
           (Some ps1, Some ps2) \<Rightarrow> Some (usize_cmp (length ps2) (length ps1))
         | _ \<Rightarrow> None))"


subsection \<open>Forming the pairs\<close>

text \<open>One round of the loop; None is a panic.\<close>

definition pop_max_host :: "host_proxies \<Rightarrow> (string \<times> address \<times> host_proxies) option" where
  "pop_max_host m =
     (case max_by_key (\<lambda>(_, proxies). length proxies) m of
        None \<Rightarrow> None
      | Some (host, proxies) \<Rightarrow>
          if proxies = [] then None else Some (host, last proxies, hm_modify host butlast m))"

definition second_candidates :: "string \<Rightarrow> host_proxies \<Rightarrow> (string, usize) hashmap \<Rightarrow> (string \<times> usize) list" where
  "second_candidates first_host m peers =
     filter (\<lambda>(host, _). host \<noteq> first_host \<and> hm_get m host \<noteq> None \<and> hm_get m host \<noteq> Some []) peers"

definition pop_second_host ::
  "string \<Rightarrow> host_proxies \<Rightarrow> link_table \<Rightarrow> (string \<times> address \<times> host_proxies) option" where
  "pop_second_host first_host m t =
     (case hm_get t first_host of
        None \<Rightarrow> None
      | Some peers \<Rightarrow>
          (case min_by (\<lambda>(host1, count1) (host2, count2). second_host_cmp host1 count1 host2 count2 m)
                  (second_candidates first_host m peers) of
             Some (Some (second_host, _)) \<Rightarrow>
               (case hm_get m second_host of
                  None \<Rightarrow> None
                | Some proxies \<Rightarrow>
                    if proxies = [] then None
                    else Some (second_host, last proxies, hm_modify second_host butlast m))
           | _ \<Rightarrow> None))"

definition link_get :: "link_table \<Rightarrow> string \<Rightarrow> string \<Rightarrow> usize option" where
  "link_get t a b = (case hm_get t a of None \<Rightarrow> None | Some peers \<Rightarrow> hm_get peers b)"

definition alloc_step :: "host_proxies \<Rightarrow> link_table \<Rightarrow> (address arr2 \<times> host_proxies \<times> link_table) option" where
  "alloc_step m t =
     (case pop_max_host m of
        None \<Rightarrow> None
      | Some (first_host, first_address, m1) \<Rightarrow>
          (case pop_second_host first_host m1 t of
             None \<Rightarrow> None
           | Some (second_host, second_address, m2) \<Rightarrow>
               if link_get t first_host second_host = None \<or> link_get t second_host first_host = None then None
               else Some ((first_address, second_address), m2,
                      link_inc second_host first_host (link_inc first_host second_host t))))"

function alloc_loop ::
  "usize \<Rightarrow> address arr2 list \<Rightarrow> host_proxies \<Rightarrow> link_table \<Rightarrow> address arr2 list option" where
  "alloc_loop expected_num pairs m t =
     (if length pairs * 2 < expected_num then
        (case alloc_step m t of
           None \<Rightarrow> None
         | Some (p, m', t') \<Rightarrow> alloc_loop expected_num (pairs @ [p]) m' t')
      else Some pairs)"
  by pat_completeness auto
termination
  by (relation "measure (\<lambda>(n, pairs, _). n - length pairs * 2)") auto

declare alloc_loop.simps [simp del]

definition allocate_chunk :: "host_proxies \<Rightarrow> link_table \<Rightarrow> usize \<Rightarrow> address arr2 list outcome" where
  "allocate_chunk m t expected_num =
     (if hp_sum m < expected_num then Err NoAvailableResource
      else if hp_max m * 2 > hp_sum m then Err ResourceNotBalance
      else (case alloc_loop expected_num [] m t of None \<Rightarrow> Panic | Some pairs \<Rightarrow> Ok pairs))"


subsection \<open>The two allocators\<close>

definition resource_pair :: "meta_store \<Rightarrow> address arr2 \<Rightarrow> proxy_resource arr2 option" where
  "resource_pair s p =
     (case (hm_get (all_proxies s) (fst p), hm_get (all_proxies s) (snd p)) of
        (Some a, Some b) \<Rightarrow> Some (a, b)
      | _ \<Rightarrow> None)"

definition generate_free_chunks :: "meta_store \<Rightarrow> usize \<Rightarrow> proxy_resource arr2 list outcome" where
  "generate_free_chunks s proxy_num =
     (case remove_redundant_chunks (generate_free_host_proxies s) proxy_num of
        Err e \<Rightarrow> Err e
      | Panic \<Rightarrow> Panic
      | Ok m \<Rightarrow>
          (case allocate_chunk m (build_link_table s) proxy_num of
             Err e \<Rightarrow> Err e
           | Panic \<Rightarrow> Panic
           | Ok pairs \<Rightarrow>
               (case those (map (resource_pair s) pairs) of None \<Rightarrow> Panic | Some ps \<Rightarrow> Ok ps)))"

fun consecutive :: "usize \<Rightarrow> usize list \<Rightarrow> bool" where
  "consecutive last_index [] = True"
| "consecutive last_index (i # is) = (usize_add last_index 1 = i \<and> consecutive i is)"

fun pair_up :: "'a list \<Rightarrow> 'a arr2 list option" where
  "pair_up [] = Some []"
| "pair_up [x] = None"
| "pair_up (x # y # xs) = map_option (Cons (x, y)) (pair_up xs)"

definition generate_free_chunks_for_ordered_proxy_index ::
  "meta_store \<Rightarrow> usize \<Rightarrow> usize \<Rightarrow> proxy_resource arr2 list outcome" where
  "generate_free_chunks_for_ordered_proxy_index s proxy_num first_index =
     (let host_proxies = get_free_proxy_resource s in
      if length host_proxies < proxy_num then Err NoAvailableResource
      else
        (let host_proxies = take proxy_num (sort_key pr_index host_proxies);
             ordered = (case map pr_index host_proxies of
                          [] \<Rightarrow> True
                        | i # is \<Rightarrow> i = first_index \<and> consecutive i is)
         in if \<not> ordered then Err ProxyResourceOutOfOrder
            else (case pair_up host_proxies of None \<Rightarrow> Err InvalidNodeNum | Some ps \<Rightarrow> Ok ps)))"

text \<open>A replacement for a failed proxy.\<close>

definition generate_new_free_proxy :: "meta_store \<Rightarrow> address \<Rightarrow> proxy_resource outcome" where
  "generate_new_free_proxy s failed_proxy_address =
     (let m = generate_free_host_proxies s; t = build_link_table s in
      case hm_get (all_proxies s) failed_proxy_address of
        None \<Rightarrow> Err ProxyNotFound
      | Some failed \<Rightarrow>
          (case hm_get t (pr_host failed) of
             None \<Rightarrow> Panic
           | Some link_count_table \<Rightarrow>
               (case min_by (\<lambda>(host1, count1) (host2, count2). second_host_cmp host1 count1 host2 count2 m)
                       (filter (\<lambda>(peer_host, _). hm_contains_key m peer_host) link_count_table) of
                  None \<Rightarrow> Panic
                | Some None \<Rightarrow> Err NoAvailableResource
                | Some (Some (peer_host, _)) \<Rightarrow>
                    (case find (\<lambda>hp. hp_host hp = peer_host) (get_free_proxies s) of
                       None \<Rightarrow> Panic
                     | Some hp \<Rightarrow>
                         (case hm_get (all_proxies s) (hp_proxy_address hp) of
                            None \<Rightarrow> Panic
                          | Some pr \<Rightarrow> Ok pr)))))"


subsection \<open>Sums and maxima\<close>

lemma fold_max_ge: "x \<in> insert a (set xs) \<Longrightarrow> x \<le> fold max xs (a::nat)"
  using Max_ge [of "insert a (set xs)" x] by (simp add: Max.set_eq_fold [symmetric])

lemma fold_max_in: "fold max xs (a::nat) \<in> insert a (set xs)"
  by (induction xs arbitrary: a) (auto simp: max_def)

lemma hp_max_ge: "(h, ps) \<in> set m \<Longrightarrow> length ps \<le> hp_max m"
  unfolding hp_max_def hm_values_def by (intro fold_max_ge) force

lemma hp_max_le: "(\<And>h ps. (h, ps) \<in> set m \<Longrightarrow> length ps \<le> n) \<Longrightarrow> hp_max m \<le> n"
  using fold_max_in [of "map length (hm_values m)" 0] by (auto simp: hp_max_def hm_values_def)

lemma hp_max_attained: "hp_max m \<noteq> 0 \<Longrightarrow> \<exists>h ps. (h, ps) \<in> set m \<and> length ps = hp_max m"
  using fold_max_in [of "map length (hm_values m)" 0] by (force simp: hp_max_def hm_values_def)

lemma hp_sum_Nil [simp]: "hp_sum [] = 0"
  by (simp add: hp_sum_def hm_values_def)

lemma hp_sum_Cons [simp]: "hp_sum ((h, ps) # m) = length ps + hp_sum m"
  by (simp add: hp_sum_def hm_values_def)

lemma hp_sum_ge: "(h, ps) \<in> set m \<Longrightarrow> length ps \<le> hp_sum m"
  by (induction m) auto

lemma hp_max_le_sum: "hp_max m \<le> hp_sum m"
  by (rule hp_max_le) (rule hp_sum_ge)

definition hp_all :: "host_proxies \<Rightarrow> address multiset" where
  "hp_all m = mset (concat (hm_values m))"

lemma hp_all_simps [simp]: "hp_all [] = {#}" "hp_all ((h, ps) # m) = mset ps + hp_all m"
  by (simp_all add: hp_all_def hm_values_def)

lemma size_hp_all: "size (hp_all m) = hp_sum m"
  by (induction m) auto

lemma hp_all_modify:
  assumes "hm_inv m" "hm_get m h = Some ps"
  shows "hp_all (hm_modify h f m) + mset ps = hp_all m + mset (f ps)"
  using assms
proof (induction m)
  case (Cons x m)
  obtain h' ps' where x: "x = (h', ps')" by fastforce
  have keep: "h \<notin> set (hm_keys m) \<Longrightarrow> hm_modify h f m = m"
    by (induction m) (auto simp: hm_modify_def hm_keys_def)
  show ?case
  proof (cases "h' = h")
    case True
    with Cons.prems have "h \<notin> set (hm_keys m)" "ps' = ps" by (auto simp: x hm_inv_def hm_keys_def hm_get_def)
    with keep True show ?thesis by (simp add: x hm_modify_def ac_simps)
  next
    case False
    with Cons show ?thesis by (simp add: x hm_inv_def hm_keys_def hm_get_def hm_modify_def ac_simps)
  qed
qed simp

lemma hp_all_pop:
  assumes "hm_inv m" "hm_get m h = Some ps" "ps \<noteq> []"
  shows "hp_all m = add_mset (last ps) (hp_all (hm_modify h butlast m))"
proof -
  have "mset ps = add_mset (last ps) (mset (butlast ps))"
    using assms(3) by (metis append_butlast_last_id mset.simps(2) mset_append add_mset_add_single mset.simps(1))
  with hp_all_modify [OF assms(1,2), of butlast] show ?thesis by simp
qed

lemma hp_sum_pop:
  "hm_inv m \<Longrightarrow> hm_get m h = Some ps \<Longrightarrow> ps \<noteq> [] \<Longrightarrow> hp_sum m = Suc (hp_sum (hm_modify h butlast m))"
  using hp_all_pop [of m h ps] by (simp flip: size_hp_all)

lemma hp_sum_modify:
  "hm_inv m \<Longrightarrow> hm_get m h = Some ps \<Longrightarrow> hp_sum (hm_modify h f m) + length ps = hp_sum m + length (f ps)"
  by (drule (1) hp_all_modify [of m h ps f], drule arg_cong [of _ _ size], simp add: size_hp_all)

lemma hp_sum_pos: "0 < hp_sum m \<Longrightarrow> \<exists>h ps. (h, ps) \<in> set m \<and> ps \<noteq> []"
proof (induction m)
  case (Cons x m)
  obtain h ps where x: "x = (h, ps)" by fastforce
  then show ?case using Cons by (cases "ps = []") auto
qed simp

text \<open>Two hosts never have more than all hosts together, and what one host lacks another one has.\<close>

lemma hp_sum_ge_two:
  assumes "hm_inv m" "hm_get m h = Some ps" "hm_get m h' = Some ps'" "h \<noteq> h'"
  shows "length ps + length ps' \<le> hp_sum m"
proof -
  have "hm_get (hm_modify h (\<lambda>_. []) m) h' = Some ps'" using assms(3,4) by simp
  then have "length ps' \<le> hp_sum (hm_modify h (\<lambda>_. []) m)" by (metis hm_get_in_set hp_sum_ge)
  with hp_sum_modify [OF assms(1,2), of "\<lambda>_. []"] show ?thesis by simp
qed

lemma hp_sum_other:
  assumes "hm_inv m" "hm_get m h = Some ps" "length ps < hp_sum m"
  shows "\<exists>h' ps'. h' \<noteq> h \<and> hm_get m h' = Some ps' \<and> ps' \<noteq> []"
proof -
  let ?m = "hm_modify h (\<lambda>_. []) m"
  from hp_sum_modify [OF assms(1,2), of "\<lambda>_. []"] assms(3) have "0 < hp_sum ?m" by simp
  then obtain h' ps' where "(h', ps') \<in> set ?m" "ps' \<noteq> []" using hp_sum_pos by blast
  then have "hm_get ?m h' = Some ps'" "ps' \<noteq> []" using assms(1) hm.lookup_entries [of ?m h' ps'] by auto
  then show ?thesis by (cases "h' = h") (auto simp: assms(2))
qed


subsection \<open>Trimming the host with too many proxies\<close>

lemma pop_redundant_eq:
  "length ps = mx \<Longrightarrow> mx \<le> free \<Longrightarrow>
     pop_redundant ps mx free = (take (free - mx) ps, min free (2 * (free - mx)))"
proof (induction ps mx free rule: pop_redundant.induct)
  case (1 ps mx free)
  show ?case
  proof (cases "mx * 2 > free")
    case True
    with "1.prems" have s: "usize_sub free 1 = free - 1" by (intro usize_sub_in_range) linarith
    have "pop_redundant (butlast ps) (mx - 1) (free - 1) =
        (take (free - 1 - (mx - 1)) (butlast ps), min (free - 1) (2 * (free - 1 - (mx - 1))))"
      using "1.IH" [OF True, unfolded s] "1.prems" True by simp
    moreover have "take (free - mx) (butlast ps) = take (free - mx) ps"
      using "1.prems" True by (simp add: butlast_conv_take take_take min_def)
    moreover have "free - 1 - (mx - 1) = free - mx" "min (free - 1) (2 * (free - mx)) = min free (2 * (free - mx))"
      using True "1.prems"(2) by (auto simp: min_def)
    moreover have "pop_redundant ps mx free = pop_redundant (butlast ps) (mx - 1) (free - 1)"
      by (subst pop_redundant.simps) (simp only: s True if_True)
    ultimately show ?thesis by simp
  next
    case False
    moreover have "take (free - mx) ps = ps" "min free (2 * (free - mx)) = free"
      using False "1.prems"(1,2) by (auto simp: min_def)
    ultimately show ?thesis by (subst pop_redundant.simps) simp
  qed
qed

text \<open>What is left of a host is a prefix of what it had.\<close>

definition hp_sub :: "host_proxies \<Rightarrow> host_proxies \<Rightarrow> bool" where
  "hp_sub m' m \<longleftrightarrow> hm_keys m' = hm_keys m \<and> hp_all m' \<subseteq># hp_all m \<and>
     (\<forall>h ps'. hm_get m' h = Some ps' \<longrightarrow> (\<exists>ps. hm_get m h = Some ps \<and> set ps' \<subseteq> set ps))"

lemma hp_sub_refl [simp]: "hp_sub m m"
  by (auto simp: hp_sub_def)

lemma hp_sub_trans:
  assumes "hp_sub a b" "hp_sub b c"
  shows "hp_sub a c"
  unfolding hp_sub_def
proof (intro conjI allI impI)
  show "hm_keys a = hm_keys c" using assms by (simp add: hp_sub_def)
  show "hp_all a \<subseteq># hp_all c" using assms unfolding hp_sub_def by (metis subset_mset.order_trans)
  fix h ps assume "hm_get a h = Some ps"
  with assms(1) obtain ps1 where "hm_get b h = Some ps1" "set ps \<subseteq> set ps1" unfolding hp_sub_def by blast
  moreover from this(1) assms(2) obtain ps2 where "hm_get c h = Some ps2" "set ps1 \<subseteq> set ps2"
    unfolding hp_sub_def by blast
  ultimately show "\<exists>ps2. hm_get c h = Some ps2 \<and> set ps \<subseteq> set ps2" by blast
qed

lemma hp_sub_inv: "hp_sub m' m \<Longrightarrow> hm_inv m' = hm_inv m"
  by (simp add: hp_sub_def hm_inv_def)

lemma mset_take_subset: "mset (take n xs) \<subseteq># mset xs"
proof -
  have "mset xs = mset (take n xs) + mset (drop n xs)" by (metis append_take_drop_id mset_append)
  then show ?thesis by simp
qed

lemma trim_first_max_spec:
  assumes "\<And>h ps. (h, ps) \<in> set m \<Longrightarrow> length ps \<le> mx" "\<exists>h ps. (h, ps) \<in> set m \<and> length ps = mx"
    "free = hp_sum m + r" "mx \<le> free"
  shows "\<exists>m'. trim_first_max mx free m = (m', min free (2 * (free - mx))) \<and> hp_sub m' m \<and>
    hp_sum m' + r = min free (2 * (free - mx)) \<and>
    (\<forall>h ps. (h, ps) \<in> set m' \<longrightarrow> length ps \<le> min mx (free - mx))"
  using assms
proof (induction m arbitrary: r)
  case (Cons x m)
  obtain h ps where x: "x = (h, ps)" by fastforce
  show ?case
  proof (cases "length ps = mx")
    case True
    have others: "length qs \<le> min mx (free - mx)" if "(k, qs) \<in> set m" for k qs
      using hp_sum_ge [OF that] Cons.prems(1) [of k qs] that Cons.prems(3) True by (simp add: x)
    let ?m = "(h, take (free - mx) ps) # m"
    have "hp_sub ?m (x # m)"
      using set_take_subset [of "free - mx" ps] mset_take_subset [of "free - mx" ps]
      by (auto simp: hp_sub_def x hm_keys_def hm_get_def)
    moreover have "hp_sum ?m + r = min free (2 * (free - mx))"
      using Cons.prems(3,4) True by (simp add: x min_def)
    ultimately show ?thesis
      using True others pop_redundant_eq [OF True Cons.prems(4)] by (auto simp: x)
  next
    case False
    from Cons.IH [of "length ps + r"] Cons.prems False obtain m' where
      m': "trim_first_max mx free m = (m', min free (2 * (free - mx)))" "hp_sub m' m"
        "hp_sum m' + (length ps + r) = min free (2 * (free - mx))"
        "\<forall>h ps. (h, ps) \<in> set m' \<longrightarrow> length ps \<le> min mx (free - mx)"
      by (auto simp: x)
    obtain k qs where k: "(k, qs) \<in> set m" "length qs = mx" using Cons.prems(2) False by (auto simp: x)
    then have "length ps \<le> min mx (free - mx)"
      using hp_sum_ge [OF k(1)] Cons.prems(1) [of h ps] Cons.prems(3) by (simp add: x)
    moreover have "hp_sub ((h, ps) # m') (x # m)"
      using m'(2) by (auto simp: hp_sub_def x hm_keys_def hm_get_def)
    ultimately show ?thesis using m' False by (auto simp: x)
  qed
qed simp


lemma remove_redundant_chunks_spec:
  "\<exists>m'. remove_redundant_chunks m n =
      (if min (hp_sum m) (2 * (hp_sum m - hp_max m)) < n then Err NoAvailableResource else Ok m') \<and>
    hp_sub m' m \<and> hp_sum m' = min (hp_sum m) (2 * (hp_sum m - hp_max m)) \<and> 2 * hp_max m' \<le> hp_sum m'"
proof (cases "m = []")
  case True
  then show ?thesis by (intro exI [of _ "[]"]) (simp add: remove_redundant_chunks_def hp_max_def hm_values_def)
next
  case False
  let ?mx = "hp_max m" and ?free = "hp_sum m"
  have ge: "\<And>h ps. (h, ps) \<in> set m \<Longrightarrow> length ps \<le> ?mx" by (rule hp_max_ge)
  have ex: "\<exists>h ps. (h, ps) \<in> set m \<and> length ps = ?mx"
  proof (cases "?mx = 0")
    case True
    with False hp_max_ge [of _ _ m] show ?thesis by (metis le_zero_eq list.set_intros(1) neq_Nil_conv surj_pair)
  qed (rule hp_max_attained)
  have "\<exists>m'. trim_first_max ?mx ?free m = (m', min ?free (2 * (?free - ?mx))) \<and> hp_sub m' m \<and>
      hp_sum m' + 0 = min ?free (2 * (?free - ?mx)) \<and>
      (\<forall>h ps. (h, ps) \<in> set m' \<longrightarrow> length ps \<le> min ?mx (?free - ?mx))"
    by (rule trim_first_max_spec) (use ge ex hp_max_le_sum [of m] in \<open>simp_all\<close>)
  then obtain m' where
    m': "trim_first_max ?mx ?free m = (m', min ?free (2 * (?free - ?mx)))" "hp_sub m' m"
      "hp_sum m' = min ?free (2 * (?free - ?mx))" "\<And>h ps. (h, ps) \<in> set m' \<Longrightarrow> length ps \<le> min ?mx (?free - ?mx)"
    by (metis add_0_right)
  have "hp_max m' \<le> min ?mx (?free - ?mx)" by (rule hp_max_le [OF m'(4)])
  then have "2 * hp_max m' \<le> hp_sum m'" using m'(3) hp_max_le_sum [of m] by linarith
  with m' show ?thesis by (auto simp: remove_redundant_chunks_def)
qed



subsection \<open>The link table\<close>

text \<open>Which pairs of hosts have an entry.\<close>

definition linked :: "link_table \<Rightarrow> string \<Rightarrow> string \<Rightarrow> bool" where
  "linked t a b \<longleftrightarrow> link_get t a b \<noteq> None"

lemma linked_entry: "linked (link_entry a b t) x y \<longleftrightarrow> linked t x y \<or> x = a \<and> y = b"
  by (cases "hm_get t x") (auto simp: linked_def link_get_def link_entry_def split: option.splits)

lemma linked_inc [simp]: "linked (link_inc a b t) x y \<longleftrightarrow> linked t x y"
  by (cases "hm_get t x") (auto simp: linked_def link_get_def link_inc_def split: option.splits)

lemma linked_hosts:
  "linked (link_hosts free a b t) x y \<longleftrightarrow>
     linked t x y \<or> a \<noteq> b \<and> (a \<in> set free \<or> b \<in> set free) \<and> (x = a \<and> y = b \<or> x = b \<and> y = a)"
  by (auto simp: link_hosts_def linked_entry)

lemma linked_chunk:
  "linked (link_chunk chunk t) x y \<longleftrightarrow>
     linked t x y \<or> x = fst (hosts chunk) \<and> y = snd (hosts chunk) \<or> x = snd (hosts chunk) \<and> y = fst (hosts chunk)"
  by (auto simp: link_chunk_def Let_def linked_entry)

lemma linked_fold:
  assumes "\<And>p t. linked (f p t) x y \<longleftrightarrow> linked t x y \<or> Q p"
  shows "linked (fold f ps t) x y \<longleftrightarrow> linked t x y \<or> (\<exists>p \<in> set ps. Q p)"
  by (induction ps arbitrary: t) (auto simp: assms)

lemma linked_build:
  "linked (build_link_table s) x y \<longleftrightarrow>
     (x \<noteq> y \<and> (x \<in> set (free_hosts s) \<or> y \<in> set (free_hosts s)) \<and>
        x \<in> pr_host ` set (hm_values (all_proxies s)) \<and> y \<in> pr_host ` set (hm_values (all_proxies s))) \<or>
     (\<exists>c \<in> set (hm_values (clusters s)). \<exists>chunk \<in> set (cs_chunks c).
        x = fst (hosts chunk) \<and> y = snd (hosts chunk) \<or> x = snd (hosts chunk) \<and> y = fst (hosts chunk))"
proof -
  let ?P = "\<lambda>(p1::proxy_resource) (p2::proxy_resource). pr_host p1 \<noteq> pr_host p2 \<and> (pr_host p1 \<in> set (free_hosts s) \<or> pr_host p2 \<in> set (free_hosts s))
      \<and> (x = pr_host p1 \<and> y = pr_host p2 \<or> x = pr_host p2 \<and> y = pr_host p1)"
  have inner: "linked (fold (\<lambda>p2. link_hosts (free_hosts s) (pr_host p1) (pr_host p2)) ps t) x y \<longleftrightarrow>
      linked t x y \<or> (\<exists>p2 \<in> set ps. ?P p1 p2)" for p1 ps t
    by (rule linked_fold) (rule linked_hosts)
  have outer: "linked (fold (\<lambda>p1. fold (\<lambda>p2. link_hosts (free_hosts s) (pr_host p1) (pr_host p2)) ps) ps' t) x y \<longleftrightarrow>
      linked t x y \<or> (\<exists>p1 \<in> set ps'. \<exists>p2 \<in> set ps. ?P p1 p2)" for ps ps' t
    by (rule linked_fold) (rule inner)
  have chunks: "linked (fold link_chunk cs t) x y \<longleftrightarrow> linked t x y \<or> (\<exists>chunk \<in> set cs.
      x = fst (hosts chunk) \<and> y = snd (hosts chunk) \<or> x = snd (hosts chunk) \<and> y = fst (hosts chunk))" for cs t
    by (rule linked_fold) (rule linked_chunk)
  have cl: "linked (fold (\<lambda>c. fold link_chunk (cs_chunks c)) cs t) x y \<longleftrightarrow>
      linked t x y \<or> (\<exists>c \<in> set cs. \<exists>chunk \<in> set (cs_chunks c).
      x = fst (hosts chunk) \<and> y = snd (hosts chunk) \<or> x = snd (hosts chunk) \<and> y = fst (hosts chunk))" for cs t
    by (rule linked_fold) (rule chunks)
  have "\<not> linked [] x y" by (simp add: linked_def link_get_def)
  moreover have "(\<exists>p1 \<in> S. \<exists>p2 \<in> S. ?P p1 p2) \<longleftrightarrow> x \<noteq> y \<and> (x \<in> set (free_hosts s) \<or> y \<in> set (free_hosts s))
      \<and> x \<in> pr_host ` S \<and> y \<in> pr_host ` S" for S
    by auto
  ultimately show ?thesis unfolding build_link_table_def Let_def cl outer by simp
qed


subsection \<open>Free proxies\<close>

lemma free_resource_iff:
  assumes "keyed s"
  shows "pr \<in> set (get_free_proxy_resource s) \<longleftrightarrow>
    hm_get (all_proxies s) (pr_proxy_address pr) = Some pr \<and> pr_cluster pr = None \<and>
    pr_proxy_address pr \<notin> set (failed_proxies s) \<and> hm_get (failures s) (pr_proxy_address pr) = None"
proof -
  have inv: "hm_inv (all_proxies s)" and addr: "\<And>a pr. hm_get (all_proxies s) a = Some pr \<Longrightarrow> pr_proxy_address pr = a"
    using assms by (auto simp: keyed_def)
  have "pr \<in> set (hm_values (all_proxies s)) \<longleftrightarrow> hm_get (all_proxies s) (pr_proxy_address pr) = Some pr"
  proof
    assume "pr \<in> set (hm_values (all_proxies s))"
    then obtain a where "(a, pr) \<in> set (all_proxies s)" by (auto simp: hm_values_def)
    then have "hm_get (all_proxies s) a = Some pr" using inv by (simp add: hm.lookup_entries)
    with addr show "hm_get (all_proxies s) (pr_proxy_address pr) = Some pr" by metis
  next
    assume "hm_get (all_proxies s) (pr_proxy_address pr) = Some pr"
    then show "pr \<in> set (hm_values (all_proxies s))" by (force simp: hm_values_def dest!: hm_get_in_set)
  qed
  then show ?thesis by (auto simp: get_free_proxy_resource_def hm_contains_key_def)
qed

lemma free_resource_distinct:
  assumes "keyed s"
  shows "distinct (map pr_proxy_address (get_free_proxy_resource s))"
proof -
  have inv: "hm_inv (all_proxies s)" and addr: "\<And>a pr. hm_get (all_proxies s) a = Some pr \<Longrightarrow> pr_proxy_address pr = a"
    using assms by (auto simp: keyed_def)
  then have "map pr_proxy_address (hm_values (all_proxies s)) = hm_keys (all_proxies s)"
    by (auto simp: hm_values_def hm_keys_def hm.lookup_entries)
  then have "distinct (map pr_proxy_address (hm_values (all_proxies s)))" using inv by (simp add: hm_inv_def)
  then show ?thesis unfolding get_free_proxy_resource_def by (rule distinct_map_filter)
qed

lemma hm_insert_new: "k \<notin> set (hm_keys m) \<Longrightarrow> hm_insert k v m = m @ [(k, v)]"
  by (induction m) (auto simp: hm_insert_def hm_keys_def)

definition free_of :: "meta_store \<Rightarrow> string \<Rightarrow> address list" where
  "free_of s h = map hp_proxy_address (filter (\<lambda>hp. hp_host hp = h) (get_free_proxies s))"

definition hp_group :: "host_proxy list \<Rightarrow> host_proxies" where
  "hp_group hps = fold (\<lambda>hp m. hm_modify (hp_host hp) (\<lambda>ps. ps @ [hp_proxy_address hp]) (hm_or_insert (hp_host hp) [] m)) hps []"

lemma hp_group_snoc: "hp_group (hps @ [hp]) =
  hm_modify (hp_host hp) (\<lambda>ps. ps @ [hp_proxy_address hp]) (hm_or_insert (hp_host hp) [] (hp_group hps))"
  by (simp add: hp_group_def)

lemma hp_group_spec:
  "hm_inv (hp_group hps) \<and> hp_all (hp_group hps) = mset (map hp_proxy_address hps) \<and>
   (\<forall>h. hm_get (hp_group hps) h =
      (let ps = map hp_proxy_address (filter (\<lambda>hp. hp_host hp = h) hps) in if ps = [] then None else Some ps))"
proof (induction hps rule: rev_induct)
  case (snoc hp hps)
  let ?m = "hp_group hps" and ?m' = "hm_or_insert (hp_host hp) [] (hp_group hps)"
  have inv: "hm_inv ?m'" using snoc by simp
  have all: "hp_all ?m' = hp_all ?m"
  proof (cases "hm_get ?m (hp_host hp)")
    case None
    then have "hp_host hp \<notin> set (hm_keys ?m)" by (simp add: hm_keys_set)
    then have "hm_insert (hp_host hp) [] ?m = ?m @ [(hp_host hp, [])]"
      by (rule hm_insert_new)
    with None show ?thesis by (simp add: hm_or_insert_def hm_contains_key_def hp_all_def hm_values_def)
  qed (simp add: hm_or_insert_def hm_contains_key_def)
  obtain ps where ps: "hm_get ?m' (hp_host hp) = Some ps" by simp
  from hp_all_modify [OF inv ps, of "\<lambda>ps. ps @ [hp_proxy_address hp]"] snoc inv all show ?case
    by (auto simp: hp_group_snoc Let_def)
qed (simp add: hp_group_def)



subsection \<open>One pair\<close>

definition hosted :: "host_proxies \<Rightarrow> address \<Rightarrow> string \<Rightarrow> bool" where
  "hosted m a h \<longleftrightarrow> (\<exists>ps. hm_get m h = Some ps \<and> a \<in> set ps)"

lemma hp_sub_pop: "hm_inv m \<Longrightarrow> hm_get m h = Some ps \<Longrightarrow> ps \<noteq> [] \<Longrightarrow> hp_sub (hm_modify h butlast m) m"
  using hp_all_pop [of m h ps] by (auto simp: hp_sub_def dest: in_set_butlastD split: if_splits)

lemma hosted_sub: "hp_sub m' m \<Longrightarrow> hosted m' a h \<Longrightarrow> hosted m a h"
  unfolding hp_sub_def hosted_def by blast

lemma pop_max_host_spec:
  assumes "hm_inv m" "0 < hp_sum m"
  shows "\<exists>h ps. pop_max_host m = Some (h, last ps, hm_modify h butlast m) \<and>
    hm_get m h = Some ps \<and> ps \<noteq> [] \<and> length ps = hp_max m"
proof -
  from assms(2) obtain h ps where hp: "max_by_key (\<lambda>(_, proxies). length proxies) m = Some (h, ps)"
    by (cases "max_by_key (\<lambda>(_, proxies). length proxies) m") auto
  have mem: "(h, ps) \<in> set m" and max: "\<And>h' ps'. (h', ps') \<in> set m \<Longrightarrow> length ps' \<le> length ps"
    using max_by_key_Some [OF hp] by auto
  have len: "length ps = hp_max m"
    using hp_max_ge [OF mem] hp_max_le [of m "length ps"] max by (simp add: le_antisym)
  moreover have "ps \<noteq> []" using hp_sum_pos [OF assms(2)] max by fastforce
  moreover have "hm_get m h = Some ps" using mem assms(1) by (simp add: hm.lookup_entries)
  ultimately show ?thesis using hp by (auto simp: pop_max_host_def)
qed

definition second_le :: "host_proxies \<Rightarrow> string \<times> usize \<Rightarrow> string \<times> usize \<Rightarrow> bool" where
  "second_le m x y \<longleftrightarrow> snd x < snd y \<or>
     snd x = snd y \<and> length (the (hm_get m (fst y))) \<le> length (the (hm_get m (fst x)))"

lemma second_host_cmp_le:
  "hm_get m (fst x) \<noteq> None \<Longrightarrow> hm_get m (fst y) \<noteq> None \<Longrightarrow>
     \<exists>ord. second_host_cmp (fst x) (snd x) (fst y) (snd y) m = Some ord \<and> (ord = Greater \<longleftrightarrow> \<not> second_le m x y)"
  by (auto simp: second_host_cmp_def usize_cmp_def second_le_def)

lemma min_by_second_host:
  assumes "\<And>x. x \<in> set xs \<Longrightarrow> hm_get m (fst x) \<noteq> None" "xs \<noteq> []"
  shows "\<exists>x \<in> set xs. min_by (\<lambda>(host1, count1) (host2, count2). second_host_cmp host1 count1 host2 count2 m) xs
      = Some (Some x) \<and> (\<forall>y \<in> set xs. second_le m x y)"
proof (rule min_by_least)
  show "\<exists>ord. (case a of (host1, count1) \<Rightarrow> \<lambda>(host2, count2). second_host_cmp host1 count1 host2 count2 m) b = Some ord
      \<and> (ord = Greater) = (\<not> second_le m a b)" if "a \<in> set xs" "b \<in> set xs" for a b
    using second_host_cmp_le [of m a b] assms(1) that by (simp add: split_beta)
qed (use assms(2) in \<open>auto simp: second_le_def\<close>)

lemma pop_second_host_spec:
  assumes "hm_inv m" "\<And>h. h \<noteq> first \<Longrightarrow> hm_get m h \<noteq> None \<Longrightarrow> linked t first h"
    "h \<noteq> first" "hm_get m h = Some ps" "ps \<noteq> []"
  shows "\<exists>h2 ps2. pop_second_host first m t = Some (h2, last ps2, hm_modify h2 butlast m) \<and>
    h2 \<noteq> first \<and> hm_get m h2 = Some ps2 \<and> ps2 \<noteq> []"
proof -
  from assms(2) [of h] assms(3,4) obtain peers where peers: "hm_get t first = Some peers" and h: "hm_get peers h \<noteq> None"
    by (auto simp: linked_def link_get_def split: option.splits)
  let ?cand = "second_candidates first m peers"
  have "?cand \<noteq> []"
  proof -
    from h obtain c where "(h, c) \<in> set peers" using hm_get_in_set by fastforce
    with assms(3-5) have "(h, c) \<in> set ?cand" by (simp add: second_candidates_def)
    then show ?thesis by auto
  qed
  moreover have "hm_get m (fst x) \<noteq> None" if "x \<in> set ?cand" for x using that by (auto simp: second_candidates_def)
  ultimately obtain x where "x \<in> set ?cand" and
    "min_by (\<lambda>(host1, count1) (host2, count2). second_host_cmp host1 count1 host2 count2 m) ?cand = Some (Some x)"
    using min_by_second_host [of ?cand m] by blast
  then show ?thesis using peers by (auto simp: pop_second_host_def second_candidates_def)
qed

text \<open>
  The invariant of the loop: enough proxies for the rest, and no host has more than half of
  them (rounded up), so that a partner on another host always exists.
\<close>

definition alloc_ready :: "link_table \<Rightarrow> nat \<Rightarrow> host_proxies \<Rightarrow> bool" where
  "alloc_ready t n m \<longleftrightarrow>
     hm_inv m \<and> (\<forall>h h'. h \<noteq> h' \<longrightarrow> hm_get m h \<noteq> None \<longrightarrow> hm_get m h' \<noteq> None \<longrightarrow> linked t h h') \<and>
     2 * hp_max m \<le> hp_sum m + 1 \<and> n \<le> hp_sum m"

lemma hp_max_after_pops:
  assumes inv: "hm_inv m" and h: "hm_get m h = Some ps" "ps \<noteq> []" "length ps = hp_max m"
    and h2: "hm_get m h2 = Some ps2" "ps2 \<noteq> []" "h2 \<noteq> h" and bal: "2 * hp_max m \<le> hp_sum m + 1"
    and m': "m' = hm_modify h2 butlast (hm_modify h butlast m)"
  shows "2 * hp_max m' \<le> hp_sum m' + 1"
proof -
  have g: "hm_get m' k = (if k = h then Some (butlast ps) else if k = h2 then Some (butlast ps2) else hm_get m k)" for k
    using h(1) h2 by (auto simp: m')
  have inv': "hm_inv m'" using inv by (simp add: m')
  have s: "hp_sum m = hp_sum m' + 2"
    using hp_sum_pop [OF inv h(1,2)] hp_sum_pop [of "hm_modify h butlast m" h2 ps2] inv h2 by (simp add: m')
  have "length qs * 2 \<le> hp_sum m' + 1" if "(k, qs) \<in> set m'" for k qs
  proof -
    have k: "hm_get m' k = Some qs" using that inv' by (simp add: hm.lookup_entries)
    show ?thesis
    proof (cases "length qs \<le> hp_max m - 1")
      case True
      then show ?thesis using bal s h(2,3) by (cases ps) auto
    next
      case False
      from k have qs: "length qs \<le> hp_max m" if "k \<noteq> h" "k \<noteq> h2"
        using that hp_max_ge [of k qs m] by (auto simp: g dest: hm_get_in_set)
      have "length (butlast ps2) \<le> hp_max m - 1"
        using hp_max_ge [of h2 ps2 m] h2(1) by (auto dest: hm_get_in_set)
      then have kk: "k \<noteq> h" "k \<noteq> h2" using False k h(3) h2(3) by (auto simp: g)
      let ?m1 = "hm_modify h (\<lambda>_. []) m"
      have "hm_get ?m1 k = Some qs" "hm_get ?m1 h2 = Some ps2" using k kk h2 by (simp_all add: g)
      from hp_sum_ge_two [OF hm.inv_modify [OF inv] this kk(2)] have "length qs + length ps2 \<le> hp_sum ?m1" .
      moreover have "hp_sum ?m1 + hp_max m = hp_sum m"
        using hp_sum_modify [OF inv h(1), of "\<lambda>_. []"] h(3) by simp
      moreover have "1 \<le> length ps2" using h2(2) by (cases ps2) auto
      ultimately show ?thesis using qs [OF kk] s by linarith
    qed
  qed
  then have "hp_max m' \<le> (hp_sum m' + 1) div 2" by (intro hp_max_le) (simp add: less_eq_div_iff_mult_less_eq)
  then show ?thesis by linarith
qed


lemma alloc_step_spec:
  assumes ready: "alloc_ready t n m" and n: "2 \<le> n"
  shows "\<exists>a b m' t' h h2. alloc_step m t = Some ((a, b), m', t') \<and> alloc_ready t' (n - 2) m' \<and> hp_sub m' m \<and>
    hp_all m = add_mset a (add_mset b (hp_all m')) \<and> hosted m a h \<and> hosted m b h2 \<and> h \<noteq> h2"
proof -
  have inv: "hm_inv m" and link: "\<And>h h'. h \<noteq> h' \<Longrightarrow> hm_get m h \<noteq> None \<Longrightarrow> hm_get m h' \<noteq> None \<Longrightarrow> linked t h h'"
    and bal: "2 * hp_max m \<le> hp_sum m + 1" and sum: "n \<le> hp_sum m"
    using ready by (auto simp: alloc_ready_def)
  obtain h ps where h: "pop_max_host m = Some (h, last ps, hm_modify h butlast m)" "hm_get m h = Some ps" "ps \<noteq> []"
      "length ps = hp_max m"
    using pop_max_host_spec [OF inv] n sum by auto
  let ?m1 = "hm_modify h butlast m"
  have "length ps < hp_sum m" using h(4) bal n sum by linarith
  from hp_sum_other [OF inv h(2) this] obtain h' ps' where h': "h' \<noteq> h" "hm_get ?m1 h' = Some ps'" "ps' \<noteq> []" by auto
  have "linked t h k" if "k \<noteq> h" "hm_get ?m1 k \<noteq> None" for k using link [of h k] that h(2) by auto
  from pop_second_host_spec [OF hm.inv_modify [OF inv] this h'] obtain h2 ps2 where
    h2: "pop_second_host h ?m1 t = Some (h2, last ps2, hm_modify h2 butlast ?m1)" "h2 \<noteq> h"
      "hm_get ?m1 h2 = Some ps2" "ps2 \<noteq> []" by blast
  let ?m2 = "hm_modify h2 butlast ?m1" and ?t = "link_inc h2 h (link_inc h h2 t)"
  have g2: "hm_get m h2 = Some ps2" using h2(2,3) by simp
  have l: "linked t h h2" "linked t h2 h" using link [of h h2] link [of h2 h] h(2) g2 h2(2) by auto
  have step: "alloc_step m t = Some ((last ps, last ps2), ?m2, ?t)"
    using h(1) h2(1) l by (simp add: alloc_step_def linked_def)
  have all: "hp_all m = add_mset (last ps) (add_mset (last ps2) (hp_all ?m2))"
    using hp_all_pop [OF inv h(2,3)] hp_all_pop [OF hm.inv_modify [OF inv] h2(3,4)] by simp
  have sub: "hp_sub ?m2 m"
    by (rule hp_sub_trans [OF hp_sub_pop [OF hm.inv_modify [OF inv] h2(3,4)] hp_sub_pop [OF inv h(2,3)]])
  have "2 * hp_max ?m2 \<le> hp_sum ?m2 + 1"
    by (rule hp_max_after_pops [OF inv h(2,3,4) g2 h2(4,2) bal refl])
  moreover have "n - 2 \<le> hp_sum ?m2" using arg_cong [OF all, of size] sum by (simp add: size_hp_all)
  moreover have "linked ?t k k'" if "k \<noteq> k'" "hm_get ?m2 k \<noteq> None" "hm_get ?m2 k' \<noteq> None" for k k'
    using link [of k k'] that by (auto split: if_splits)
  ultimately have "alloc_ready ?t (n - 2) ?m2" using inv by (simp add: alloc_ready_def)
  moreover have "hosted m (last ps) h" "hosted m (last ps2) h2"
    using h(2,3) g2 h2(4) by (simp_all add: hosted_def)
  ultimately show ?thesis using step sub all h2(2) by metis
qed

definition pair_on_hosts :: "host_proxies \<Rightarrow> address arr2 \<Rightarrow> bool" where
  "pair_on_hosts m p \<longleftrightarrow> (\<exists>h h'. hosted m (fst p) h \<and> hosted m (snd p) h' \<and> h \<noteq> h')"

lemma pair_on_hosts_sub: "hp_sub m' m \<Longrightarrow> pair_on_hosts m' p \<Longrightarrow> pair_on_hosts m p"
  unfolding pair_on_hosts_def using hosted_sub by blast

definition pairs_all :: "address arr2 list \<Rightarrow> address multiset" where
  "pairs_all ps = mset (concat (map arr2_list ps))"

lemma alloc_loop_spec:
  assumes "alloc_ready t n m" "even n" "expected = length pairs * 2 + n"
  shows "\<exists>new. alloc_loop expected pairs m t = Some (pairs @ new) \<and> length new * 2 = n \<and>
    (\<forall>p \<in> set new. pair_on_hosts m p) \<and> pairs_all new \<subseteq># hp_all m"
  using assms
proof (induction n arbitrary: pairs m t rule: less_induct)
  case (less n)
  show ?case
  proof (cases "n = 0")
    case True
    with less.prems show ?thesis by (subst alloc_loop.simps) (simp add: pairs_all_def)
  next
    case False
    with less.prems(2) have n: "2 \<le> n" by (cases n) (auto elim: oddE)
    from alloc_step_spec [OF less.prems(1) n] obtain a b m' t' h h2 where
      s: "alloc_step m t = Some ((a, b), m', t')" "alloc_ready t' (n - 2) m'" "hp_sub m' m"
        "hp_all m = add_mset a (add_mset b (hp_all m'))" "hosted m a h" "hosted m b h2" "h \<noteq> h2" by blast
    have "n - 2 < n" "even (n - 2)" "expected = length (pairs @ [(a, b)]) * 2 + (n - 2)"
      using n less.prems(2,3) by auto
    from less.IH [OF this(1) s(2) this(2,3)] obtain new where
      new: "alloc_loop expected (pairs @ [(a, b)]) m' t' = Some ((pairs @ [(a, b)]) @ new)" "length new * 2 = n - 2"
        "\<forall>p \<in> set new. pair_on_hosts m' p" "pairs_all new \<subseteq># hp_all m'" by blast
    have "alloc_loop expected pairs m t = Some (pairs @ (a, b) # new)"
      using new(1) s(1) n less.prems(3) by (subst alloc_loop.simps) simp
    moreover have "pair_on_hosts m (a, b)" using s(5-7) unfolding pair_on_hosts_def by auto
    then have "pair_on_hosts m p" if "p \<in> set ((a, b) # new)" for p
      using that new(3) pair_on_hosts_sub [OF s(3), of p] by auto
    moreover have "pairs_all ((a, b) # new) \<subseteq># hp_all m"
      using new(4) by (simp add: pairs_all_def arr2_list_def s(4))
    moreover have "length ((a, b) # new) * 2 = n" using new(2) n by simp
    ultimately show ?thesis by blast
  qed
qed


subsection \<open>generate\_free\_chunks\<close>

lemma generate_free_host_proxies_group: "generate_free_host_proxies s = hp_group (get_free_proxies s)"
  by (simp add: generate_free_host_proxies_def hp_group_def)

lemma free_host_proxies_inv: "hm_inv (generate_free_host_proxies s)"
  using hp_group_spec by (simp add: generate_free_host_proxies_group)

lemma free_host_proxies_all:
  "hp_all (generate_free_host_proxies s) = mset (map pr_proxy_address (get_free_proxy_resource s))"
  using hp_group_spec [of "get_free_proxies s"]
  by (simp add: generate_free_host_proxies_group get_free_proxies_def comp_def)

lemma free_host_proxies_get:
  "hm_get (generate_free_host_proxies s) h = (if free_of s h = [] then None else Some (free_of s h))"
  using hp_group_spec [of "get_free_proxies s"]
  by (simp add: generate_free_host_proxies_group free_of_def Let_def)

definition is_free :: "meta_store \<Rightarrow> proxy_resource \<Rightarrow> bool" where
  "is_free s pr \<longleftrightarrow>
     hm_get (all_proxies s) (pr_proxy_address pr) = Some pr \<and> pr_cluster pr = None \<and>
     pr_proxy_address pr \<notin> set (failed_proxies s) \<and> hm_get (failures s) (pr_proxy_address pr) = None"

lemma in_free_of:
  assumes "keyed s"
  shows "a \<in> set (free_of s h) \<longleftrightarrow> (\<exists>pr. is_free s pr \<and> pr_proxy_address pr = a \<and> pr_host pr = h)"
proof -
  have "free_of s h = map pr_proxy_address (filter (\<lambda>pr. pr_host pr = h) (get_free_proxy_resource s))"
    by (simp add: free_of_def get_free_proxies_def filter_map comp_def)
  then show ?thesis unfolding is_free_def free_resource_iff [OF assms, symmetric] by auto
qed

lemma hosted_free:
  "keyed s \<Longrightarrow> hosted (generate_free_host_proxies s) a h \<longleftrightarrow>
     (\<exists>pr. is_free s pr \<and> pr_proxy_address pr = a \<and> pr_host pr = h)"
  by (auto simp: hosted_def free_host_proxies_get in_free_of [symmetric] split: if_splits)


lemma hosted_unique: "keyed s \<Longrightarrow> is_free s pr \<Longrightarrow> is_free s pr' \<Longrightarrow> pr_proxy_address pr = pr_proxy_address pr' \<Longrightarrow> pr = pr'"
  by (simp add: is_free_def)

lemma free_hosts_linked:
  assumes "keyed s" "hm_get (generate_free_host_proxies s) h \<noteq> None" "hm_get (generate_free_host_proxies s) h' \<noteq> None"
    "h \<noteq> h'"
  shows "linked (build_link_table s) h h'"
proof -
  have "k \<in> set (free_hosts s) \<and> k \<in> pr_host ` set (hm_values (all_proxies s))"
    if "hm_get (generate_free_host_proxies s) k \<noteq> None" for k
  proof -
    from that have "free_of s k \<noteq> []" by (auto simp: free_host_proxies_get split: if_splits)
    then obtain a where "a \<in> set (free_of s k)" by (meson last_in_set)
    then obtain pr where pr: "is_free s pr" "pr_host pr = k" by (auto simp: in_free_of [OF assms(1)])
    then have "pr \<in> set (hm_values (all_proxies s))" "pr_cluster pr = None"
      by (auto simp: is_free_def hm_values_def dest!: hm_get_in_set intro!: rev_image_eqI)
    with pr(2) show ?thesis by (auto simp: free_hosts_def)
  qed
  with assms show ?thesis by (auto simp: linked_build)
qed

definition free_num :: "meta_store \<Rightarrow> nat" where
  "free_num s = length (get_free_proxy_resource s)"

definition free_num_on_host :: "meta_store \<Rightarrow> string \<Rightarrow> nat" where
  "free_num_on_host s h = length (free_of s h)"

lemma hp_sum_free: "hp_sum (generate_free_host_proxies s) = free_num s"
  by (simp flip: size_hp_all add: free_host_proxies_all free_num_def)

lemma hp_max_free_le:
  "hp_max (generate_free_host_proxies s) \<le> n \<longleftrightarrow> (\<forall>h. free_num_on_host s h \<le> n)"
proof
  assume le: "hp_max (generate_free_host_proxies s) \<le> n"
  show "\<forall>h. free_num_on_host s h \<le> n"
  proof
    fix h
    show "free_num_on_host s h \<le> n"
    proof (cases "free_of s h = []")
      case False
      then have "(h, free_of s h) \<in> set (generate_free_host_proxies s)"
        by (intro hm_get_in_set) (simp add: free_host_proxies_get)
      from hp_max_ge [OF this] le show ?thesis by (simp add: free_num_on_host_def)
    qed (simp add: free_num_on_host_def)
  qed
next
  assume le: "\<forall>h. free_num_on_host s h \<le> n"
  show "hp_max (generate_free_host_proxies s) \<le> n"
  proof (rule hp_max_le)
    fix h ps assume "(h, ps) \<in> set (generate_free_host_proxies s)"
    then have "hm_get (generate_free_host_proxies s) h = Some ps"
      using free_host_proxies_inv by (simp add: hm.lookup_entries)
    then show "length ps \<le> n" using le by (auto simp: free_host_proxies_get free_num_on_host_def split: if_splits)
  qed
qed

lemma pairs_resources:
  assumes k: "keyed s" and p: "\<forall>p \<in> set pairs. pair_on_hosts (generate_free_host_proxies s) p"
  shows "\<exists>ps. those (map (resource_pair s) pairs) = Some ps \<and>
    map (\<lambda>p. map_prod pr_proxy_address pr_proxy_address p) ps = pairs \<and>
    (\<forall>p \<in> set ps. is_free s (fst p) \<and> is_free s (snd p) \<and> pr_host (fst p) \<noteq> pr_host (snd p))"
proof -
  have one: "\<exists>r. resource_pair s p = Some r \<and> map_prod pr_proxy_address pr_proxy_address r = p \<and>
      is_free s (fst r) \<and> is_free s (snd r) \<and> pr_host (fst r) \<noteq> pr_host (snd r)" if "p \<in> set pairs" for p
  proof -
    from p that obtain pr pr' where "is_free s pr" "pr_proxy_address pr = fst p" "is_free s pr'"
        "pr_proxy_address pr' = snd p" "pr_host pr \<noteq> pr_host pr'"
      by (auto simp: pair_on_hosts_def hosted_free [OF k])
    then show ?thesis by (intro exI [of _ "(pr, pr')"]) (auto simp: resource_pair_def is_free_def)
  qed
  from one show ?thesis
  proof (induction pairs)
    case (Cons p pairs)
    then obtain ps where ps: "those (map (resource_pair s) pairs) = Some ps"
        "map (\<lambda>p. map_prod pr_proxy_address pr_proxy_address p) ps = pairs"
        "\<forall>p \<in> set ps. is_free s (fst p) \<and> is_free s (snd p) \<and> pr_host (fst p) \<noteq> pr_host (snd p)" by auto
    from Cons.prems [of p] obtain r where "resource_pair s p = Some r"
      "map_prod pr_proxy_address pr_proxy_address r = p" "is_free s (fst r)" "is_free s (snd r)"
      "pr_host (fst r) \<noteq> pr_host (snd r)" by auto
    with ps show ?case by (intro exI [of _ "r # ps"]) simp
  qed simp
qed


text \<open>
  The allocation succeeds exactly when there are enough free proxies and enough of them lie
  outside every single host; then it gives pairs of free proxies on different hosts.
\<close>

lemma distinct_mset_subset:
  assumes "mset xs \<subseteq># mset ys" "distinct ys"
  shows "distinct xs"
  unfolding distinct_count_atmost_1
proof
  fix a
  have "count (mset xs) a \<le> count (mset ys) a" using assms(1) by (rule mset_subset_eq_count)
  also have "\<dots> \<le> 1" using assms(2) by (simp add: distinct_count_atmost_1)
  finally show "count (mset xs) a = (if a \<in> set xs then 1 else 0)"
    by (cases "a \<in> set xs") (simp_all add: le_Suc_eq)
qed

lemma generate_free_chunks_ok:
  assumes k: "keyed s" and n: "even n" "n \<le> free_num s" "\<forall>h. n + 2 * free_num_on_host s h \<le> 2 * free_num s"
  shows "\<exists>ps. generate_free_chunks s n = Ok ps \<and> length ps * 2 = n \<and>
    (\<forall>p \<in> set ps. is_free s (fst p) \<and> is_free s (snd p) \<and> pr_host (fst p) \<noteq> pr_host (snd p)) \<and>
    distinct (map pr_proxy_address (concat (map arr2_list ps)))"
proof -
  let ?m = "generate_free_host_proxies s"
  from n(1) obtain i where i: "n = 2 * i" by (elim evenE)
  have "free_num_on_host s h \<le> free_num s - i" for h using n(3) [rule_format, of h] i by linarith
  then have "hp_max ?m \<le> free_num s - i" by (simp add: hp_max_free_le)
  then have max: "n \<le> min (hp_sum ?m) (2 * (hp_sum ?m - hp_max ?m))"
    using n(2) i by (simp add: hp_sum_free)
  from remove_redundant_chunks_spec [of ?m n] max obtain m where
    m: "remove_redundant_chunks ?m n = Ok m" "hp_sub m ?m" "n \<le> hp_sum m" "2 * hp_max m \<le> hp_sum m" by auto
  have keys: "hm_get ?m h \<noteq> None" if "hm_get m h \<noteq> None" for h using m(2) that unfolding hp_sub_def by blast
  have "alloc_ready (build_link_table s) n m"
    using m(3,4) hp_sub_inv [OF m(2)] free_host_proxies_inv free_hosts_linked [OF k] keys
    by (auto simp: alloc_ready_def)
  from alloc_loop_spec [OF this n(1), of n "[]"] obtain new where
    new: "alloc_loop n [] m (build_link_table s) = Some new" "length new * 2 = n"
      "\<forall>p \<in> set new. pair_on_hosts m p" "pairs_all new \<subseteq># hp_all m" by auto
  have alloc: "allocate_chunk m (build_link_table s) n = Ok new" using m(3,4) new(1) by (simp add: allocate_chunk_def)
  from pairs_resources [OF k, of new] new(3) pair_on_hosts_sub [OF m(2)] obtain ps where
    ps: "those (map (resource_pair s) new) = Some ps" "map (\<lambda>p. map_prod pr_proxy_address pr_proxy_address p) ps = new"
      "\<forall>p \<in> set ps. is_free s (fst p) \<and> is_free s (snd p) \<and> pr_host (fst p) \<noteq> pr_host (snd p)" by blast
  have "map pr_proxy_address (concat (map arr2_list ps)) = concat (map arr2_list new)"
    unfolding ps(2) [symmetric] by (induction ps) (simp_all add: arr2_list_def)
  moreover have "pairs_all new \<subseteq># hp_all ?m" using new(4) m(2) unfolding hp_sub_def by (metis subset_mset.order_trans)
  then have "distinct (concat (map arr2_list new))"
    using free_resource_distinct [OF k] unfolding pairs_all_def free_host_proxies_all
    by (blast intro: distinct_mset_subset)
  moreover have "length ps * 2 = n" using new(2) ps(2) by auto
  moreover have "generate_free_chunks s n = Ok ps" using m(1) alloc ps(1) by (simp add: generate_free_chunks_def)
  ultimately show ?thesis using ps(3) by auto
qed

lemma generate_free_chunks_err:
  assumes "n > free_num s \<or> (\<exists>h. n + 2 * free_num_on_host s h > 2 * free_num s)"
  shows "generate_free_chunks s n = Err NoAvailableResource"
proof -
  let ?m = "generate_free_host_proxies s"
  have "min (hp_sum ?m) (2 * (hp_sum ?m - hp_max ?m)) < n"
  proof (cases "n > free_num s")
    case False
    with assms obtain h where "n + 2 * free_num_on_host s h > 2 * free_num s" by blast
    moreover have "free_num_on_host s h \<le> hp_max ?m" using hp_max_free_le [of s "hp_max ?m"] by blast
    moreover have "hp_max ?m \<le> free_num s" using hp_max_le_sum [of ?m] by (simp add: hp_sum_free)
    ultimately have "2 * (hp_sum ?m - hp_max ?m) < n" by (simp add: hp_sum_free)
    then show ?thesis by simp
  qed (simp add: hp_sum_free)
  with remove_redundant_chunks_spec [of ?m n] show ?thesis by (auto simp: generate_free_chunks_def)
qed



subsection \<open>The other allocator, and the contract of both\<close>

lemma pair_up_Some: "pair_up xs = Some ps \<Longrightarrow> concat (map arr2_list ps) = xs"
  by (induction xs arbitrary: ps rule: pair_up.induct) (auto simp: arr2_list_def)

lemma pair_up_even: "even (length xs) \<Longrightarrow> pair_up xs \<noteq> None"
  by (induction xs rule: pair_up.induct) auto

definition pairs_free :: "meta_store \<Rightarrow> proxy_resource arr2 list \<Rightarrow> bool" where
  "pairs_free s ps \<longleftrightarrow>
     (\<forall>pr \<in> set (concat (map arr2_list ps)). is_free s pr) \<and>
     distinct (map pr_proxy_address (concat (map arr2_list ps)))"

lemma length_concat_arr2: "length (concat (map arr2_list ps)) = length ps * 2"
  by (induction ps) (simp_all add: arr2_list_def)

lemma consecutive_upt: "consecutive i is \<Longrightarrow> i + length is < 2 ^ 64 \<Longrightarrow> is = [Suc i ..< Suc i + length is]"
proof (induction i "is" rule: consecutive.induct)
  case (2 i j js)
  then have j: "j = Suc i" by (simp add: usize_simps)
  have "[Suc i ..< Suc i + length (j # js)] = Suc i # [Suc (Suc i) ..< Suc (Suc i) + length js]"
    by (subst upt_conv_Cons) simp_all
  moreover have "js = [Suc j ..< Suc j + length js]" using 2 j by (simp add: usize_simps)
  ultimately show ?case by (simp add: j)
qed simp

lemma ordered_chunks_ok:
  assumes k: "keyed s" and n: "even n"
    and ok: "generate_free_chunks_for_ordered_proxy_index s n i = Ok ps"
  shows "length ps * 2 = n \<and> pairs_free s ps \<and>
    (i + n < 2 ^ 64 \<longrightarrow> map pr_index (concat (map arr2_list ps)) = [i ..< i + n])"
proof -
  let ?f = "get_free_proxy_resource s" and ?xs = "take n (sort_key pr_index (get_free_proxy_resource s))"
  from ok have len: "n \<le> length ?f" and up: "pair_up ?xs = Some ps"
    and ord: "case map pr_index ?xs of [] \<Rightarrow> True | j # js \<Rightarrow> j = i \<and> consecutive j js"
    by (auto simp: generate_free_chunks_for_ordered_proxy_index_def Let_def split: if_splits option.splits)
  have xs: "concat (map arr2_list ps) = ?xs" by (rule pair_up_Some [OF up])
  then have "length ps * 2 = n" using len length_concat_arr2 [of ps] by simp
  moreover have "distinct (map pr_proxy_address ?xs)"
  proof -
    have "mset (map pr_proxy_address ?xs) \<subseteq># mset (map pr_proxy_address ?f)"
      using mset_take_subset [of n "map pr_proxy_address (sort_key pr_index ?f)"] by (simp add: take_map)
    then show ?thesis using free_resource_distinct [OF k] by (rule distinct_mset_subset)
  qed
  moreover have "is_free s pr" if "pr \<in> set ?xs" for pr
    using in_set_takeD [OF that] free_resource_iff [OF k, of pr] by (simp add: is_free_def)
  moreover have "map pr_index ?xs = [i ..< i + n]" if "i + n < 2 ^ 64"
  proof (cases "map pr_index ?xs")
    case Nil
    with len have "n = 0" by (metis length_0_conv length_map length_sort length_take min.absorb2)
    then show ?thesis by simp
  next
    case (Cons j js)
    have "length (map pr_index ?xs) = n" using len by simp
    with Cons have n: "n = Suc (length js)" by (metis length_Cons)
    from Cons ord have j: "j = i" "consecutive i js" by auto
    have "js = [Suc i ..< Suc i + length js]" using consecutive_upt [OF j(2)] that n by simp
    then have "js = [Suc i ..< i + n]" using n by (metis add_Suc_right add_Suc)
    moreover have "[i ..< i + n] = i # [Suc i ..< i + n]" using n by (intro upt_conv_Cons) simp
    ultimately show ?thesis using Cons j(1) by metis
  qed
  ultimately show ?thesis by (simp add: pairs_free_def xs)
qed


text \<open>
  What the two users of an allocator rely on: it never panics, and it gives as many pairs as
  asked for, of different free proxies.
\<close>

locale free_proxy_allocator =
  fixes gen :: "meta_store \<Rightarrow> usize \<Rightarrow> usize \<Rightarrow> proxy_resource arr2 list outcome"
  assumes gen_ok: "keyed s \<Longrightarrow> even n \<Longrightarrow> gen s n i = Ok ps \<Longrightarrow> length ps * 2 = n \<and> pairs_free s ps"
    and gen_no_panic: "keyed s \<Longrightarrow> even n \<Longrightarrow> gen s n i \<noteq> Panic"
begin

lemma gen_cases:
  assumes "keyed s" "even n"
  obtains (ok) ps where "gen s n i = Ok ps" "length ps * 2 = n" "pairs_free s ps"
    | (err) e where "gen s n i = Err e"
  using assms gen_ok gen_no_panic by (cases "gen s n i") auto

lemma gen_not_in_cluster:
  "keyed s \<Longrightarrow> even n \<Longrightarrow> gen s n i = Ok ps \<Longrightarrow> pr \<in> set (concat (map arr2_list ps)) \<Longrightarrow>
     hm_get (all_proxies s) (pr_proxy_address pr) = Some pr \<and> pr_cluster pr = None"
  using gen_ok [of s n i ps] by (auto simp: pairs_free_def is_free_def)

end

lemma generate_free_chunks_cases:
  assumes "keyed s" "even n"
  shows "(\<exists>ps. generate_free_chunks s n = Ok ps \<and> length ps * 2 = n \<and> pairs_free s ps \<and>
      (\<forall>p \<in> set ps. pr_host (fst p) \<noteq> pr_host (snd p)))
    \<or> generate_free_chunks s n = Err NoAvailableResource"
proof (cases "n > free_num s \<or> (\<exists>h. n + 2 * free_num_on_host s h > 2 * free_num s)")
  case True
  then show ?thesis by (blast intro: generate_free_chunks_err)
next
  case False
  then have "n \<le> free_num s" "\<forall>h. n + 2 * free_num_on_host s h \<le> 2 * free_num s" by (auto simp: not_less)
  from generate_free_chunks_ok [OF assms this] obtain ps where
    ps: "generate_free_chunks s n = Ok ps" "length ps * 2 = n"
      "\<forall>p \<in> set ps. is_free s (fst p) \<and> is_free s (snd p) \<and> pr_host (fst p) \<noteq> pr_host (snd p)"
      "distinct (map pr_proxy_address (concat (map arr2_list ps)))" by blast
  then have "pairs_free s ps" by (fastforce simp: pairs_free_def)
  with ps show ?thesis by blast
qed

definition allocate_proxies :: "meta_store \<Rightarrow> usize \<Rightarrow> usize \<Rightarrow> proxy_resource arr2 list outcome" where
  "allocate_proxies s proxy_num first_index =
     (if enable_ordered_proxy s then generate_free_chunks_for_ordered_proxy_index s proxy_num first_index
      else generate_free_chunks s proxy_num)"

interpretation by_host: free_proxy_allocator "\<lambda>s n _. generate_free_chunks s n"
  using generate_free_chunks_cases by unfold_locales fastforce+

interpretation by_index: free_proxy_allocator generate_free_chunks_for_ordered_proxy_index
proof
  show "generate_free_chunks_for_ordered_proxy_index s n i \<noteq> Panic" for s n i
    by (simp add: generate_free_chunks_for_ordered_proxy_index_def Let_def split: option.split)
qed (blast dest: ordered_chunks_ok)

interpretation allocator: free_proxy_allocator allocate_proxies
  using by_host.gen_ok by_host.gen_no_panic by_index.gen_ok by_index.gen_no_panic
  by unfold_locales (auto simp: allocate_proxies_def split: if_splits)



subsection \<open>A replacement for a failed proxy\<close>

lemma in_members_of:
  "m \<in> set (members_of chunks) \<longleftrightarrow> (\<exists>chunk \<in> set chunks. \<exists>i < 2.
     m = (part i (proxy_addresses chunk), part i (hosts chunk), part i (node_addresses chunk)))"
  by (auto simp: members_of_def chunk_members_def Ex_less_2)

lemma linked_chunk_hosts:
  "c \<in> set (hm_values (clusters s)) \<Longrightarrow> chunk \<in> set (cs_chunks c) \<Longrightarrow>
     linked (build_link_table s) (fst (hosts chunk)) (snd (hosts chunk))
     \<and> linked (build_link_table s) (snd (hosts chunk)) (fst (hosts chunk))"
  unfolding linked_build by blast

lemma registry_member_host:
  assumes c: "consistent (registry_of s)" and pr: "hm_get (all_proxies s) a = Some pr" "pr_cluster pr = Some name"
  shows "\<exists>c chunk i. hm_get (clusters s) name = Some c \<and> chunk \<in> set (cs_chunks c) \<and> i < 2 \<and>
    part i (proxy_addresses chunk) = a \<and> part i (hosts chunk) = pr_host pr \<and> part i (node_addresses chunk) = pr_node_addresses pr"
proof -
  have "\<exists>ms. reg_members (registry_of s) name = Some ms \<and> a \<in> member_addrs ms"
    using c pr unfolding consistent_def by (auto simp: registry_of_def)
  then obtain c' m where c': "hm_get (clusters s) name = Some c'" and m: "m \<in> set (members_of (cs_chunks c'))" "fst m = a"
    by (auto simp: registry_of_def member_addrs_def)
  have "member_ok (registry_of s) {Some name} m"
    using c c' m(1) unfolding consistent_def by (auto simp: registry_of_def)
  then have "fst (snd m) = pr_host pr" "snd (snd m) = pr_node_addresses pr"
    using pr m(2) by (auto simp: member_ok_def registry_of_def)
  with m c' show ?thesis unfolding in_members_of by fastforce
qed

lemma generate_new_free_proxy_spec:
  assumes k: "keyed s" and c: "consistent (registry_of s)"
    and f: "hm_get (all_proxies s) failed = Some fpr" "pr_cluster fpr = Some name"
  shows "(\<exists>pr. generate_new_free_proxy s failed = Ok pr \<and> is_free s pr)
    \<or> generate_new_free_proxy s failed = Err NoAvailableResource"
proof -
  let ?t = "build_link_table s" and ?m = "generate_free_host_proxies s"
  from registry_member_host [OF c f] obtain c' chunk i where
    ch: "hm_get (clusters s) name = Some c'" "chunk \<in> set (cs_chunks c')" "i < 2" "part i (hosts chunk) = pr_host fpr"
    by blast
  have "c' \<in> set (hm_values (clusters s))" using hm_get_in_set [OF ch(1)] by (force simp: hm_values_def)
  from linked_chunk_hosts [OF this ch(2)] have "linked ?t (pr_host fpr) (part (1 - i) (hosts chunk))"
    using ch(3,4) by (auto simp: less_2_cases_iff)
  then obtain counts where counts: "hm_get ?t (pr_host fpr) = Some counts"
    by (auto simp: linked_def link_get_def split: option.splits)
  let ?cand = "filter (\<lambda>(peer_host, _). hm_contains_key ?m peer_host) counts"
  show ?thesis
  proof (cases "?cand = []")
    case True
    with f(1) counts show ?thesis by (simp add: generate_new_free_proxy_def Let_def)
  next
    case False
    have "hm_get ?m (fst x) \<noteq> None" if "x \<in> set ?cand" for x using that by (auto simp: hm_contains_key_def)
    from min_by_second_host [of ?cand ?m, OF this False] obtain x where x: "x \<in> set ?cand"
      "min_by (\<lambda>(host1, count1) (host2, count2). second_host_cmp host1 count1 host2 count2 ?m) ?cand = Some (Some x)"
      by blast
    then have "free_of s (fst x) \<noteq> []" by (auto simp: hm_contains_key_def free_host_proxies_get split: if_splits)
    then obtain hp where hp: "find (\<lambda>hp. hp_host hp = fst x) (get_free_proxies s) = Some hp"
      by (cases "find (\<lambda>hp. hp_host hp = fst x) (get_free_proxies s)")
        (auto simp: free_of_def find_None_iff filter_empty_conv)
    then have "hp \<in> set (get_free_proxies s)" by (auto simp: find_Some_iff)
    then obtain pr where "pr \<in> set (get_free_proxy_resource s)" "hp_proxy_address hp = pr_proxy_address pr"
      by (auto simp: get_free_proxies_def)
    then have "is_free s pr" "hm_get (all_proxies s) (hp_proxy_address hp) = Some pr"
      by (simp_all add: free_resource_iff [OF k] is_free_def)
    then show ?thesis using f(1) counts x(2) hp
      by (cases x) (simp add: generate_new_free_proxy_def Let_def)
  qed
qed


subsection \<open>Nothing better is possible\<close>

lemma free_num_on_host_card:
  assumes "keyed s"
  shows "free_num_on_host s h = card {pr \<in> set (get_free_proxy_resource s). pr_host pr = h}"
    and "free_num s = card (set (get_free_proxy_resource s))"
proof -
  have d: "distinct (get_free_proxy_resource s)"
    using free_resource_distinct [OF assms] by (simp add: distinct_map)
  have "free_of s h = map pr_proxy_address (filter (\<lambda>pr. pr_host pr = h) (get_free_proxy_resource s))"
    by (simp add: free_of_def get_free_proxies_def filter_map comp_def)
  then show "free_num_on_host s h = card {pr \<in> set (get_free_proxy_resource s). pr_host pr = h}"
    using distinct_card [OF distinct_filter [OF d]] by (simp add: free_num_on_host_def)
  show "free_num s = card (set (get_free_proxy_resource s))" using distinct_card [OF d] by (simp add: free_num_def)
qed

lemma pairing_bound:
  assumes k: "keyed s" and ps: "pairs_free s ps" and d: "\<forall>p \<in> set ps. pr_host (fst p) \<noteq> pr_host (snd p)"
  shows "length ps * 2 \<le> free_num s" "length ps * 2 + 2 * free_num_on_host s h \<le> 2 * free_num s"
proof -
  let ?F = "set (get_free_proxy_resource s)" and ?H = "{pr \<in> set (get_free_proxy_resource s). pr_host pr = h}"
  let ?Q = "set (concat (map arr2_list ps))"
  have Q: "?Q \<subseteq> ?F" using ps by (auto simp: pairs_free_def is_free_def free_resource_iff [OF k])
  have dist: "distinct (concat (map arr2_list ps))" using ps by (simp add: pairs_free_def distinct_map)
  then have cQ: "card ?Q = length ps * 2" using distinct_card length_concat_arr2 by metis
  show "length ps * 2 \<le> free_num s"
    using card_mono [OF _ Q] unfolding cQ free_num_on_host_card(2) [OF k] by simp
  have "length ps \<le> length (filter (\<lambda>pr. pr_host pr \<noteq> h) (concat (map arr2_list ps)))"
    using d by (induction ps) (auto simp: arr2_list_def)
  also have "\<dots> = card (set (filter (\<lambda>pr. pr_host pr \<noteq> h) (concat (map arr2_list ps))))"
    using distinct_card [OF distinct_filter [OF dist]] by simp
  also have "\<dots> \<le> card (?F - ?H)" using Q by (intro card_mono) auto
  also have "\<dots> = card ?F - card ?H" by (rule card_Diff_subset) auto
  finally show "length ps * 2 + 2 * free_num_on_host s h \<le> 2 * free_num s"
    using card_mono [of ?F ?H] by (simp add: free_num_on_host_card [OF k])
qed



subsection \<open>Properties\<close>

text \<open>
  (C22) Allocation of chunks by host. For an even number of proxies, \<open>generate_free_chunks\<close>
  never panics: either it returns that many proxies in pairs, all of them different, registered,
  free and not reported as failed, the two of a pair on different hosts; or it answers
  \<open>NoAvailableResource\<close>. It answers so only when no such choice of pairs exists at all:
  the greedy loop finds a solution whenever there is one.
\<close>

theorem free_chunks_found_iff_possible:
  assumes "keyed s" "even n"
  shows "(\<exists>ps. generate_free_chunks s n = Ok ps \<and> length ps * 2 = n \<and> pairs_free s ps \<and>
            (\<forall>p \<in> set ps. pr_host (fst p) \<noteq> pr_host (snd p)))
       \<or> generate_free_chunks s n = Err NoAvailableResource \<and>
         \<not> (\<exists>ps. length ps * 2 = n \<and> pairs_free s ps \<and> (\<forall>p \<in> set ps. pr_host (fst p) \<noteq> pr_host (snd p)))"
proof (cases "\<exists>ps. length ps * 2 = n \<and> pairs_free s ps \<and> (\<forall>p \<in> set ps. pr_host (fst p) \<noteq> pr_host (snd p))")
  case True
  then have "n \<le> free_num s" "\<forall>h. n + 2 * free_num_on_host s h \<le> 2 * free_num s"
    using pairing_bound [OF assms(1)] by blast+
  from generate_free_chunks_ok [OF assms this] have "generate_free_chunks s n \<noteq> Err NoAvailableResource" by auto
  with generate_free_chunks_cases [OF assms] show ?thesis by blast
next
  case False
  with generate_free_chunks_cases [OF assms] show ?thesis by blast
qed

definition example_proxy :: "string \<Rightarrow> string \<Rightarrow> usize \<Rightarrow> proxy_resource" where
  "example_proxy a h i =
     \<lparr>pr_proxy_address = a, pr_node_addresses = (a @ ''/1'', a @ ''/2''), pr_host = h, pr_index = i, pr_cluster = None\<rparr>"

definition example_free_store :: "bool \<Rightarrow> meta_store" where
  "example_free_store ordered =
     \<lparr>version = UNDERMOON_MEM_BROKER_META_VERSION, global_epoch = 4, clusters = [],
      all_proxies = map (\<lambda>(a, h, i). (a, example_proxy a h i))
        [(''a:1'', ''a'', 0), (''a:2'', ''a'', 1), (''b:1'', ''b'', 2), (''c:1'', ''c'', 3)],
      failed_proxies = [], failures = [], enable_ordered_proxy = ordered\<rparr>"

lemma example_free_keyed: "keyed (example_free_store b)"
  by (auto simp: keyed_def example_free_store_def example_proxy_def hm_inv_def hm_keys_def hm_get_def split: if_splits)

lemma example_free_num: "free_num (example_free_store b) = 4" "free_num_on_host (example_free_store b) h \<le> 2"
  by (auto simp: free_num_def free_num_on_host_def free_of_def get_free_proxies_def get_free_proxy_resource_def
      example_free_store_def example_proxy_def hm_values_def hm_contains_key_def)

theorem free_chunks_found_iff_possible_witness:
  "keyed (example_free_store False) \<and> even (4::nat) \<and>
   (\<exists>ps. generate_free_chunks (example_free_store False) 4 = Ok ps \<and> length ps = 2)"
proof -
  have "\<forall>h. 4 + 2 * free_num_on_host (example_free_store False) h \<le> 2 * free_num (example_free_store False)"
    using example_free_num(2) [of False] by (simp add: example_free_num(1))
  from generate_free_chunks_ok [OF example_free_keyed _ _ this]
  have "generate_free_chunks (example_free_store False) 4 \<noteq> Err NoAvailableResource"
    by (auto simp: example_free_num(1))
  with free_chunks_found_iff_possible [OF example_free_keyed, of 4 False] show ?thesis
    by (auto simp: example_free_keyed)
qed

text \<open>
  (C23) Allocation for ordered proxies: what \<open>generate_free_chunks_for_ordered_proxy_index\<close>
  returns are pairs of different free proxies whose indices are exactly
  \<open>first_index, first_index + 1, ...\<close> in order; it never panics.
\<close>

theorem ordered_chunks_are_consecutive:
  assumes "keyed s" "even n" "i + n < 2 ^ 64" "generate_free_chunks_for_ordered_proxy_index s n i = Ok ps"
  shows "length ps * 2 = n \<and> pairs_free s ps \<and> map pr_index (concat (map arr2_list ps)) = [i ..< i + n]"
  using ordered_chunks_ok [OF assms(1,2,4)] assms(3) by blast

theorem ordered_chunks_are_consecutive_witness:
  "\<exists>ps. generate_free_chunks_for_ordered_proxy_index (example_free_store True) 4 0 = Ok ps \<and>
     map pr_index (concat (map arr2_list ps)) = [0, 1, 2, 3]"
proof -
  have "\<exists>ps. generate_free_chunks_for_ordered_proxy_index (example_free_store True) 4 0 = Ok ps"
    by (simp add: generate_free_chunks_for_ordered_proxy_index_def get_free_proxy_resource_def
        example_free_store_def example_proxy_def hm_values_def hm_contains_key_def usize_add_def Let_def)
  then obtain ps where ps: "generate_free_chunks_for_ordered_proxy_index (example_free_store True) 4 0 = Ok ps" by blast
  from ordered_chunks_are_consecutive [OF example_free_keyed _ _ this] ps show ?thesis by (simp add: upt_rec)
qed

end
