(* ===== verification/UM_Update.thy ===== *)
theory UM_Update
  imports UM_Alloc
begin

section \<open>Updates of the metadata (src/broker/update.rs)\<close>

text \<open>
  The operations of \<open>MetaStoreUpdate\<close>. Each takes the store and returns its outcome and
  the store afterwards; an operation that fails late keeps the changes it has already made, as
  the Rust code does. Clock readings are parameters: the timestamp of a report, and the test
  whether a report is within its time to live. The effect of every operation on the registry is
  one \<open>reassign\<close>, or the registration or removal of one free proxy.
\<close>

type_synonym 'a result = "'a outcome \<times> meta_store"

definition bump_global_epoch :: "meta_store \<Rightarrow> meta_store" where
  "bump_global_epoch s = s\<lparr>global_epoch := global_epoch s + 1\<rparr>"


subsection \<open>Failure reports\<close>

definition add_failure :: "int \<Rightarrow> address \<Rightarrow> string \<Rightarrow> meta_store \<Rightarrow> bool \<times> meta_store" where
  "add_failure now address reporter_id s =
     (case hm_get (failures s) address of
        Some reports \<Rightarrow>
          if hm_contains_key reports reporter_id then (False, s)
          else (True, (bump_global_epoch s)\<lparr>failures := hm_modify address (hm_insert reporter_id now) (failures s)\<rparr>)
      | None \<Rightarrow>
          (True, (bump_global_epoch s)\<lparr>failures :=
             hm_modify address (hm_insert reporter_id now) (hm_or_insert address [] (failures s))\<rparr>))"

definition get_failures :: "(int \<Rightarrow> bool) \<Rightarrow> 64 word \<Rightarrow> meta_store \<Rightarrow> address list \<times> meta_store" where
  "get_failures within_ttl failure_quorum s =
     (let fs = filter (\<lambda>(_, reports). reports \<noteq> [])
                 (hm_map_values (filter (\<lambda>(_, report_time). within_ttl report_time)) (failures s))
      in (map fst (filter (\<lambda>(address, reports). length reports \<ge> unat failure_quorum
                              \<and> hm_contains_key (all_proxies s) address) fs),
          s\<lparr>failures := fs\<rparr>))"

definition cleanup_failures :: "(int \<Rightarrow> bool) \<Rightarrow> 64 word \<Rightarrow> meta_store \<Rightarrow> bool \<times> meta_store" where
  "cleanup_failures within_ttl failure_quorum s =
     (let s' = snd (get_failures within_ttl failure_quorum s)
      in (length (failures s) \<noteq> length (failures s'), s'))"


subsection \<open>Proxies\<close>

definition add_proxy ::
  "address \<Rightarrow> address arr2 \<Rightarrow> string option \<Rightarrow> usize option \<Rightarrow> meta_store \<Rightarrow> unit result" where
  "add_proxy proxy_address nodes host proxy_index s =
     (let parts = split_on (CHR '':'') proxy_address in
      if length parts \<noteq> 2 then (Err InvalidProxyAddress, s)
      else if enable_ordered_proxy s \<and> proxy_index = None then (Err MissingIndex, s)
      else
        (let h = (case host of Some h \<Rightarrow> h | None \<Rightarrow> hd parts);
             index = (if enable_ordered_proxy s then the proxy_index else 0);
             existed = hm_contains_key (all_proxies s) proxy_address;
             proxies = hm_or_insert proxy_address
               \<lparr>pr_proxy_address = proxy_address, pr_node_addresses = nodes, pr_host = h, pr_index = index,
                pr_cluster = None\<rparr> (all_proxies s);
             cleared = List.member (failed_proxies s) proxy_address \<or> hm_contains_key (failures s) proxy_address;
             s1 = s\<lparr>all_proxies := proxies,
                    failed_proxies := filter (\<lambda>a. a \<noteq> proxy_address) (failed_proxies s),
                    failures := hm_remove proxy_address (failures s)\<rparr>;
             s2 = (if \<not> existed \<or> cleared then bump_global_epoch s1 else s1)
         in (if existed then Err AlreadyExisted else Ok (), s2)))"

definition remove_proxy :: "address \<Rightarrow> meta_store \<Rightarrow> unit result" where
  "remove_proxy proxy_address s =
     (case hm_get (all_proxies s) proxy_address of
        None \<Rightarrow> (Err ProxyNotFound, s)
      | Some pr \<Rightarrow>
          if pr_cluster pr \<noteq> None then (Err InUse, s)
          else (Ok (), bump_global_epoch (s\<lparr>all_proxies := hm_remove proxy_address (all_proxies s),
                  failed_proxies := filter (\<lambda>a. a \<noteq> proxy_address) (failed_proxies s),
                  failures := hm_remove proxy_address (failures s)\<rparr>)))"

text \<open>
  Writing \<open>proxy.cluster\<close> of some proxies: with \<open>if let Some\<close> a missing one is skipped,
  with \<open>expect\<close> it is a panic (None).
\<close>

definition set_free :: "address list \<Rightarrow> (address, proxy_resource) hashmap \<Rightarrow> (address, proxy_resource) hashmap" where
  "set_free addrs m = fold (\<lambda>a. hm_modify a (set_owner None)) addrs m"

fun occupy ::
  "cluster_name \<Rightarrow> address list \<Rightarrow> (address, proxy_resource) hashmap \<Rightarrow> (address, proxy_resource) hashmap option" where
  "occupy name [] m = Some m"
| "occupy name (a # as) m =
     (if hm_contains_key m a then occupy name as (hm_modify a (set_owner (Some name)) m) else None)"


subsection \<open>Clusters\<close>

definition create_slots :: "usize \<Rightarrow> usize \<Rightarrow> usize \<Rightarrow> usize \<Rightarrow> slot_range \<times> usize" where
  "create_slots average remainder index curr_slot =
     (let r = (if index < remainder then 1 else 0);
          en = curr_slot + average + r
      in (\<lparr>sr_range_list = from_single_range (curr_slot, usize_sub en 1), sr_tag = TagNone\<rparr>, en))"

definition new_chunk :: "slot_range option arr2 \<Rightarrow> proxy_resource arr2 \<Rightarrow> chunk_store" where
  "new_chunk slots p =
     \<lparr>role_position = Normal, stable_slots = slots, migrating_slots = ([], []),
      proxy_addresses = (pr_proxy_address (fst p), pr_proxy_address (snd p)),
      hosts = (pr_host (fst p), pr_host (snd p)),
      node_addresses = (pr_node_addresses (fst p), pr_node_addresses (snd p))\<rparr>"

fun chunk_stores_from ::
  "usize \<Rightarrow> usize \<Rightarrow> bool \<Rightarrow> usize \<Rightarrow> usize \<Rightarrow> proxy_resource arr2 list \<Rightarrow> chunk_store list" where
  "chunk_stores_from average remainder with_slots i curr_slot [] = []"
| "chunk_stores_from average remainder with_slots i curr_slot (p # ps) =
     (if with_slots then
        (let (a, curr1) = create_slots average remainder (2 * i) curr_slot;
             (b, curr2) = create_slots average remainder (2 * i + 1) curr1
         in new_chunk (Some a, Some b) p # chunk_stores_from average remainder with_slots (i + 1) curr2 ps)
      else new_chunk (None, None) p # chunk_stores_from average remainder with_slots (i + 1) curr_slot ps)"

text \<open>\<open>SLOT_NUM / master_num\<close> panics for an empty list of proxies.\<close>

definition proxy_resource_to_chunk_store :: "proxy_resource arr2 list \<Rightarrow> bool \<Rightarrow> chunk_store list option" where
  "proxy_resource_to_chunk_store ps with_slots =
     (let master_num = length ps * 2;
          average = SLOT_NUM div master_num;
          remainder = SLOT_NUM - average * master_num
      in if master_num = 0 then None else Some (chunk_stores_from average remainder with_slots 0 0 ps))"

definition chunks_addresses :: "chunk_store list \<Rightarrow> address list" where
  "chunks_addresses chunks = concat (map (\<lambda>chunk. arr2_list (proxy_addresses chunk)) chunks)"

definition add_cluster :: "string \<Rightarrow> usize \<Rightarrow> cluster_config \<Rightarrow> meta_store \<Rightarrow> unit result" where
  "add_cluster cluster_name node_num default_cluster_config s =
     (if enable_ordered_proxy s \<and> clusters s \<noteq> [] then (Err OneClusterAlreadyExisted, s)
      else
        (case cluster_name_try_from cluster_name of
           None \<Rightarrow> (Err InvalidClusterName, s)
         | Some name \<Rightarrow>
             if hm_contains_key (clusters s) name then (Err AlreadyExisted, s)
             else if node_num mod 4 \<noteq> 0 \<or> node_num div 2 = 0 then (Err InvalidNodeNum, s)
             else
               (case allocate_proxies s (node_num div 2) 0 of
                  Err e \<Rightarrow> (Err e, s)
                | Panic \<Rightarrow> (Panic, s)
                | Ok ps \<Rightarrow>
                    (case proxy_resource_to_chunk_store ps True of
                       None \<Rightarrow> (Panic, s)
                     | Some chunks \<Rightarrow>
                         (let s1 = bump_global_epoch s;
                              c = \<lparr>cs_epoch = global_epoch s1, cs_name = name, cs_chunks = chunks,
                                   cs_config = default_cluster_config\<rparr>
                          in case occupy name (chunks_addresses chunks) (all_proxies s1) of
                               None \<Rightarrow> (Panic, s1)
                             | Some proxies \<Rightarrow>
                                 (Ok (), s1\<lparr>clusters := hm_insert name c (clusters s1), all_proxies := proxies\<rparr>))))))"

definition remove_cluster :: "string \<Rightarrow> meta_store \<Rightarrow> unit result" where
  "remove_cluster cluster_name s =
     (case cluster_name_try_from cluster_name of
        None \<Rightarrow> (Err InvalidClusterName, s)
      | Some name \<Rightarrow>
          (case hm_get (clusters s) name of
             None \<Rightarrow> (Err ClusterNotFound, s)
           | Some c \<Rightarrow>
               (Ok (), bump_global_epoch (s\<lparr>clusters := hm_remove name (clusters s),
                  all_proxies := set_free (chunks_addresses (cs_chunks c)) (all_proxies s)\<rparr>))))"

definition auto_add_nodes :: "string \<Rightarrow> usize \<Rightarrow> meta_store \<Rightarrow> node list result" where
  "auto_add_nodes cluster_name num s =
     (case cluster_name_try_from cluster_name of
        None \<Rightarrow> (Err InvalidClusterName, s)
      | Some name \<Rightarrow>
          (case hm_get (clusters s) name of
             None \<Rightarrow> (Err ClusterNotFound, s)
           | Some c \<Rightarrow>
               if cs_is_migrating c then (Err MigrationRunning, s)
               else if num mod 4 \<noteq> 0 \<or> num div 2 = 0 then (Err InvalidNodeNum, s)
               else
                 (case allocate_proxies s (num div 2) (length (cs_chunks c) * CHUNK_PARTS) of
                    Err e \<Rightarrow> (Err e, s)
                  | Panic \<Rightarrow> (Panic, s)
                  | Ok ps \<Rightarrow>
                      (case proxy_resource_to_chunk_store ps False of
                         None \<Rightarrow> (Panic, s)
                       | Some chunks \<Rightarrow>
                           (let s1 = bump_global_epoch s;
                                c' = c\<lparr>cs_chunks := cs_chunks c @ chunks, cs_epoch := global_epoch s1\<rparr>;
                                s2 = s1\<lparr>clusters := hm_modify name (\<lambda>_. c') (clusters s1)\<rparr>
                            in case cluster_store_to_cluster c' of
                                 None \<Rightarrow> (Panic, s2)
                               | Some cl \<Rightarrow>
                                   (case occupy name (map nd_proxy_address (cl_nodes cl)) (all_proxies s2) of
                                      None \<Rightarrow> (Panic, s2)
                                    | Some proxies \<Rightarrow>
                                        if length (cl_nodes cl) < num then (Panic, s2)
                                        else (Ok (drop (length (cl_nodes cl) - num) (cl_nodes cl)),
                                              s2\<lparr>all_proxies := proxies\<rparr>)))))))"

definition auto_scale_up_nodes :: "string \<Rightarrow> usize \<Rightarrow> meta_store \<Rightarrow> node list result" where
  "auto_scale_up_nodes cluster_name expected_num s =
     (case cluster_name_try_from cluster_name of
        None \<Rightarrow> (Err InvalidClusterName, s)
      | Some name \<Rightarrow>
          (case hm_get (clusters s) name of
             None \<Rightarrow> (Err ClusterNotFound, s)
           | Some c \<Rightarrow>
               let existing_node_num = length (cs_chunks c) * 4
               in if expected_num \<le> existing_node_num then (Err NodeNumAlreadyEnough, s)
                  else auto_add_nodes cluster_name (expected_num - existing_node_num) s))"

text \<open>The chunks \<open>retain\<close> keeps: those with stable or migrating slots.\<close>

definition chunk_has_slots :: "chunk_store \<Rightarrow> bool" where
  "chunk_has_slots chunk \<longleftrightarrow>
     list_ex (\<lambda>slots. slots \<noteq> None) (arr2_list (stable_slots chunk))
     \<or> list_ex (\<lambda>slots. slots \<noteq> []) (arr2_list (migrating_slots chunk))"

definition auto_delete_free_nodes :: "string \<Rightarrow> meta_store \<Rightarrow> unit result" where
  "auto_delete_free_nodes cluster_name s =
     (case cluster_name_try_from cluster_name of
        None \<Rightarrow> (Err InvalidClusterName, s)
      | Some name \<Rightarrow>
          (case hm_get (clusters s) name of
             None \<Rightarrow> (Err ClusterNotFound, s)
           | Some c \<Rightarrow>
               if cs_is_migrating c then (Err MigrationRunning, s)
               else
                 (let removed = filter (\<lambda>chunk. \<not> chunk_has_slots chunk) (cs_chunks c);
                      c' = c\<lparr>cs_chunks := filter chunk_has_slots (cs_chunks c)\<rparr>
                  in if removed = [] then (Err FreeNodeNotFound, s)
                     else (Ok (), bump_global_epoch (s\<lparr>
                             clusters := hm_modify name (\<lambda>_. cs_set_epoch (global_epoch s + 1) c') (clusters s),
                             all_proxies := set_free (chunks_addresses removed) (all_proxies s)\<rparr>)))))"

definition auto_delete_free_nodes_if_exists :: "string \<Rightarrow> meta_store \<Rightarrow> unit result" where
  "auto_delete_free_nodes_if_exists cluster_name s =
     (case auto_delete_free_nodes cluster_name s of
        (Err e, s') \<Rightarrow> (if e = MigrationRunning \<or> e = FreeNodeNotFound then Ok () else Err e, s')
      | r \<Rightarrow> r)"



subsection \<open>Failover\<close>

definition set_mr_epoch :: "epoch \<Rightarrow> migration_slot_range_store \<Rightarrow> migration_slot_range_store" where
  "set_mr_epoch e r = r\<lparr>mr_meta := (mr_meta r)\<lparr>ms_epoch := e\<rparr>\<rparr>"

definition src_position :: "migration_meta_store \<Rightarrow> usize \<times> usize" where
  "src_position m = (src_chunk_index m, src_chunk_part m)"

definition dst_position :: "migration_meta_store \<Rightarrow> usize \<times> usize" where
  "dst_position m = (dst_chunk_index m, dst_chunk_part m)"

definition peer_positions :: "migration_slot_range_store list \<Rightarrow> (usize \<times> usize) list" where
  "peer_positions es = concat (map (\<lambda>e. [src_position (mr_meta e), dst_position (mr_meta e)]) es)"

text \<open>
  The first loop of \<open>takeover_master\<close>, which stops at the chunk of the failed proxy. None
  is its early return: the other proxy already has both masters.
\<close>

fun takeover_scan ::
  "epoch \<Rightarrow> address \<Rightarrow> chunk_store list \<Rightarrow> (chunk_store list \<times> (usize \<times> usize) list) option" where
  "takeover_scan new_epoch failed [] = Some ([], [])"
| "takeover_scan new_epoch failed (chunk # chunks) =
     (if fst (proxy_addresses chunk) = failed then
        (if role_position chunk = SecondChunkMaster then None
         else Some (chunk\<lparr>role_position := SecondChunkMaster,
                      migrating_slots := arr2_modify 0 (map (set_mr_epoch new_epoch)) (migrating_slots chunk)\<rparr> # chunks,
                    peer_positions (fst (migrating_slots chunk))))
      else if snd (proxy_addresses chunk) = failed then
        (if role_position chunk = FirstChunkMaster then None
         else Some (chunk\<lparr>role_position := FirstChunkMaster,
                      migrating_slots := arr2_modify 1 (map (set_mr_epoch new_epoch)) (migrating_slots chunk)\<rparr> # chunks,
                    peer_positions (snd (migrating_slots chunk))))
      else map_option (\<lambda>(chunks', positions). (chunk # chunks', positions))
             (takeover_scan new_epoch failed chunks))"

definition reset_epoch :: "epoch \<Rightarrow> (usize \<times> usize) list \<Rightarrow> migration_slot_range_store \<Rightarrow> migration_slot_range_store" where
  "reset_epoch new_epoch positions e =
     (if List.member positions (src_position (mr_meta e)) \<or> List.member positions (dst_position (mr_meta e))
      then set_mr_epoch new_epoch e else e)"

definition map_entries ::
  "(migration_slot_range_store \<Rightarrow> migration_slot_range_store) \<Rightarrow> chunk_store \<Rightarrow> chunk_store" where
  "map_entries f chunk = chunk\<lparr>migrating_slots := map_prod (map f) (map f) (migrating_slots chunk)\<rparr>"

definition takeover_master :: "cluster_name \<Rightarrow> address \<Rightarrow> meta_store \<Rightarrow> unit result" where
  "takeover_master name failed s =
     (let s1 = bump_global_epoch s; new_epoch = global_epoch s1 in
      case hm_get (clusters s1) name of
        None \<Rightarrow> (Err ClusterNotFound, s1)
      | Some c \<Rightarrow>
          (case takeover_scan new_epoch failed (cs_chunks c) of
             None \<Rightarrow> (Ok (), s1)
           | Some (chunks, positions) \<Rightarrow>
               (Ok (), s1\<lparr>clusters := hm_modify name
                  (\<lambda>_. c\<lparr>cs_chunks := map (map_entries (reset_epoch new_epoch positions)) chunks, cs_epoch := new_epoch\<rparr>)
                  (clusters s1)\<rparr>)))"

fun replace_in_chunks :: "address \<Rightarrow> proxy_resource \<Rightarrow> chunk_store list \<Rightarrow> chunk_store list" where
  "replace_in_chunks failed pr [] = []"
| "replace_in_chunks failed pr (chunk # chunks) =
     (if fst (proxy_addresses chunk) = failed then
        chunk\<lparr>hosts := arr2_modify 0 (\<lambda>_. pr_host pr) (hosts chunk),
              proxy_addresses := arr2_modify 0 (\<lambda>_. pr_proxy_address pr) (proxy_addresses chunk),
              node_addresses := arr2_modify 0 (\<lambda>_. pr_node_addresses pr) (node_addresses chunk)\<rparr> # chunks
      else if snd (proxy_addresses chunk) = failed then
        chunk\<lparr>hosts := arr2_modify 1 (\<lambda>_. pr_host pr) (hosts chunk),
              proxy_addresses := arr2_modify 1 (\<lambda>_. pr_proxy_address pr) (proxy_addresses chunk),
              node_addresses := arr2_modify 1 (\<lambda>_. pr_node_addresses pr) (node_addresses chunk)\<rparr> # chunks
      else chunk # replace_in_chunks failed pr chunks)"

definition hs_insert :: "'a \<Rightarrow> 'a list \<Rightarrow> 'a list" where
  "hs_insert x xs = (if List.member xs x then xs else xs @ [x])"

text \<open>The last part of \<open>replace_failed_proxy\<close>, once a free proxy is found.\<close>

definition put_new_proxy ::
  "cluster_name \<Rightarrow> address \<Rightarrow> proxy_resource \<Rightarrow> 64 word \<Rightarrow> meta_store \<Rightarrow> proxy option result" where
  "put_new_proxy name failed pr migration_limit s =
     (let s1 = bump_global_epoch s in
      case hm_get (clusters s1) name of
        None \<Rightarrow> (Panic, s1)
      | Some c \<Rightarrow>
          (let c' = cs_set_epoch (global_epoch s1) (c\<lparr>cs_chunks := replace_in_chunks failed pr (cs_chunks c)\<rparr>);
               s2 = s1\<lparr>clusters := hm_modify name (\<lambda>_. c') (clusters s1),
                       all_proxies := hm_modify (pr_proxy_address pr) (set_owner (Some name))
                         (hm_modify failed (set_owner None) (all_proxies s1))\<rparr>
           in case get_proxy_by_address s2 (pr_proxy_address pr) migration_limit of
                Some (Some proxy) \<Rightarrow> (Ok (Some proxy), s2)
              | _ \<Rightarrow> (Panic, s2)))"

definition replace_failed_proxy :: "address \<Rightarrow> 64 word \<Rightarrow> meta_store \<Rightarrow> proxy option result" where
  "replace_failed_proxy failed migration_limit s =
     (case hm_get (all_proxies s) failed of
        None \<Rightarrow> (Err ProxyNotFound, s)
      | Some fpr \<Rightarrow>
          (case pr_cluster fpr of
             None \<Rightarrow> (Ok None, s\<lparr>failures := hm_remove failed (failures s),
                              failed_proxies := hs_insert failed (failed_proxies s)\<rparr>)
           | Some name \<Rightarrow>
               (case takeover_master name failed s of
                  (Err e, s1) \<Rightarrow> (Err e, s1)
                | (Panic, s1) \<Rightarrow> (Panic, s1)
                | (Ok _, s1) \<Rightarrow>
                    if enable_ordered_proxy s1 then (Ok None, bump_global_epoch s1)
                    else
                      (let s2 = s1\<lparr>failed_proxies := hs_insert failed (failed_proxies s1)\<rparr>
                       in case generate_new_free_proxy s2 failed of
                            Err e \<Rightarrow> (Err e, s2)
                          | Panic \<Rightarrow> (Panic, s2)
                          | Ok pr \<Rightarrow> put_new_proxy name failed pr migration_limit s2))))"

definition balance_masters :: "string \<Rightarrow> meta_store \<Rightarrow> unit result" where
  "balance_masters cluster_name s =
     (case cluster_name_try_from cluster_name of
        None \<Rightarrow> (Err InvalidClusterName, s)
      | Some name \<Rightarrow>
          (let failed_exists = (\<lambda>addrs. list_ex (\<lambda>a. List.member (failed_proxies s) a \<or> hm_contains_key (failures s) a)
                                          (arr2_list addrs))
           in case hm_get (clusters s) name of
                None \<Rightarrow> (Err ClusterNotFound, s)
              | Some c \<Rightarrow>
                  (Ok (), bump_global_epoch (s\<lparr>clusters := hm_modify name
                     (\<lambda>_. cs_set_epoch (global_epoch s + 1) (c\<lparr>cs_chunks :=
                        map (\<lambda>chunk. if failed_exists (proxy_addresses chunk) then chunk
                                     else chunk\<lparr>role_position := Normal\<rparr>) (cs_chunks c)\<rparr>)) (clusters s)\<rparr>))))"

definition change_config :: "string \<Rightarrow> (string, string) hashmap \<Rightarrow> meta_store \<Rightarrow> unit result" where
  "change_config cluster_name config s =
     (case cluster_name_try_from cluster_name of
        None \<Rightarrow> (Err InvalidClusterName, s)
      | Some name \<Rightarrow>
          (case hm_get (clusters s) name of
             None \<Rightarrow> (Err ClusterNotFound, s)
           | Some c \<Rightarrow>
               if cs_is_migrating c then (Err MigrationRunning, s)
               else
                 (case cluster_config_set_fields (cs_config c) config of
                    Inl (k, v, e) \<Rightarrow> (Err (InvalidConfig k v (config_error_to_string e)), s)
                  | Inr cfg \<Rightarrow>
                      (Ok (), bump_global_epoch (s\<lparr>clusters := hm_modify name
                         (\<lambda>_. cs_set_epoch (global_epoch s + 1) (c\<lparr>cs_config := cfg\<rparr>)) (clusters s)\<rparr>)))))"



subsection \<open>What the pieces do to the registry\<close>

definition registry_ok :: "meta_store \<Rightarrow> bool" where
  "registry_ok s \<longleftrightarrow> keyed s \<and> consistent (registry_of s)"

lemma registry_of_simps [simp]:
  "registry_of (bump_global_epoch s) = registry_of s"
  "registry_of (s\<lparr>failures := fs\<rparr>) = registry_of s"
  "registry_of (s\<lparr>failed_proxies := ps\<rparr>) = registry_of s"
  "registry_of (s\<lparr>global_epoch := e\<rparr>) = registry_of s"
  by (simp_all add: registry_of_def bump_global_epoch_def)

lemma keyed_simps [simp]:
  "keyed (bump_global_epoch s) = keyed s"
  "keyed (s\<lparr>failures := fs\<rparr>) = keyed s"
  "keyed (s\<lparr>failed_proxies := ps\<rparr>) = keyed s"
  "keyed (s\<lparr>global_epoch := e\<rparr>) = keyed s"
  by (simp_all add: keyed_def bump_global_epoch_def)

lemma bump_simps [simp]:
  "clusters (bump_global_epoch s) = clusters s" "all_proxies (bump_global_epoch s) = all_proxies s"
  "failed_proxies (bump_global_epoch s) = failed_proxies s" "failures (bump_global_epoch s) = failures s"
  "enable_ordered_proxy (bump_global_epoch s) = enable_ordered_proxy s" "version (bump_global_epoch s) = version s"
  "global_epoch (bump_global_epoch s) = global_epoch s + 1"
  by (simp_all add: bump_global_epoch_def)

lemma registry_ok_simps [simp]:
  "registry_ok (bump_global_epoch s) = registry_ok s"
  "registry_ok (s\<lparr>failures := fs\<rparr>) = registry_ok s"
  "registry_ok (s\<lparr>failed_proxies := ps\<rparr>) = registry_ok s"
  "registry_ok (s\<lparr>global_epoch := e\<rparr>) = registry_ok s"
  by (simp_all add: registry_ok_def)

lemma hm_get_set_free:
  "hm_get (set_free addrs m) a = (if a \<in> set addrs then map_option (set_owner None) (hm_get m a) else hm_get m a)"
proof -
  have idem: "set_owner n (set_owner n pr) = set_owner n pr" for n pr by (simp add: set_owner_def)
  show ?thesis unfolding set_free_def
    by (induction addrs arbitrary: m) (auto simp: option.map_comp comp_def idem)
qed

lemma hm_inv_set_free [simp]: "hm_inv m \<Longrightarrow> hm_inv (set_free addrs m)"
  unfolding set_free_def by (induction addrs arbitrary: m) auto

lemma occupy_spec:
  assumes "\<And>a. a \<in> set addrs \<Longrightarrow> hm_get m a \<noteq> None"
  shows "\<exists>m'. occupy name addrs m = Some m' \<and> (hm_inv m \<longrightarrow> hm_inv m') \<and>
    (\<forall>a. hm_get m' a = (if a \<in> set addrs then map_option (set_owner (Some name)) (hm_get m a) else hm_get m a))"
  using assms
proof (induction addrs arbitrary: m)
  case (Cons x xs)
  have idem: "set_owner n (set_owner n pr) = set_owner n pr" for n pr by (simp add: set_owner_def)
  let ?m = "hm_modify x (set_owner (Some name)) m"
  have "hm_get ?m a \<noteq> None" if "a \<in> set xs" for a using Cons.prems that by auto
  from Cons.IH [of ?m, OF this] obtain m' where m': "occupy name xs ?m = Some m'" "hm_inv ?m \<longrightarrow> hm_inv m'"
    "\<forall>a. hm_get m' a = (if a \<in> set xs then map_option (set_owner (Some name)) (hm_get ?m a) else hm_get ?m a)" by blast
  have "hm_get m x \<noteq> None" using Cons.prems by simp
  then have "occupy name (x # xs) m = Some m'" using m'(1) by (simp add: hm_contains_key_def)
  moreover have "hm_get m' a = (if a \<in> set (x # xs) then map_option (set_owner (Some name)) (hm_get m a) else hm_get m a)" for a
    using m'(3) by (simp add: option.map_comp comp_def idem)
  ultimately show ?case using m'(2) by (intro exI [of _ m']) auto
qed simp

lemma set_chunks_addresses: "set (chunks_addresses chunks) = member_addrs (members_of chunks)"
  by (induction chunks) (auto simp: chunks_addresses_def chunk_members_def)

lemma members_of_name_registry:
  "members_of_name (registry_of s) name = (case hm_get (clusters s) name of None \<Rightarrow> [] | Some c \<Rightarrow> members_of (cs_chunks c))"
  by (simp add: members_of_name_def registry_of_def split: option.split)

text \<open>Replacing a cluster by one with the same members is invisible to the registry.\<close>

lemma registry_ok_modify_cluster:
  assumes "registry_ok s" "hm_get (clusters s) name = Some c" "members_of (cs_chunks c') = members_of (cs_chunks c)"
  shows "registry_ok (s\<lparr>clusters := hm_modify name (\<lambda>_. c') (clusters s)\<rparr>)"
proof -
  have "registry_of (s\<lparr>clusters := hm_modify name (\<lambda>_. c') (clusters s)\<rparr>) = registry_of s"
    using assms(2,3) by (auto simp: registry_of_def fun_eq_iff)
  with assms(1) show ?thesis by (simp add: registry_ok_def keyed_def)
qed

text \<open>The registry after a change of one cluster and of the owners of some proxies.\<close>

lemma registry_ok_reassign:
  assumes ok: "registry_ok s" and inv: "hm_inv cl" "hm_inv ps"
    and cl: "\<And>name'. hm_get cl name' = (if name' = name then c' else hm_get (clusters s) name')"
    and ms: "ms = (case c' of None \<Rightarrow> [] | Some c \<Rightarrow> members_of (cs_chunks c))"
    and d: "distinct (map fst ms)" and m: "\<forall>m \<in> set ms. member_ok (registry_of s) {None, Some name} m"
    and ps: "\<And>a. hm_get ps a =
        (if a \<in> member_addrs ms then map_option (set_owner (Some name)) (hm_get (all_proxies s) a)
         else if a \<in> member_addrs (members_of_name (registry_of s) name)
              then map_option (set_owner None) (hm_get (all_proxies s) a)
         else hm_get (all_proxies s) a)"
  shows "registry_ok (s\<lparr>clusters := cl, all_proxies := ps\<rparr>)"
proof -
  let ?new = "map_option (\<lambda>c. members_of (cs_chunks c)) c'"
  have new: "(case ?new of None \<Rightarrow> [] | Some ms \<Rightarrow> ms) = ms" by (simp add: ms split: option.split)
  have "registry_of (s\<lparr>clusters := cl, all_proxies := ps\<rparr>) = reassign name ?new (registry_of s)"
    unfolding reassign_def Let_def new by (auto simp: registry_of_def fun_eq_iff cl ps)
  moreover have "consistent (reassign name ?new (registry_of s))"
    using reassign_consistent [of "registry_of s" ?new name, unfolded new, OF _ d m] ok
    by (simp add: registry_ok_def)
  moreover have "keyed (s\<lparr>clusters := cl, all_proxies := ps\<rparr>)"
    using ok inv by (auto simp: registry_ok_def keyed_def ps split: if_splits)
  ultimately show ?thesis by (simp add: registry_ok_def)
qed

lemma registry_ok_members:
  assumes "registry_ok s" "hm_get (clusters s) name = Some c"
  shows "distinct (map fst (members_of (cs_chunks c)))"
    and "m \<in> set (members_of (cs_chunks c)) \<Longrightarrow> member_ok (registry_of s) {Some name} m"
proof -
  have "reg_members (registry_of s) name = Some (members_of (cs_chunks c))"
    using assms(2) by (simp add: registry_of_def)
  then have "distinct (map fst (members_of (cs_chunks c))) \<and>
      (\<forall>m \<in> set (members_of (cs_chunks c)). member_ok (registry_of s) {Some name} m)"
    using assms(1) unfolding registry_ok_def consistent_def by blast
  then show "distinct (map fst (members_of (cs_chunks c)))"
    and "m \<in> set (members_of (cs_chunks c)) \<Longrightarrow> member_ok (registry_of s) {Some name} m" by blast+
qed

lemma registry_ok_owned:
  assumes "registry_ok s" "hm_get (clusters s) name = Some c" "a \<in> member_addrs (members_of (cs_chunks c))"
  shows "\<exists>pr. hm_get (all_proxies s) a = Some pr \<and> pr_cluster pr = Some name"
  using consistent_owner [of "registry_of s" a name] assms
  by (auto simp: registry_ok_def members_of_name_registry) (auto simp: registry_of_def)

lemma registry_ok_member_of:
  assumes "registry_ok s" "hm_get (all_proxies s) a = Some pr" "pr_cluster pr = Some name"
  shows "\<exists>c. hm_get (clusters s) name = Some c \<and> a \<in> member_addrs (members_of (cs_chunks c))"
proof -
  have "\<forall>a pr name. reg_proxies (registry_of s) a = Some pr \<longrightarrow> pr_cluster pr = Some name \<longrightarrow>
      (\<exists>ms. reg_members (registry_of s) name = Some ms \<and> a \<in> member_addrs ms)"
    using assms(1) unfolding registry_ok_def consistent_def by blast
  then have "\<exists>ms. reg_members (registry_of s) name = Some ms \<and> a \<in> member_addrs ms"
    using assms(2,3) by (simp add: registry_of_def)
  then show ?thesis by (auto simp: registry_of_def)
qed

lemma set_owner_same: "pr_cluster pr = n \<Longrightarrow> set_owner n pr = pr"
  by (cases pr) (auto simp: set_owner_def)



subsection \<open>Every update keeps the registry\<close>

lemma add_failure_registry: "registry_ok s \<Longrightarrow> registry_ok (snd (add_failure now a r s))"
  by (auto simp: add_failure_def split: option.split)

lemma get_failures_registry: "registry_ok s \<Longrightarrow> registry_ok (snd (get_failures w q s))"
  by (simp add: get_failures_def Let_def)

lemma cleanup_failures_registry: "registry_ok s \<Longrightarrow> registry_ok (snd (cleanup_failures w q s))"
  by (simp add: cleanup_failures_def Let_def get_failures_registry)

lemma registry_ok_register:
  assumes ok: "registry_ok s" and pr: "pr_proxy_address pr = a" "pr_cluster pr = None"
    and new: "hm_get (all_proxies s) a = None"
  shows "registry_ok (s\<lparr>all_proxies := hm_insert a pr (all_proxies s)\<rparr>)"
proof -
  let ?s = "s\<lparr>all_proxies := hm_insert a pr (all_proxies s)\<rparr>"
  have P: "reg_proxies (registry_of ?s) = (reg_proxies (registry_of s))(a \<mapsto> pr)"
    and C: "reg_members (registry_of ?s) = reg_members (registry_of s)"
    by (auto simp: registry_of_def fun_eq_iff)
  have none: "reg_proxies (registry_of s) a = None" using new by (simp add: registry_of_def)
  have mono: "member_ok (registry_of ?s) ns m" if "member_ok (registry_of s) ns m" for ns m
    using that none by (auto simp: member_ok_def P)
  have "keyed ?s" using ok pr by (auto simp: registry_ok_def keyed_def split: if_splits)
  moreover have "consistent (registry_of ?s)"
    unfolding consistent_def P C using ok pr mono
    by (simp add: registry_ok_def consistent_def)
  ultimately show ?thesis by (simp add: registry_ok_def)
qed

lemma registry_ok_forget:
  assumes ok: "registry_ok s" and pr: "hm_get (all_proxies s) a = Some pr" "pr_cluster pr = None"
  shows "registry_ok (s\<lparr>all_proxies := hm_remove a (all_proxies s)\<rparr>)"
proof -
  let ?s = "s\<lparr>all_proxies := hm_remove a (all_proxies s)\<rparr>"
  have P: "reg_proxies (registry_of ?s) = (reg_proxies (registry_of s))(a := None)"
    and C: "reg_members (registry_of ?s) = reg_members (registry_of s)"
    by (auto simp: registry_of_def fun_eq_iff)
  have free: "reg_proxies (registry_of s) a = Some pr" using pr(1) by (simp add: registry_of_def)
  have keep: "member_ok (registry_of ?s) {Some n} m" if "member_ok (registry_of s) {Some n} m" for n m
    using that free pr(2) by (auto simp: member_ok_def P)
  have "keyed ?s" using ok by (auto simp: registry_ok_def keyed_def split: if_splits)
  moreover have "consistent (registry_of ?s)"
    unfolding consistent_def P C using ok keep
    by (simp add: registry_ok_def consistent_def)
  ultimately show ?thesis by (simp add: registry_ok_def)
qed

lemma all_proxies_same [simp]: "s\<lparr>all_proxies := all_proxies s\<rparr> = s"
  by simp

lemma registry_ok_commute [simp]:
  "registry_ok (s\<lparr>all_proxies := ps, failed_proxies := f, failures := g\<rparr>) = registry_ok (s\<lparr>all_proxies := ps\<rparr>)"
  by (simp add: registry_ok_def keyed_def registry_of_def)

lemma add_proxy_registry: "registry_ok s \<Longrightarrow> registry_ok (snd (add_proxy a nodes h i s))"
  by (auto simp: add_proxy_def Let_def hm_or_insert_def hm_contains_key_def intro!: registry_ok_register)

lemma remove_proxy_registry: "registry_ok s \<Longrightarrow> registry_ok (snd (remove_proxy a s))"
  by (auto simp: remove_proxy_def split: option.split intro: registry_ok_forget)



subsection \<open>New chunks\<close>

definition resource_member :: "proxy_resource \<Rightarrow> member" where
  "resource_member pr = (pr_proxy_address pr, pr_host pr, pr_node_addresses pr)"

lemma members_chunk_stores_from:
  "members_of (chunk_stores_from av rm ws i cur ps) = map resource_member (concat (map arr2_list ps))"
  by (cases ws; induction ps arbitrary: i cur)
    (simp_all add: chunk_members_def new_chunk_def resource_member_def arr2_list_def split_beta Let_def)

lemma length_chunk_stores_from [simp]: "length (chunk_stores_from av rm ws i cur ps) = length ps"
  by (cases ws; induction ps arbitrary: i cur) (simp_all add: split_beta Let_def)

context free_proxy_allocator
begin

lemma new_members:
  assumes "keyed s" "even n" "gen s n i = Ok ps"
  shows "distinct (map fst (map resource_member (concat (map arr2_list ps))))"
    and "m \<in> set (map resource_member (concat (map arr2_list ps))) \<Longrightarrow> member_ok (registry_of s) {None} m"
proof -
  have pf: "pairs_free s ps" using gen_ok [OF assms] by blast
  then show "distinct (map fst (map resource_member (concat (map arr2_list ps))))"
    by (simp add: pairs_free_def resource_member_def comp_def)
  show "member_ok (registry_of s) {None} m" if "m \<in> set (map resource_member (concat (map arr2_list ps)))"
  proof -
    from that obtain pr where pr: "pr \<in> set (concat (map arr2_list ps))" "m = resource_member pr"
      unfolding set_map by blast
    with pf have "is_free s pr" by (simp only: pairs_free_def)
    with pr(2) show ?thesis by (simp add: member_ok_def resource_member_def registry_of_def is_free_def)
  qed
qed

lemma new_chunks:
  assumes "keyed s" "even n" "0 < n" "gen s n i = Ok ps"
  shows "\<exists>chunks. proxy_resource_to_chunk_store ps ws = Some chunks \<and> length chunks * 2 = n \<and>
    chunks = chunk_stores_from (SLOT_NUM div n) (SLOT_NUM - SLOT_NUM div n * n) ws 0 0 ps \<and>
    distinct (map fst (members_of chunks)) \<and> (\<forall>m \<in> set (members_of chunks). member_ok (registry_of s) {None} m)"
proof -
  let ?chunks = "chunk_stores_from (SLOT_NUM div n) (SLOT_NUM - SLOT_NUM div n * n) ws 0 0 ps"
  have n: "length ps * 2 = n" using gen_ok [OF assms(1,2,4)] by blast
  then have "proxy_resource_to_chunk_store ps ws = Some ?chunks"
    using assms(3) by (auto simp: proxy_resource_to_chunk_store_def Let_def)
  moreover have "distinct (map fst (members_of ?chunks))" "\<forall>m \<in> set (members_of ?chunks). member_ok (registry_of s) {None} m"
    unfolding members_chunk_stores_from using new_members [OF assms(1,2,4)] by blast+
  ultimately show ?thesis using n by auto
qed

end

lemma cluster_name_try_from_if: "cluster_name_try_from s = (if valid_cluster_name s then Some s else None)"
  by (auto simp: valid_cluster_name_def cluster_name_try_from_def)

lemma member_ok_mono: "member_ok r A m \<Longrightarrow> A \<subseteq> B \<Longrightarrow> member_ok r B m"
  by (auto simp: member_ok_def)

lemma member_ok_proxy: "member_ok (registry_of s) A m \<Longrightarrow> hm_get (all_proxies s) (fst m) \<noteq> None"
  by (auto simp: member_ok_def registry_of_def)

lemma add_cluster_cases:
  assumes reg: "registry_ok s"
  obtains (err) e where "add_cluster cname num cfg s = (Err e, s)"
  | (ok) name ps chunks proxies c where
      "add_cluster cname num cfg s =
         (Ok (), (bump_global_epoch s)\<lparr>clusters := hm_insert name c (clusters s), all_proxies := proxies\<rparr>)"
      "name = cname" "valid_cluster_name name" "hm_get (clusters s) name = None" "num mod 4 = 0" "0 < num"
      "allocate_proxies s (num div 2) 0 = Ok ps"
      "length chunks * 4 = num"
      "chunks = chunk_stores_from (SLOT_NUM div (num div 2)) (SLOT_NUM - SLOT_NUM div (num div 2) * (num div 2)) True 0 0 ps"
      "distinct (map fst (members_of chunks))" "\<forall>m \<in> set (members_of chunks). member_ok (registry_of s) {None} m"
      "hm_inv proxies"
      "\<And>a. hm_get proxies a = (if a \<in> member_addrs (members_of chunks)
          then map_option (set_owner (Some name)) (hm_get (all_proxies s) a) else hm_get (all_proxies s) a)"
      "c = \<lparr>cs_epoch = global_epoch s + 1, cs_name = name, cs_chunks = chunks, cs_config = cfg\<rparr>"
proof (cases "(enable_ordered_proxy s \<and> clusters s \<noteq> []) \<or> \<not> valid_cluster_name cname
    \<or> hm_get (clusters s) cname \<noteq> None \<or> num mod 4 \<noteq> 0 \<or> num = 0")
  case True
  then have "\<exists>e. add_cluster cname num cfg s = (Err e, s)"
    unfolding add_cluster_def cluster_name_try_from_if hm_contains_key_def by (elim disjE) simp_all
  with err show ?thesis by blast
next
  case False
  let ?n = "num div 2"
  have n: "even ?n" "0 < ?n" using False by (auto elim: dvdE simp: dvd_eq_mod_eq_0 [symmetric])
  have k: "keyed s" using reg by (simp add: registry_ok_def)
  have name: "cluster_name_try_from cname = Some cname" using False by (simp add: valid_cluster_name_def)
  from k n(1) show ?thesis
  proof (cases rule: allocator.gen_cases [of s ?n 0])
    case (ok ps)
    from allocator.new_chunks [OF k n ok(1), of True] obtain chunks where
      ch: "proxy_resource_to_chunk_store ps True = Some chunks" "length chunks * 2 = ?n"
        "chunks = chunk_stores_from (SLOT_NUM div ?n) (SLOT_NUM - SLOT_NUM div ?n * ?n) True 0 0 ps"
        "distinct (map fst (members_of chunks))" "\<forall>m \<in> set (members_of chunks). member_ok (registry_of s) {None} m"
      by blast
    have "hm_get (all_proxies s) a \<noteq> None" if "a \<in> set (chunks_addresses chunks)" for a
      using that ch(5) member_ok_proxy by (fastforce simp: set_chunks_addresses member_addrs_def)
    from occupy_spec [OF this, of "chunks_addresses chunks" cname] obtain proxies where
      pr: "occupy cname (chunks_addresses chunks) (all_proxies s) = Some proxies" "hm_inv (all_proxies s) \<longrightarrow> hm_inv proxies"
        "\<forall>a. hm_get proxies a = (if a \<in> set (chunks_addresses chunks)
          then map_option (set_owner (Some cname)) (hm_get (all_proxies s) a) else hm_get (all_proxies s) a)"
      by blast
    show ?thesis
    proof (rule that(2) [where name = cname and proxies = proxies and ps = ps and chunks = chunks])
      show "add_cluster cname num cfg s = (Ok (), (bump_global_epoch s)\<lparr>
        clusters := hm_insert cname \<lparr>cs_epoch = global_epoch s + 1, cs_name = cname, cs_chunks = chunks, cs_config = cfg\<rparr> (clusters s),
        all_proxies := proxies\<rparr>)"
        using False name ok(1) ch(1) pr(1) by (auto simp: add_cluster_def Let_def hm_contains_key_def)
      show "length chunks * 4 = num" using ch(2) False by auto
      show "hm_inv proxies" using pr(2) k by (simp add: keyed_def)
    qed (use False ch pr(3) ok(1) in \<open>auto simp: set_chunks_addresses\<close>)
  next
    case (err e)
    then have "add_cluster cname num cfg s = (Err e, s)"
      using False name n by (auto simp: add_cluster_def hm_contains_key_def)
    with that(1) show ?thesis by blast
  qed
qed


lemma add_cluster_registry:
  assumes "registry_ok s"
  shows "registry_ok (snd (add_cluster cname num cfg s))"
  using assms
proof (cases rule: add_cluster_cases [of s cname num cfg])
  case (ok name ps chunks proxies c)
  let ?b = "bump_global_epoch s"
  have "registry_ok (?b\<lparr>clusters := hm_insert name c (clusters s), all_proxies := proxies\<rparr>)"
  proof (rule registry_ok_reassign [where name = name and c' = "Some c" and ms = "members_of chunks"])
    show "\<forall>m \<in> set (members_of chunks). member_ok (registry_of ?b) {None, Some name} m"
      using ok(11) by (auto intro: member_ok_mono)
    show "members_of chunks = (case Some c of None \<Rightarrow> [] | Some c \<Rightarrow> members_of (cs_chunks c))" by (simp add: ok(14))
    show "hm_inv (hm_insert name c (clusters s))" using assms by (simp add: registry_ok_def keyed_def)
  qed (use assms ok in \<open>auto simp: members_of_name_registry\<close>)
  then show ?thesis by (simp add: ok(1))
qed (use assms in simp)

lemma remove_cluster_registry:
  assumes ok: "registry_ok s"
  shows "registry_ok (snd (remove_cluster cname s))"
proof (cases "valid_cluster_name cname \<and> hm_get (clusters s) cname \<noteq> None")
  case True
  then obtain c where c: "hm_get (clusters s) cname = Some c" by auto
  have "registry_ok (s\<lparr>clusters := hm_remove cname (clusters s),
      all_proxies := set_free (chunks_addresses (cs_chunks c)) (all_proxies s)\<rparr>)"
    by (rule registry_ok_reassign [where name = cname and c' = None and ms = "[]"])
      (use ok c in \<open>auto simp: members_of_name_registry hm_get_set_free set_chunks_addresses registry_ok_def keyed_def\<close>)
  with True c show ?thesis by (simp add: remove_cluster_def cluster_name_try_from_if)
next
  case False
  then show ?thesis using ok by (auto simp: remove_cluster_def cluster_name_try_from_if split: option.split)
qed

lemma chunks_ok_append:
  assumes "chunks_ok xs" "\<And>i. i < length ys \<Longrightarrow> chunk_ok (length xs + length ys) (length xs + i) (ys ! i)"
  shows "chunks_ok (xs @ ys)"
  unfolding chunks_ok_def
proof (intro allI impI)
  fix i assume i: "i < length (xs @ ys)"
  show "chunk_ok (length (xs @ ys)) i ((xs @ ys) ! i)"
  proof (cases "i < length xs")
    case True
    have mono: "entry_ok (length xs + length ys) i j e" if "entry_ok (length xs) i j e" for j e
      using that by (auto simp: entry_ok_def meta_ok_def)
    with True assms(1) show ?thesis by (auto simp: chunks_ok_def chunk_ok_def nth_append)
  next
    case False
    with i assms(2) [of "i - length xs"] show ?thesis by (simp add: nth_append)
  qed
qed

lemma chunk_stores_free:
  "chunk \<in> set (chunk_stores_from av rm False i cur ps) \<Longrightarrow>
     stable_slots chunk = (None, None) \<and> migrating_slots chunk = ([], [])"
  by (induction ps arbitrary: i cur) (auto simp: new_chunk_def)

lemma chunks_ok_append_free:
  assumes "chunks_ok xs" "\<And>chunk. chunk \<in> set ys \<Longrightarrow> stable_slots chunk = (None, None) \<and> migrating_slots chunk = ([], [])"
  shows "chunks_ok (xs @ ys)"
  using assms by (intro chunks_ok_append) (auto simp: chunk_ok_def all_less_2)

lemma shown_proxy_addresses: "nd_proxy_address ` set (shown_nodes chunks) = member_addrs (members_of chunks)"
proof -
  have one: "nd_proxy_address ` (shown_node cs chunk ` {0 ..< 4}) = member_addrs (chunk_members chunk)" for cs chunk
  proof -
    have "{0 ..< 4} = {0, 1, 2, 3 :: nat}" by auto
    then show ?thesis by (auto simp: shown_node_def proxy_addr_def chunk_members_def)
  qed
  have "nd_proxy_address ` set (concat (map (\<lambda>chunk. map (shown_node cs chunk) [0 ..< 4]) chunks)) = member_addrs (members_of chunks)" for cs
    by (induction chunks) (simp_all add: image_Un one del: upt_rec_numeral)
  then show ?thesis by (simp add: shown_nodes_def)
qed

text \<open>
  The slots of all clusters are well formed: no index of a migration dangles, the two sides of
  the migrations agree, and no slot has two owners.
\<close>

definition chunks_wf :: "chunk_store list \<Rightarrow> bool" where
  "chunks_wf chunks \<longleftrightarrow> chunks_ok chunks \<and> mirrored chunks \<and> uniq (owned chunks)"

definition clusters_wf :: "meta_store \<Rightarrow> bool" where
  "clusters_wf s \<longleftrightarrow> (\<forall>name c. hm_get (clusters s) name = Some c \<longrightarrow> chunks_wf (cs_chunks c))"

lemma auto_add_nodes_cases:
  assumes reg: "registry_ok s" and wf: "clusters_wf s"
  obtains (err) e where "auto_add_nodes cname num s = (Err e, s)"
  | (ok) name ps chunks proxies c c' nodes where
      "auto_add_nodes cname num s =
         (Ok nodes, (bump_global_epoch s)\<lparr>clusters := hm_modify name (\<lambda>_. c') (clusters s), all_proxies := proxies\<rparr>)"
      "name = cname" "valid_cluster_name name" "hm_get (clusters s) name = Some c" "\<not> cs_is_migrating c"
      "num mod 4 = 0" "0 < num" "length chunks * 4 = num"
      "allocate_proxies s (num div 2) (length (cs_chunks c) * 2) = Ok ps"
      "chunks = chunk_stores_from (SLOT_NUM div (num div 2)) (SLOT_NUM - SLOT_NUM div (num div 2) * (num div 2)) False 0 0 ps"
      "distinct (map fst (members_of chunks))" "\<forall>m \<in> set (members_of chunks). member_ok (registry_of s) {None} m"
      "hm_inv proxies"
      "\<And>a. hm_get proxies a = (if a \<in> member_addrs (members_of (cs_chunks c @ chunks))
          then map_option (set_owner (Some name)) (hm_get (all_proxies s) a) else hm_get (all_proxies s) a)"
      "c' = c\<lparr>cs_chunks := cs_chunks c @ chunks, cs_epoch := global_epoch s + 1\<rparr>"
      "nodes = drop (4 * length (cs_chunks c)) (shown_nodes (cs_chunks c'))"
proof (cases "\<not> valid_cluster_name cname \<or> hm_get (clusters s) cname = None
    \<or> cs_is_migrating (the (hm_get (clusters s) cname)) \<or> num mod 4 \<noteq> 0 \<or> num = 0")
  case True
  then have "\<exists>e. auto_add_nodes cname num s = (Err e, s)"
    unfolding auto_add_nodes_def cluster_name_try_from_if
    by (cases "hm_get (clusters s) cname") auto
  with err show ?thesis by blast
next
  case False
  then obtain c where c: "hm_get (clusters s) cname = Some c" "\<not> cs_is_migrating c" by auto
  let ?n = "num div 2"
  have n: "even ?n" "0 < ?n" using False by (auto elim: dvdE simp: dvd_eq_mod_eq_0 [symmetric])
  have k: "keyed s" using reg by (simp add: registry_ok_def)
  have name: "cluster_name_try_from cname = Some cname" using False by (simp add: valid_cluster_name_def)
  from k n(1) show ?thesis
  proof (cases rule: allocator.gen_cases [of s ?n "length (cs_chunks c) * 2"])
    case (ok ps)
    from allocator.new_chunks [OF k n ok(1), of False] obtain chunks where
      ch: "proxy_resource_to_chunk_store ps False = Some chunks" "length chunks * 2 = ?n"
        "chunks = chunk_stores_from (SLOT_NUM div ?n) (SLOT_NUM - SLOT_NUM div ?n * ?n) False 0 0 ps"
        "distinct (map fst (members_of chunks))" "\<forall>m \<in> set (members_of chunks). member_ok (registry_of s) {None} m"
      by blast
    define c' where "c' = c\<lparr>cs_chunks := cs_chunks c @ chunks, cs_epoch := global_epoch s + 1\<rparr>"
    have okc: "chunks_ok (cs_chunks c')"
      using wf c(1) ch(3) chunk_stores_free unfolding clusters_wf_def
      by (auto simp: c'_def chunks_wf_def intro!: chunks_ok_append_free)
    have cl: "cluster_store_to_cluster c' = Some (shown_cluster c')" by (rule cluster_store_to_cluster_shown [OF okc])
    let ?addrs = "map nd_proxy_address (cl_nodes (shown_cluster c'))"
    have addrs: "set ?addrs = member_addrs (members_of (cs_chunks c @ chunks))"
      using shown_proxy_addresses [of "cs_chunks c'"] by (simp add: shown_cluster_def c'_def)
    have "hm_get (all_proxies s) a \<noteq> None" if "a \<in> set ?addrs" for a
      using that ch(5) member_ok_proxy registry_ok_owned [OF reg c(1)]
      unfolding addrs by (fastforce simp: member_addrs_def)
    from occupy_spec [OF this, of ?addrs cname] obtain proxies where
      pr: "occupy cname ?addrs (all_proxies s) = Some proxies" "hm_inv (all_proxies s) \<longrightarrow> hm_inv proxies"
        "\<forall>a. hm_get proxies a = (if a \<in> set ?addrs
          then map_option (set_owner (Some cname)) (hm_get (all_proxies s) a) else hm_get (all_proxies s) a)"
      by blast
    have len: "length (cl_nodes (shown_cluster c')) = 4 * length (cs_chunks c) + num"
      using ch(2) False by (auto simp: shown_cluster_def c'_def length_shown_nodes)
    show ?thesis
    proof (rule that(2) [where name = cname and proxies = proxies and ps = ps and chunks = chunks and c = c and c' = c'
          and nodes = "drop (4 * length (cs_chunks c)) (shown_nodes (cs_chunks c'))"])
      show "auto_add_nodes cname num s = (Ok (drop (4 * length (cs_chunks c)) (shown_nodes (cs_chunks c'))),
          (bump_global_epoch s)\<lparr>clusters := hm_modify cname (\<lambda>_. c') (clusters s), all_proxies := proxies\<rparr>)"
        using False name c ok(1) ch(1) pr(1) cl len n(2)
        by (simp add: auto_add_nodes_def Let_def CHUNK_PARTS_def c'_def shown_cluster_def)
      show "length chunks * 4 = num" using ch(2) False by auto
      show "hm_inv proxies" using pr(2) k by (simp add: keyed_def)
    qed (use False c ch pr(3) ok(1) addrs in \<open>auto simp: c'_def\<close>)
  next
    case (err e)
    then have "auto_add_nodes cname num s = (Err e, s)"
      using False name n c by (auto simp: auto_add_nodes_def CHUNK_PARTS_def)
    with that(1) show ?thesis by blast
  qed
qed


lemma auto_add_nodes_registry:
  assumes "registry_ok s" "clusters_wf s"
  shows "registry_ok (snd (auto_add_nodes cname num s))"
  using assms
proof (cases rule: auto_add_nodes_cases [of s cname num])
  case (ok name ps chunks proxies c c' nodes)
  let ?b = "bump_global_epoch s"
  have b: "registry_ok ?b" using assms(1) by simp
  have disj: "member_addrs (members_of (cs_chunks c)) \<inter> member_addrs (members_of chunks) = {}"
  proof -
    have "pr_cluster pr = None" if "a \<in> member_addrs (members_of chunks)" "hm_get (all_proxies s) a = Some pr" for a pr
      using that ok(12) by (fastforce simp: member_addrs_def member_ok_def registry_of_def)
    moreover have "\<exists>pr. hm_get (all_proxies s) a = Some pr \<and> pr_cluster pr = Some name"
      if "a \<in> member_addrs (members_of (cs_chunks c))" for a
      using registry_ok_owned [OF assms(1) ok(4) that] by blast
    ultimately show ?thesis by fastforce
  qed
  have "registry_ok (?b\<lparr>clusters := hm_modify name (\<lambda>_. c') (clusters s), all_proxies := proxies\<rparr>)"
  proof (rule registry_ok_reassign [where name = name and c' = "Some c'" and ms = "members_of (cs_chunks c @ chunks)"])
    show "\<forall>m \<in> set (members_of (cs_chunks c @ chunks)). member_ok (registry_of ?b) {None, Some name} m"
    proof
      fix m assume "m \<in> set (members_of (cs_chunks c @ chunks))"
      then have "m \<in> set (members_of (cs_chunks c)) \<or> m \<in> set (members_of chunks)" by auto
      then show "member_ok (registry_of ?b) {None, Some name} m"
        using ok(12) registry_ok_members(2) [OF assms(1) ok(4), of m] by (auto elim: member_ok_mono)
    qed
    show "members_of (cs_chunks c @ chunks) = (case Some c' of None \<Rightarrow> [] | Some c \<Rightarrow> members_of (cs_chunks c))"
      by (simp add: ok(15))
    show "distinct (map fst (members_of (cs_chunks c @ chunks)))"
      using registry_ok_members(1) [OF assms(1) ok(4)] ok(11) disj by (simp add: member_addrs_def)
    show "hm_inv (hm_modify name (\<lambda>_. c') (clusters s))" using assms by (simp add: registry_ok_def keyed_def)
  qed (use b ok in \<open>auto simp: members_of_name_registry\<close>)
  then show ?thesis by (simp add: ok(1))
qed (use assms in simp_all)

lemma auto_scale_up_nodes_registry:
  assumes "registry_ok s" "clusters_wf s"
  shows "registry_ok (snd (auto_scale_up_nodes cname num s))"
  using assms auto_add_nodes_registry [OF assms]
  by (auto simp: auto_scale_up_nodes_def Let_def cluster_name_try_from_if split: option.split)

lemma members_of_filter: "set (members_of (filter P chunks)) \<subseteq> set (members_of chunks)"
  by (auto simp: members_of_def)

lemma distinct_members_filter:
  "distinct (map fst (members_of chunks)) \<Longrightarrow> distinct (map fst (members_of (filter P chunks)))
   \<and> member_addrs (members_of (filter P chunks)) \<inter> member_addrs (members_of (filter (\<lambda>x. \<not> P x) chunks)) = {}"
proof (induction chunks)
  case (Cons chunk chunks)
  have sub: "fst ` set (members_of (filter Q chunks)) \<subseteq> fst ` set (members_of chunks)" for Q
    by (rule image_mono) (rule members_of_filter)
  from Cons have IH: "distinct (map fst (members_of (filter P chunks)))"
      "member_addrs (members_of (filter P chunks)) \<inter> member_addrs (members_of (filter (\<lambda>x. \<not> P x) chunks)) = {}"
    and d: "distinct (map fst (chunk_members chunk))"
      "fst ` set (chunk_members chunk) \<inter> fst ` set (members_of chunks) = {}" by auto
  have d': "fst ` set (chunk_members chunk) \<inter> fst ` set (members_of (filter Q chunks)) = {}" for Q
    using sub [of Q] d(2) by blast
  show ?case using IH d d' [of P] d' [of "\<lambda>x. \<not> P x"] by (auto simp: member_addrs_def)
qed simp

lemma auto_delete_free_nodes_cases:
  obtains (err) e where "auto_delete_free_nodes cname s = (Err e, s)"
  | (ok) c where "valid_cluster_name cname" "hm_get (clusters s) cname = Some c" "\<not> cs_is_migrating c"
      "auto_delete_free_nodes cname s = (Ok (), bump_global_epoch (s\<lparr>
         clusters := hm_modify cname (\<lambda>_. c\<lparr>cs_chunks := filter chunk_has_slots (cs_chunks c), cs_epoch := global_epoch s + 1\<rparr>) (clusters s),
         all_proxies := set_free (chunks_addresses (filter (\<lambda>chunk. \<not> chunk_has_slots chunk) (cs_chunks c))) (all_proxies s)\<rparr>))"
      "filter (\<lambda>chunk. \<not> chunk_has_slots chunk) (cs_chunks c) \<noteq> []"
proof (cases "valid_cluster_name cname \<and> hm_get (clusters s) cname \<noteq> None
    \<and> \<not> cs_is_migrating (the (hm_get (clusters s) cname))
    \<and> filter (\<lambda>chunk. \<not> chunk_has_slots chunk) (cs_chunks (the (hm_get (clusters s) cname))) \<noteq> []")
  case True
  then obtain c where "hm_get (clusters s) cname = Some c" by auto
  with True ok show ?thesis by (auto simp: auto_delete_free_nodes_def cluster_name_try_from_if Let_def cs_set_epoch_def)
next
  case False
  then have "\<exists>e. auto_delete_free_nodes cname s = (Err e, s)"
    by (cases "hm_get (clusters s) cname") (auto simp: auto_delete_free_nodes_def cluster_name_try_from_if Let_def)
  with err show ?thesis by blast
qed

lemma auto_delete_free_nodes_registry:
  assumes "registry_ok s"
  shows "registry_ok (snd (auto_delete_free_nodes cname s))"
proof (cases rule: auto_delete_free_nodes_cases [of cname s])
  case (ok c)
  let ?kept = "filter chunk_has_slots (cs_chunks c)" and ?gone = "filter (\<lambda>chunk. \<not> chunk_has_slots chunk) (cs_chunks c)"
  let ?c = "c\<lparr>cs_chunks := ?kept, cs_epoch := global_epoch s + 1\<rparr>"
  have d: "distinct (map fst (members_of ?kept))" "member_addrs (members_of ?kept) \<inter> member_addrs (members_of ?gone) = {}"
    using distinct_members_filter [OF registry_ok_members(1) [OF assms ok(2)], of chunk_has_slots] by auto
  have split: "member_addrs (members_of (cs_chunks c)) = member_addrs (members_of ?kept) \<union> member_addrs (members_of ?gone)"
    unfolding set_eq_iff Un_iff member_addrs_members_of by auto
  have same: "map_option (set_owner (Some cname)) (hm_get (all_proxies s) a) = hm_get (all_proxies s) a"
    if "a \<in> member_addrs (members_of ?kept)" for a
    using registry_ok_owned [OF assms ok(2), of a] that split by (auto simp: set_owner_same)
  have "registry_ok (s\<lparr>clusters := hm_modify cname (\<lambda>_. ?c) (clusters s),
      all_proxies := set_free (chunks_addresses ?gone) (all_proxies s)\<rparr>)"
  proof (rule registry_ok_reassign [where name = cname and c' = "Some ?c" and ms = "members_of ?kept"])
    show "\<forall>m \<in> set (members_of ?kept). member_ok (registry_of s) {None, Some cname} m"
      using registry_ok_members(2) [OF assms ok(2)] members_of_filter [of chunk_has_slots "cs_chunks c"]
      by (blast intro: member_ok_mono)
    show "hm_get (set_free (chunks_addresses ?gone) (all_proxies s)) a =
        (if a \<in> member_addrs (members_of ?kept) then map_option (set_owner (Some cname)) (hm_get (all_proxies s) a)
         else if a \<in> member_addrs (members_of_name (registry_of s) cname)
              then map_option (set_owner None) (hm_get (all_proxies s) a)
         else hm_get (all_proxies s) a)" for a
      using same d(2) ok(2) by (auto simp: hm_get_set_free set_chunks_addresses members_of_name_registry split)
  qed (use assms ok(2) d in \<open>auto simp: registry_ok_def keyed_def\<close>)
  then show ?thesis by (simp add: ok(4))
qed (use assms in simp)

lemma auto_delete_if_exists_registry:
  "registry_ok s \<Longrightarrow> registry_ok (snd (auto_delete_free_nodes_if_exists cname s))"
  using auto_delete_free_nodes_registry [of s cname]
  by (cases rule: auto_delete_free_nodes_cases [of cname s]) (auto simp: auto_delete_free_nodes_if_exists_def)



subsection \<open>What the slots depend on\<close>

definition slot_part :: "chunk_store \<Rightarrow> slot_range option arr2 \<times> migration_slot_range_store list arr2" where
  "slot_part chunk = (stable_slots chunk, migrating_slots chunk)"

lemma slot_part_cong:
  assumes "map slot_part xs = map slot_part ys"
  shows "chunks_ok xs = chunks_ok ys" "owned xs = owned ys" "chunks_keys b xs = chunks_keys b ys"
    "slots_inv T xs = slots_inv T ys" "chunks_wf xs = chunks_wf ys"
proof -
  have l: "length xs = length ys" using assms by (rule map_eq_imp_length_eq)
  have "slot_part (xs ! i) = slot_part (ys ! i)" if "i < length ys" for i
    using arg_cong [OF assms, of "\<lambda>zs. zs ! i"] that l by simp
  then have "chunk_ok n i (xs ! i) = chunk_ok n i (ys ! i)" if "i < length ys" for i n
    using that by (simp add: slot_part_def chunk_ok_def)
  with l show ok: "chunks_ok xs = chunks_ok ys" by (auto simp: chunks_ok_def)
  have m: "map (\<lambda>c. h (slot_part c)) xs = map (\<lambda>c. h (slot_part c)) ys" for h :: "_ \<Rightarrow> 'z"
    using arg_cong [OF assms, of "map h"] by (simp add: comp_def)
  show ow: "owned xs = owned ys"
    using m [of "\<lambda>(p, q). stable_mset p + entries_slots (fst q @ snd q)"]
    by (simp add: owned_def chunk_owned_def [abs_def] slot_part_def chunk_entries_eq cong: map_cong)
  show k: "chunks_keys b xs = chunks_keys b ys" for b
    using m [of "\<lambda>(p, q). keys_of b (fst q @ snd q)"]
    by (simp add: chunks_keys_def slot_part_def chunk_entries_eq cong: map_cong)
  show "slots_inv T xs = slots_inv T ys" "chunks_wf xs = chunks_wf ys"
    by (simp_all add: slots_inv_def chunks_wf_def mirrored_def ok ow k)
qed

text \<open>Changing the epochs of some migrations, on both sides alike.\<close>

lemma map_entries_spec:
  assumes f: "\<And>e. mr_range_list (f e) = mr_range_list e" "\<And>e. mr_is_migrating (f e) = mr_is_migrating e"
    "\<And>e n. meta_ok n (mr_meta (f e)) = meta_ok n (mr_meta e)"
    "\<And>e. src_position (mr_meta (f e)) = src_position (mr_meta e)"
    "\<And>e. dst_position (mr_meta (f e)) = dst_position (mr_meta e)"
    and g: "\<And>e. mr_key (f e) = g (mr_key e)"
  shows "chunks_ok chunks \<Longrightarrow> chunks_ok (map (map_entries f) chunks)"
    and "owned (map (map_entries f) chunks) = owned chunks"
    and "chunks_keys b (map (map_entries f) chunks) = image_mset g (chunks_keys b chunks)"
proof -
  have e: "entry_ok n i j (f e) = entry_ok n i j e" for n i j e
    using f(4,5) [of e] by (auto simp: entry_ok_def f src_position_def dst_position_def)
  have p: "part j (migrating_slots (map_entries f chunk)) = map f (part j (migrating_slots chunk))" for j chunk
    by (simp add: map_entries_def part_def)
  show "chunks_ok (map (map_entries f) chunks)" if "chunks_ok chunks"
    using that by (auto simp: chunks_ok_def chunk_ok_def p e) (auto simp: map_entries_def)
  have es: "entries_slots (map f xs) = entries_slots xs" for xs
    by (induction xs) (simp_all add: entry_slots_def f)
  have ce: "chunk_entries (map_entries f chunk) = map f (chunk_entries chunk)" for chunk
    by (simp add: chunk_entries_eq p del: part_simps)
  have "chunk_owned (map_entries f chunk) = chunk_owned chunk" for chunk
    by (simp add: chunk_owned_def ce es) (simp add: map_entries_def)
  then show "owned (map (map_entries f) chunks) = owned chunks" by (simp add: owned_def comp_def)
  have "keys_of b (map f xs) = image_mset g (keys_of b xs)" for xs
    by (induction xs) (simp_all add: f g)
  then show "chunks_keys b (map (map_entries f) chunks) = image_mset g (chunks_keys b chunks)"
    by (induction chunks) (simp_all add: chunks_keys_def ce)
qed

lemma map_entries_inv:
  assumes f: "\<And>e. mr_range_list (f e) = mr_range_list e" "\<And>e. mr_is_migrating (f e) = mr_is_migrating e"
    "\<And>e n. meta_ok n (mr_meta (f e)) = meta_ok n (mr_meta e)"
    "\<And>e. src_position (mr_meta (f e)) = src_position (mr_meta e)"
    "\<And>e. dst_position (mr_meta (f e)) = dst_position (mr_meta e)"
    and g: "\<And>e. mr_key (f e) = g (mr_key e)"
  shows "slots_inv T chunks \<Longrightarrow> slots_inv T (map (map_entries f) chunks)"
    and "chunks_wf chunks \<Longrightarrow> chunks_wf (map (map_entries f) chunks)"
  using map_entries_spec(1,2) [OF f g] map_entries_spec(3) [OF f g]
  by (auto simp: slots_inv_def chunks_wf_def mirrored_def)



subsection \<open>Failover keeps slots and registry\<close>

lemma set_mr_epoch_simps [simp]:
  "mr_range_list (set_mr_epoch e x) = mr_range_list x" "mr_is_migrating (set_mr_epoch e x) = mr_is_migrating x"
  "meta_ok n (mr_meta (set_mr_epoch e x)) = meta_ok n (mr_meta x)"
  "src_position (mr_meta (set_mr_epoch e x)) = src_position (mr_meta x)"
  "dst_position (mr_meta (set_mr_epoch e x)) = dst_position (mr_meta x)"
  "set_mr_epoch e (set_mr_epoch e x) = set_mr_epoch e x"
  by (simp_all add: set_mr_epoch_def meta_ok_def src_position_def dst_position_def)

lemma reset_epoch_simps [simp]:
  "mr_range_list (reset_epoch e P x) = mr_range_list x" "mr_is_migrating (reset_epoch e P x) = mr_is_migrating x"
  "meta_ok n (mr_meta (reset_epoch e P x)) = meta_ok n (mr_meta x)"
  "src_position (mr_meta (reset_epoch e P x)) = src_position (mr_meta x)"
  "dst_position (mr_meta (reset_epoch e P x)) = dst_position (mr_meta x)"
  by (simp_all add: reset_epoch_def)

definition reset_key :: "epoch \<Rightarrow> (usize \<times> usize) list \<Rightarrow> migration_key \<Rightarrow> migration_key" where
  "reset_key e P k =
     (if List.member P (src_position (snd k)) \<or> List.member P (dst_position (snd k))
      then (fst k, (snd k)\<lparr>ms_epoch := e\<rparr>) else k)"

lemma mr_key_reset: "mr_key (reset_epoch e P x) = reset_key e P (mr_key x)"
  by (simp add: mr_key_def reset_key_def reset_epoch_def set_mr_epoch_def)

lemma reset_epochs_inv:
  "slots_inv T chunks \<Longrightarrow> slots_inv T (map (map_entries (reset_epoch e P)) chunks)"
  "chunks_wf chunks \<Longrightarrow> chunks_wf (map (map_entries (reset_epoch e P)) chunks)"
  by (rule map_entries_inv [where g = "reset_key e P"]; simp add: mr_key_reset)+

lemma reset_after_set:
  "x \<in> set es \<Longrightarrow> reset_epoch e (peer_positions es) (set_mr_epoch e x) = reset_epoch e (peer_positions es) x"
  by (auto simp: reset_epoch_def peer_positions_def)

lemma takeover_scan_slots:
  "takeover_scan e a chunks = Some (chunks', P) \<Longrightarrow>
     map slot_part (map (map_entries (reset_epoch e P)) chunks') = map slot_part (map (map_entries (reset_epoch e P)) chunks)"
proof (induction chunks arbitrary: chunks' P)
  case (Cons chunk chunks)
  have r: "map (reset_epoch e (peer_positions es)) (map (set_mr_epoch e) es) = map (reset_epoch e (peer_positions es)) es" for es
    by (simp add: reset_after_set)
  obtain p q where pq: "migrating_slots chunk = (p, q)" by fastforce
  show ?case
    using Cons r [of p] r [of q]
    by (auto simp: slot_part_def map_entries_def arr2_modify_def pq split: if_splits)
qed simp

lemma takeover_scan_members: "takeover_scan e a chunks = Some (chunks', P) \<Longrightarrow> members_of chunks' = members_of chunks"
  by (induction chunks arbitrary: chunks' P) (auto simp: chunk_members_def split: if_splits)

lemma members_map_entries [simp]: "members_of (map (map_entries f) chunks) = members_of chunks"
  by (induction chunks) (simp_all add: chunk_members_def map_entries_def)

lemma takeover_master_cases:
  obtains (missing) "hm_get (clusters s) name = None" "takeover_master name a s = (Err ClusterNotFound, bump_global_epoch s)"
  | (same) c where "hm_get (clusters s) name = Some c" "takeover_scan (global_epoch s + 1) a (cs_chunks c) = None"
      "takeover_master name a s = (Ok (), bump_global_epoch s)"
  | (moved) c chunks P c' where "hm_get (clusters s) name = Some c"
      "takeover_scan (global_epoch s + 1) a (cs_chunks c) = Some (chunks, P)"
      "c' = c\<lparr>cs_chunks := map (map_entries (reset_epoch (global_epoch s + 1) P)) chunks, cs_epoch := global_epoch s + 1\<rparr>"
      "takeover_master name a s = (Ok (), (bump_global_epoch s)\<lparr>clusters := hm_modify name (\<lambda>_. c') (clusters s)\<rparr>)"
      "members_of (cs_chunks c') = members_of (cs_chunks c)"
      "\<And>T. slots_inv T (cs_chunks c) \<Longrightarrow> slots_inv T (cs_chunks c')"
      "chunks_wf (cs_chunks c) \<Longrightarrow> chunks_wf (cs_chunks c')"
proof (cases "hm_get (clusters s) name")
  case None
  with missing show ?thesis by (simp add: takeover_master_def Let_def)
next
  case (Some c)
  then have c: "hm_get (clusters s) name = Some c" .
  show ?thesis
  proof (cases "takeover_scan (global_epoch s + 1) a (cs_chunks c)")
    case None
    with c show ?thesis using that(2) by (simp add: takeover_master_def Let_def)
  next
    case (Some cp)
    then obtain chunks P where scan: "takeover_scan (global_epoch s + 1) a (cs_chunks c) = Some (chunks, P)"
      by (cases cp) auto
    let ?chunks = "map (map_entries (reset_epoch (global_epoch s + 1) P)) chunks"
    let ?c = "c\<lparr>cs_chunks := ?chunks, cs_epoch := global_epoch s + 1\<rparr>"
    note slots = slot_part_cong(4,5) [OF takeover_scan_slots [OF scan]]
    show ?thesis
    proof (rule that(3) [OF c scan refl])
      show "takeover_master name a s = (Ok (), (bump_global_epoch s)\<lparr>clusters := hm_modify name (\<lambda>_. ?c) (clusters s)\<rparr>)"
        using c scan by (simp add: takeover_master_def Let_def)
    qed (simp_all add: slots reset_epochs_inv takeover_scan_members [OF scan])
  qed
qed


lemma replace_in_chunks_slots [simp]: "map slot_part (replace_in_chunks failed pr chunks) = map slot_part chunks"
  by (induction chunks) (simp_all add: slot_part_def)

lemma length_replace_in_chunks [simp]: "length (replace_in_chunks failed pr chunks) = length chunks"
  by (induction chunks) auto

lemma replace_in_chunks_members:
  "distinct (map fst (members_of chunks)) \<Longrightarrow>
     members_of (replace_in_chunks failed pr chunks) =
       map (\<lambda>m. if fst m = failed then resource_member pr else m) (members_of chunks)"
proof (induction chunks)
  case (Cons chunk chunks)
  have keep: "map (\<lambda>m. if fst m = failed then resource_member pr else m) ms = ms" if "failed \<notin> fst ` set ms" for ms
    using that by (induction ms) auto
  obtain a b where ab: "proxy_addresses chunk = (a, b)" by fastforce
  have d: "a \<noteq> b" "a \<notin> fst ` set (members_of chunks)" "b \<notin> fst ` set (members_of chunks)"
    using Cons.prems by (auto simp: chunk_members_def ab)
  show ?case
  proof (cases "failed = a \<or> failed = b")
    case True
    then have "map (\<lambda>m. if fst m = failed then resource_member pr else m) (members_of chunks) = members_of chunks"
      using d by (intro keep) auto
    with True d(1) show ?thesis
      by (auto simp: chunk_members_def ab resource_member_def arr2_modify_def)
  next
    case False
    with Cons show ?thesis by (auto simp: chunk_members_def ab)
  qed
qed simp

lemma get_proxy_view:
  assumes "clusters_wf s" "hm_get (all_proxies s) a = Some pr"
  shows "\<exists>p. get_proxy_by_address s a lim = Some (Some p)"
proof (cases "pr_cluster pr")
  case None
  with assms(2) show ?thesis by (simp add: get_proxy_by_address_def)
next
  case (Some name)
  show ?thesis
  proof (cases "hm_get (clusters s) name")
    case None
    with assms(2) Some show ?thesis by (simp add: get_proxy_by_address_def get_cluster_store_def)
  next
    case (Some c)
    then have "slots_inv (owned (cs_chunks c)) (cs_chunks c)" "uniq (owned (cs_chunks c))"
      using assms(1) by (auto simp: clusters_wf_def chunks_wf_def slots_inv_def)
    from limit_migration_spec [OF this] obtain c' where
      c': "limit_migration lim c = Some c'" "chunks_ok (cs_chunks c')" by (auto simp: slots_inv_def)
    with cluster_store_to_cluster_shown [OF c'(2)] assms(2) Some \<open>pr_cluster pr = Some name\<close> show ?thesis
      by (simp add: get_proxy_by_address_def get_cluster_store_def)
  qed
qed

lemma replace_member_addrs:
  "failed \<in> member_addrs ms \<Longrightarrow>
     member_addrs (map (\<lambda>m. if fst m = failed then n else m) ms) = insert (fst n) (member_addrs ms - {failed})"
  by (simp add: member_addrs_def image_image if_distrib) force

lemma distinct_replace_member:
  "distinct (map fst ms) \<Longrightarrow> fst n \<notin> member_addrs ms \<Longrightarrow>
     distinct (map fst (map (\<lambda>m. if fst m = failed then n else m) ms))"
proof (induction ms)
  case (Cons m ms)
  have keep: "map (\<lambda>m. if fst m = failed then n else m) xs = xs" if "failed \<notin> fst ` set xs" for xs
    using that by (induction xs) auto
  show ?case
  proof (cases "fst m = failed")
    case True
    with Cons.prems keep [of ms] show ?thesis by (simp add: member_addrs_def)
  next
    case False
    have "fst m \<noteq> fst (if fst x = failed then n else x)" if "x \<in> set ms" for x
      using Cons.prems that by (cases "fst x = failed") (auto simp: member_addrs_def image_iff)
    then have "fst m \<notin> (\<lambda>x. fst (if fst x = failed then n else x)) ` set ms" by blast
    with Cons False show ?thesis by (simp add: member_addrs_def)
  qed
qed simp

lemma put_new_proxy_spec:
  assumes reg: "registry_ok s" and wf: "clusters_wf s" and free: "is_free s pr"
    and f: "hm_get (all_proxies s) failed = Some fpr" "pr_cluster fpr = Some name"
  obtains c c' p where "hm_get (clusters s) name = Some c"
    "c' = c\<lparr>cs_chunks := replace_in_chunks failed pr (cs_chunks c), cs_epoch := global_epoch s + 1\<rparr>"
    "put_new_proxy name failed pr lim s = (Ok (Some p), (bump_global_epoch s)\<lparr>
       clusters := hm_modify name (\<lambda>_. c') (clusters s),
       all_proxies := hm_modify (pr_proxy_address pr) (set_owner (Some name)) (hm_modify failed (set_owner None) (all_proxies s))\<rparr>)"
    "registry_ok ((bump_global_epoch s)\<lparr>
       clusters := hm_modify name (\<lambda>_. c') (clusters s),
       all_proxies := hm_modify (pr_proxy_address pr) (set_owner (Some name)) (hm_modify failed (set_owner None) (all_proxies s))\<rparr>)"
    "clusters_wf ((bump_global_epoch s)\<lparr>clusters := hm_modify name (\<lambda>_. c') (clusters s)\<rparr>)"
proof -
  let ?new = "pr_proxy_address pr"
  have cons: "consistent (registry_of s)" using reg by (simp add: registry_ok_def)
  from registry_member_host [OF cons f] obtain c where c: "hm_get (clusters s) name = Some c" by blast
  define c' where "c' = c\<lparr>cs_chunks := replace_in_chunks failed pr (cs_chunks c), cs_epoch := global_epoch s + 1\<rparr>"
  let ?ms = "members_of (cs_chunks c)"
  let ?ms' = "map (\<lambda>m. if fst m = failed then resource_member pr else m) ?ms"
  let ?ps = "hm_modify ?new (set_owner (Some name)) (hm_modify failed (set_owner None) (all_proxies s))"
  let ?s = "(bump_global_epoch s)\<lparr>clusters := hm_modify name (\<lambda>_. c') (clusters s), all_proxies := ?ps\<rparr>"
  have d: "distinct (map fst ?ms)" by (rule registry_ok_members(1) [OF reg c])
  have own: "\<exists>pr. hm_get (all_proxies s) a = Some pr \<and> pr_cluster pr = Some name" if "a \<in> member_addrs ?ms" for a
    using registry_ok_owned [OF reg c that] .
  have new: "hm_get (all_proxies s) ?new = Some pr" "pr_cluster pr = None" using free by (auto simp: is_free_def)
  have notin: "?new \<notin> member_addrs ?ms" using own new by fastforce
  have failed: "failed \<in> member_addrs ?ms" using registry_ok_member_of [OF reg f] c by auto
  have ms': "members_of (cs_chunks c') = ?ms'" by (simp add: c'_def replace_in_chunks_members [OF d])
  have addrs': "member_addrs ?ms' = insert ?new (member_addrs ?ms - {failed})"
    using replace_member_addrs [OF failed, of "resource_member pr"] by (simp add: resource_member_def)
  have d': "distinct (map fst ?ms')"
    using distinct_replace_member [OF d, of "resource_member pr" failed] notin by (simp add: resource_member_def)
  have ok: "registry_ok ?s"
  proof (rule registry_ok_reassign [where name = name and c' = "Some c'" and ms = ?ms'])
    show "\<forall>m \<in> set ?ms'. member_ok (registry_of (bump_global_epoch s)) {None, Some name} m"
    proof
      fix m assume "m \<in> set ?ms'"
      then have "m = resource_member pr \<or> m \<in> set ?ms" by auto
      moreover have "member_ok (registry_of s) {None} (resource_member pr)"
        using new by (simp add: resource_member_def member_ok_def registry_of_def)
      ultimately show "member_ok (registry_of (bump_global_epoch s)) {None, Some name} m"
        using registry_ok_members(2) [OF reg c, of m] by (auto elim: member_ok_mono)
    qed
    show "hm_get ?ps a =
        (if a \<in> member_addrs ?ms' then map_option (set_owner (Some name)) (hm_get (all_proxies (bump_global_epoch s)) a)
         else if a \<in> member_addrs (members_of_name (registry_of (bump_global_epoch s)) name)
              then map_option (set_owner None) (hm_get (all_proxies (bump_global_epoch s)) a)
         else hm_get (all_proxies (bump_global_epoch s)) a)" for a
      using own [of a] notin failed c new
      by (auto simp: addrs' members_of_name_registry set_owner_same)
  qed (use reg c d' ms' in \<open>auto simp: registry_ok_def keyed_def\<close>)
  have wf': "clusters_wf ((bump_global_epoch s)\<lparr>clusters := hm_modify name (\<lambda>_. c') (clusters s)\<rparr>)"
    using wf c slot_part_cong(5) [OF replace_in_chunks_slots, of failed pr "cs_chunks c"]
    by (auto simp: clusters_wf_def c'_def)
  then have "clusters_wf ?s" by (simp add: clusters_wf_def)
  moreover have "hm_get (all_proxies ?s) ?new = Some (set_owner (Some name) pr)" using new(1) notin failed by auto
  ultimately obtain p where p: "get_proxy_by_address ?s ?new lim = Some (Some p)" using get_proxy_view by blast
  then have "put_new_proxy name failed pr lim s = (Ok (Some p), ?s)"
    using c by (simp add: put_new_proxy_def Let_def c'_def cs_set_epoch_def)
  from that [OF c c'_def this ok wf'] show ?thesis .
qed


lemma takeover_master_keeps:
  assumes "registry_ok s" "clusters_wf s"
  shows "registry_ok (snd (takeover_master name a s))" "clusters_wf (snd (takeover_master name a s))"
    "all_proxies (snd (takeover_master name a s)) = all_proxies s"
proof -
  have "registry_ok (snd (takeover_master name a s)) \<and> clusters_wf (snd (takeover_master name a s)) \<and>
      all_proxies (snd (takeover_master name a s)) = all_proxies s"
  proof (cases rule: takeover_master_cases [of s name a])
    case (moved c chunks P c')
    have "registry_ok ((bump_global_epoch s)\<lparr>clusters := hm_modify name (\<lambda>_. c') (clusters (bump_global_epoch s))\<rparr>)"
      using assms(1) moved(1,5) by (intro registry_ok_modify_cluster) auto
    moreover have "clusters_wf ((bump_global_epoch s)\<lparr>clusters := hm_modify name (\<lambda>_. c') (clusters s)\<rparr>)"
      using assms(2) moved(1,7) by (auto simp: clusters_wf_def)
    ultimately show ?thesis by (simp add: moved(4))
  qed (use assms in \<open>simp_all add: clusters_wf_def\<close>)
  then show "registry_ok (snd (takeover_master name a s))" "clusters_wf (snd (takeover_master name a s))"
    "all_proxies (snd (takeover_master name a s)) = all_proxies s" by blast+
qed

lemma replace_failed_proxy_cases:
  assumes reg: "registry_ok s" and wf: "clusters_wf s"
  obtains (missing) "hm_get (all_proxies s) a = None" "replace_failed_proxy a lim s = (Err ProxyNotFound, s)"
  | (unused) fpr where "hm_get (all_proxies s) a = Some fpr" "pr_cluster fpr = None"
      "replace_failed_proxy a lim s = (Ok None, s\<lparr>failures := hm_remove a (failures s), failed_proxies := hs_insert a (failed_proxies s)\<rparr>)"
  | (ordered) fpr name s1 where "hm_get (all_proxies s) a = Some fpr" "pr_cluster fpr = Some name"
      "takeover_master name a s = (Ok (), s1)" "enable_ordered_proxy s1"
      "replace_failed_proxy a lim s = (Ok None, bump_global_epoch s1)"
  | (exhausted) fpr name s1 where "hm_get (all_proxies s) a = Some fpr" "pr_cluster fpr = Some name"
      "takeover_master name a s = (Ok (), s1)"
      "replace_failed_proxy a lim s = (Err NoAvailableResource, s1\<lparr>failed_proxies := hs_insert a (failed_proxies s1)\<rparr>)"
  | (replaced) fpr name s1 s2 s3 pr c c' p where "hm_get (all_proxies s) a = Some fpr" "pr_cluster fpr = Some name"
      "takeover_master name a s = (Ok (), s1)"
      "s2 = s1\<lparr>failed_proxies := hs_insert a (failed_proxies s1)\<rparr>" "is_free s2 pr" "hm_get (clusters s1) name = Some c"
      "c' = c\<lparr>cs_chunks := replace_in_chunks a pr (cs_chunks c), cs_epoch := global_epoch s1 + 1\<rparr>"
      "replace_failed_proxy a lim s = (Ok (Some p), s3)"
      "s3 = (bump_global_epoch s2)\<lparr>clusters := hm_modify name (\<lambda>_. c') (clusters s1),
         all_proxies := hm_modify (pr_proxy_address pr) (set_owner (Some name)) (hm_modify a (set_owner None) (all_proxies s1))\<rparr>"
      "registry_ok s3" "clusters_wf s3"
proof (cases "hm_get (all_proxies s) a")
  case None
  then show ?thesis using missing by (simp add: replace_failed_proxy_def)
next
  case (Some fpr)
  then have f: "hm_get (all_proxies s) a = Some fpr" .
  show ?thesis
  proof (cases "pr_cluster fpr")
    case None
    with f show ?thesis using unused by (simp add: replace_failed_proxy_def)
  next
    case (Some name)
    obtain c0 where "hm_get (clusters s) name = Some c0" using registry_ok_member_of [OF reg f Some] by blast
    then obtain s1 where s1: "takeover_master name a s = (Ok (), s1)"
      by (cases rule: takeover_master_cases [of s name a]) auto
    have k: "registry_ok s1" "clusters_wf s1" "all_proxies s1 = all_proxies s"
      using takeover_master_keeps [OF reg wf, of name a] by (simp_all add: s1)
    let ?s2 = "s1\<lparr>failed_proxies := hs_insert a (failed_proxies s1)\<rparr>"
    have k2: "registry_ok ?s2" "clusters_wf ?s2" "keyed ?s2" "consistent (registry_of ?s2)"
      using k by (simp_all add: clusters_wf_def registry_ok_def)
    have f2: "hm_get (all_proxies ?s2) a = Some fpr" by (simp add: k(3) f)
    show ?thesis
    proof (cases "enable_ordered_proxy s1")
      case True
      with f Some s1 show ?thesis using ordered by (simp add: replace_failed_proxy_def)
    next
      case False
      from generate_new_free_proxy_spec [OF k2(3,4) f2 Some] show ?thesis
      proof (elim disjE exE conjE)
        assume "generate_new_free_proxy ?s2 a = Err NoAvailableResource"
        with f Some s1 False show ?thesis using exhausted by (simp add: replace_failed_proxy_def)
      next
        fix pr assume g: "generate_new_free_proxy ?s2 a = Ok pr" "is_free ?s2 pr"
        from put_new_proxy_spec [OF k2(1,2) g(2) f2 Some, of lim] obtain c c' p where
          r: "hm_get (clusters ?s2) name = Some c"
            "c' = c\<lparr>cs_chunks := replace_in_chunks a pr (cs_chunks c), cs_epoch := global_epoch ?s2 + 1\<rparr>"
            "put_new_proxy name a pr lim ?s2 = (Ok (Some p), (bump_global_epoch ?s2)\<lparr>
               clusters := hm_modify name (\<lambda>_. c') (clusters ?s2),
               all_proxies := hm_modify (pr_proxy_address pr) (set_owner (Some name)) (hm_modify a (set_owner None) (all_proxies ?s2))\<rparr>)"
            "registry_ok ((bump_global_epoch ?s2)\<lparr>clusters := hm_modify name (\<lambda>_. c') (clusters ?s2),
               all_proxies := hm_modify (pr_proxy_address pr) (set_owner (Some name)) (hm_modify a (set_owner None) (all_proxies ?s2))\<rparr>)"
            "clusters_wf ((bump_global_epoch ?s2)\<lparr>clusters := hm_modify name (\<lambda>_. c') (clusters ?s2)\<rparr>)"
          by blast
        show ?thesis
        proof (rule replaced [OF f Some s1 refl g(2)])
          show "hm_get (clusters s1) name = Some c" using r(1) by simp
          show "c' = c\<lparr>cs_chunks := replace_in_chunks a pr (cs_chunks c), cs_epoch := global_epoch s1 + 1\<rparr>"
            using r(2) by simp
          show "replace_failed_proxy a lim s = (Ok (Some p), (bump_global_epoch ?s2)\<lparr>
               clusters := hm_modify name (\<lambda>_. c') (clusters s1),
               all_proxies := hm_modify (pr_proxy_address pr) (set_owner (Some name)) (hm_modify a (set_owner None) (all_proxies s1))\<rparr>)"
            using f Some s1 False g(1) r(3) by (simp add: replace_failed_proxy_def Let_def)
        qed (use r(4,5) in \<open>simp_all add: clusters_wf_def\<close>)
      qed
    qed
  qed
qed

lemma replace_failed_proxy_keeps:
  assumes "registry_ok s" "clusters_wf s"
  shows "registry_ok (snd (replace_failed_proxy a lim s)) \<and> clusters_wf (snd (replace_failed_proxy a lim s)) \<and>
    fst (replace_failed_proxy a lim s) \<noteq> Panic"
proof -
  have t: "registry_ok s1 \<and> clusters_wf s1" if "takeover_master name a s = (Ok (), s1)" for name s1
    using takeover_master_keeps [OF assms, of name a] that by simp
  from assms show ?thesis
    by (cases rule: replace_failed_proxy_cases [of s a lim]) (use assms in \<open>auto dest: t simp: clusters_wf_def\<close>)
qed



subsection \<open>The remaining updates\<close>

lemma balance_masters_cases:
  obtains (err) e where "balance_masters cname s = (Err e, s)"
  | (ok) c c' where "valid_cluster_name cname" "hm_get (clusters s) cname = Some c"
      "balance_masters cname s = (Ok (), bump_global_epoch (s\<lparr>clusters := hm_modify cname (\<lambda>_. c') (clusters s)\<rparr>))"
      "map slot_part (cs_chunks c') = map slot_part (cs_chunks c)" "members_of (cs_chunks c') = members_of (cs_chunks c)"
      "cs_name c' = cs_name c" "cs_epoch c' = global_epoch s + 1"
proof (cases "valid_cluster_name cname \<and> hm_get (clusters s) cname \<noteq> None")
  case True
  then obtain c where c: "hm_get (clusters s) cname = Some c" by auto
  let ?f = "\<lambda>chunk. if list_ex (\<lambda>a. List.member (failed_proxies s) a \<or> hm_contains_key (failures s) a) (arr2_list (proxy_addresses chunk))
      then chunk else chunk\<lparr>role_position := Normal\<rparr>"
  have "members_of (map ?f chunks) = members_of chunks" for chunks
    by (induction chunks) (simp_all add: chunk_members_def)
  moreover have "map slot_part (map ?f chunks) = map slot_part chunks" for chunks
    by (induction chunks) (simp_all add: slot_part_def)
  ultimately show ?thesis
    using True c ok [of c "cs_set_epoch (global_epoch s + 1) (c\<lparr>cs_chunks := map ?f (cs_chunks c)\<rparr>)"]
    by (simp add: balance_masters_def cluster_name_try_from_if Let_def cs_set_epoch_def)
next
  case False
  then have "\<exists>e. balance_masters cname s = (Err e, s)"
    by (auto simp: balance_masters_def cluster_name_try_from_if)
  with err show ?thesis by blast
qed

lemma change_config_cases:
  obtains (err) e where "change_config cname cfg s = (Err e, s)"
  | (ok) c config where "valid_cluster_name cname" "hm_get (clusters s) cname = Some c" "\<not> cs_is_migrating c"
      "cluster_config_set_fields (cs_config c) cfg = Inr config"
      "change_config cname cfg s = (Ok (), bump_global_epoch (s\<lparr>clusters :=
         hm_modify cname (\<lambda>_. c\<lparr>cs_config := config, cs_epoch := global_epoch s + 1\<rparr>) (clusters s)\<rparr>))"
proof (cases "valid_cluster_name cname \<and> hm_get (clusters s) cname \<noteq> None \<and>
    \<not> cs_is_migrating (the (hm_get (clusters s) cname)) \<and>
    (\<exists>config. cluster_config_set_fields (cs_config (the (hm_get (clusters s) cname))) cfg = Inr config)")
  case True
  then show ?thesis using ok by (auto simp: change_config_def cluster_name_try_from_if cs_set_epoch_def)
next
  case False
  have "\<exists>e. change_config cname cfg s = (Err e, s)"
  proof (cases "valid_cluster_name cname \<and> hm_get (clusters s) cname \<noteq> None")
    case True
    then obtain c where c: "hm_get (clusters s) cname = Some c" by auto
    with True False show ?thesis
      by (cases "cluster_config_set_fields (cs_config c) cfg")
        (auto simp: change_config_def cluster_name_try_from_if)
  next
    case False
    then show ?thesis by (auto simp: change_config_def cluster_name_try_from_if)
  qed
  with err show ?thesis by blast
qed

lemma balance_masters_registry: "registry_ok s \<Longrightarrow> registry_ok (snd (balance_masters cname s))"
  by (cases rule: balance_masters_cases [of cname s]) (auto intro: registry_ok_modify_cluster)

lemma change_config_registry: "registry_ok s \<Longrightarrow> registry_ok (snd (change_config cname cfg s))"
  by (cases rule: change_config_cases [of cname cfg s]) (auto intro: registry_ok_modify_cluster)


subsection \<open>The slots of a new cluster\<close>

text \<open>The number of slots of master \<open>i\<close> out of \<open>m\<close>.\<close>

definition share :: "nat \<Rightarrow> nat \<Rightarrow> nat" where
  "share m i = SLOT_NUM div m + (if i < SLOT_NUM mod m then 1 else 0)"

definition shares :: "nat \<Rightarrow> nat \<Rightarrow> nat" where
  "shares m n = sum_list (map (share m) [0 ..< n])"

lemma shares_simps [simp]: "shares m 0 = 0" "shares m (Suc n) = shares m n + share m n"
  by (simp_all add: shares_def)

lemma shares_eq: "shares m n = SLOT_NUM div m * n + min n (SLOT_NUM mod m)"
  by (induction n) (auto simp: share_def min_def)

lemma shares_total: "0 < m \<Longrightarrow> shares m m = SLOT_NUM"
  using mod_less_divisor [of m SLOT_NUM] by (simp add: shares_eq min.absorb2 less_imp_le)

lemma shares_mono: "a \<le> b \<Longrightarrow> shares m a \<le> shares m b"
  by (simp add: shares_eq add_mono)

lemma share_pos: "0 < m \<Longrightarrow> m \<le> SLOT_NUM \<Longrightarrow> 0 < share m i"
  by (simp add: share_def div_greater_zero_iff)

definition share_range :: "nat \<Rightarrow> nat \<Rightarrow> slot_range" where
  "share_range m i = \<lparr>sr_range_list = [(shares m i, shares m (Suc i) - 1)], sr_tag = TagNone\<rparr>"

lemma create_slots_share:
  assumes "0 < m" "m \<le> SLOT_NUM"
  shows "create_slots (SLOT_NUM div m) (SLOT_NUM - SLOT_NUM div m * m) i (shares m i) = (share_range m i, shares m (Suc i))"
proof -
  have r: "SLOT_NUM - SLOT_NUM div m * m = SLOT_NUM mod m" by (simp add: minus_div_mult_eq_mod)
  have lt: "shares m i < shares m (Suc i)" using share_pos [OF assms] by simp
  have en: "shares m i + SLOT_NUM div m + (if i < SLOT_NUM mod m then 1 else 0) = shares m (Suc i)"
    by (simp add: share_def)
  have "usize_sub (shares m (Suc i)) 1 = shares m (Suc i) - 1" using lt by (intro usize_sub_in_range) linarith
  moreover have "range_normalize (shares m i, shares m (Suc i) - 1) = (shares m i, shares m (Suc i) - 1)"
    using lt by (simp add: range_normalize_def)
  ultimately show ?thesis
    unfolding create_slots_def Let_def r en share_range_def from_single_range_def by simp
qed

lemma chunk_stores_from_shares:
  assumes "0 < m" "m \<le> SLOT_NUM"
  shows "chunk_stores_from (SLOT_NUM div m) (SLOT_NUM - SLOT_NUM div m * m) True i (shares m (2 * i)) ps =
    map (\<lambda>(k, p). new_chunk (Some (share_range m (2 * k)), Some (share_range m (2 * k + 1))) p) (zip [i ..< i + length ps] ps)"
proof (induction ps arbitrary: i)
  case (Cons p ps)
  have "chunk_stores_from (SLOT_NUM div m) (SLOT_NUM - SLOT_NUM div m * m) True (Suc i) (shares m (2 * Suc i)) ps =
      map (\<lambda>(k, p). new_chunk (Some (share_range m (2 * k)), Some (share_range m (2 * k + 1))) p)
        (zip [Suc i ..< Suc i + length ps] ps)" by (rule Cons.IH)
  moreover have "[i ..< i + length (p # ps)] = i # [Suc i ..< Suc i + length ps]"
    by (simp add: upt_conv_Cons del: upt_Suc)
  ultimately show ?case
    using create_slots_share [OF assms, of "2 * i"] create_slots_share [OF assms, of "2 * i + 1"]
    by (simp add: Let_def del: upt_Suc)
qed simp


lemma share_range_slots:
  assumes "0 < m" "m \<le> SLOT_NUM" "i < m"
  shows "stable_ok (Some (share_range m i))" "rl_slots (sr_range_list (share_range m i)) = [shares m i ..< shares m (Suc i)]"
    "length (rl_slots (sr_range_list (share_range m i))) = share m i"
proof -
  have lt: "shares m i < shares m (Suc i)" using share_pos [OF assms(1,2)] by simp
  have le: "shares m (Suc i) \<le> SLOT_NUM" using shares_mono [of "Suc i" m m] shares_total [OF assms(1)] assms(3) by simp
  then have "rl_inv (sr_range_list (share_range m i))"
    using lt by (auto simp: share_range_def rl_inv_def rl_canon_Cons rl_bounded_def SLOT_NUM_def)
  then show "stable_ok (Some (share_range m i))" by (simp add: share_range_def)
  show "rl_slots (sr_range_list (share_range m i)) = [shares m i ..< shares m (Suc i)]"
    using lt by (simp add: share_range_def range_slots_def)
  then show "length (rl_slots (sr_range_list (share_range m i))) = share m i" by simp
qed

lemma upt_append: "a \<le> b \<Longrightarrow> b \<le> c \<Longrightarrow> [a ..< b] @ [b ..< c] = [a ..< c]" for a b c :: nat
  using upt_add_eq_append [of a b "c - b"] by simp

lemma mset_shares:
  "sum_list (map (\<lambda>k. mset [shares m (2 * k) ..< shares m (2 * k + 1)] + mset [shares m (2 * k + 1) ..< shares m (2 * k + 2)]) [0 ..< n])
    = mset [0 ..< shares m (2 * n)]"
proof (induction n)
  case (Suc n)
  have "[shares m (2 * n) ..< shares m (2 * n + 1)] @ [shares m (2 * n + 1) ..< shares m (2 * n + 2)] = [shares m (2 * n) ..< shares m (2 * n + 2)]"
    by (intro upt_append shares_mono) simp_all
  moreover have "[0 ..< shares m (2 * n)] @ [shares m (2 * n) ..< shares m (2 * n + 2)] = [0 ..< shares m (2 * n + 2)]"
    by (intro upt_append shares_mono) simp_all
  ultimately have "mset [0 ..< shares m (2 * n)] + (mset [shares m (2 * n) ..< shares m (2 * n + 1)] + mset [shares m (2 * n + 1) ..< shares m (2 * n + 2)])
      = mset [0 ..< shares m (2 * n + 2)]"
    by (metis mset_append)
  with Suc show ?case by (simp del: shares_simps)
qed simp

text \<open>The chunks of a new cluster own all the slots, each part its share.\<close>

lemma new_cluster_chunks:
  assumes ps: "0 < length ps" "length ps * 2 \<le> SLOT_NUM"
    and ch: "chunks = chunk_stores_from (SLOT_NUM div (length ps * 2)) (SLOT_NUM - SLOT_NUM div (length ps * 2) * (length ps * 2)) True 0 0 ps"
  shows "slots_inv all_slots chunks" "\<not> cs_is_migrating (c\<lparr>cs_chunks := chunks\<rparr>)" "length chunks = length ps"
    and "k < length ps \<Longrightarrow> j < 2 \<Longrightarrow> part j (stable_slots (chunks ! k)) = Some (share_range (length ps * 2) (2 * k + j))"
    and "k < length ps \<Longrightarrow> migrating_slots (chunks ! k) = ([], [])"
proof -
  let ?m = "length ps * 2"
  let ?new = "\<lambda>(k, p). new_chunk (Some (share_range ?m (2 * k)), Some (share_range ?m (2 * k + 1))) p"
  have m: "0 < ?m" using ps by simp
  have eq: "chunks = map ?new (zip [0 ..< length ps] ps)"
    using chunk_stores_from_shares [OF m ps(2), of 0 ps] by (simp add: ch)
  show len: "length chunks = length ps" by (simp add: eq)
  have nth: "chunks ! k = new_chunk (Some (share_range ?m (2 * k)), Some (share_range ?m (2 * k + 1))) (ps ! k)"
    if "k < length ps" for k using that by (simp add: eq)
  show st: "part j (stable_slots (chunks ! k)) = Some (share_range ?m (2 * k + j))" if "k < length ps" "j < 2" for k j
    using that by (auto simp: nth new_chunk_def less_2_cases_iff)
  show mig: "migrating_slots (chunks ! k) = ([], [])" if "k < length ps" for k using that by (simp add: nth new_chunk_def)
  have all: "chunk \<in> set chunks \<Longrightarrow> migrating_slots chunk = ([], [])" for chunk
    using mig len by (metis in_set_conv_nth)
  then show "\<not> cs_is_migrating (c\<lparr>cs_chunks := chunks\<rparr>)"
    by (auto simp: cs_is_migrating_def chunk_is_migrating_def list_ex_iff arr2_list_def)
  have "chunks_ok chunks"
    unfolding chunks_ok_def chunk_ok_def len
    using st mig share_range_slots(1) [OF m ps(2)] by (auto simp: less_2_cases_iff)
  moreover have "chunks_keys b chunks = {#}" for b
    using all by (induction chunks) (auto simp: chunks_keys_def chunk_entries_eq)
  moreover have "owned chunks = all_slots"
  proof -
    have "chunk_owned (chunks ! k) = mset [shares ?m (2 * k) ..< shares ?m (2 * k + 1)] + mset [shares ?m (2 * k + 1) ..< shares ?m (2 * k + 2)]"
      if "k < length ps" for k
      using that share_range_slots(2) [OF m ps(2), of "2 * k"] share_range_slots(2) [OF m ps(2), of "2 * k + 1"]
      by (simp add: nth new_chunk_def chunk_owned_def stable_mset_def chunk_entries_eq del: shares_simps)
    then have "map chunk_owned chunks = map (\<lambda>k. mset [shares ?m (2 * k) ..< shares ?m (2 * k + 1)] + mset [shares ?m (2 * k + 1) ..< shares ?m (2 * k + 2)]) [0 ..< length ps]"
      by (intro nth_equalityI) (simp_all add: len del: shares_simps)
    then have "owned chunks = mset [0 ..< shares ?m (2 * length ps)]" unfolding owned_def using mset_shares by simp
    also have "shares ?m (2 * length ps) = SLOT_NUM" using shares_total [OF m] by (simp add: mult.commute)
    finally show ?thesis by (simp add: all_slots_def)
  qed
  ultimately show "slots_inv all_slots chunks" by (simp add: slots_inv_def mirrored_def)
qed

subsection \<open>Failover\<close>

text \<open>No master of the chunk is on the proxy \<open>a\<close>.\<close>

definition off_master :: "address \<Rightarrow> chunk_store \<Rightarrow> bool" where
  "off_master a chunk \<longleftrightarrow>
     (fst (proxy_addresses chunk) = a \<longrightarrow> role_position chunk = SecondChunkMaster) \<and>
     (snd (proxy_addresses chunk) = a \<longrightarrow> role_position chunk = FirstChunkMaster)"

lemma off_master_nodes:
  assumes "\<forall>chunk \<in> set chunks. off_master a chunk" "n \<in> set (shown_nodes chunks)" "nd_proxy_address n = a"
  shows "nd_role n = Replica"
proof -
  obtain k i where ki: "k < length chunks" "i < 4" "n = shown_node chunks (chunks ! k) i"
    using assms(2) set_shown_nodes by blast
  then have "off_master a (chunks ! k)" using assms(1) by simp
  with ki assms(3) show ?thesis
    by (elim less_4_elim; simp add: shown_node_def nd_role_def proxy_addr_def off_master_def CHUNK_HALF_NODE_NUM_def)
qed

lemma off_master_absent: "a \<notin> member_addrs (members_of chunks) \<Longrightarrow> \<forall>chunk \<in> set chunks. off_master a chunk"
  by (induction chunks) (auto simp: off_master_def chunk_members_def)

lemma takeover_scan_off:
  assumes "distinct (map fst (members_of chunks))"
  shows "takeover_scan e a chunks = Some (chunks', P) \<Longrightarrow> \<forall>chunk \<in> set chunks'. off_master a chunk"
    and "takeover_scan e a chunks = None \<Longrightarrow> \<forall>chunk \<in> set chunks. off_master a chunk"
proof -
  have "case takeover_scan e a chunks of Some (chunks', P) \<Rightarrow> \<forall>chunk \<in> set chunks'. off_master a chunk
    | None \<Rightarrow> \<forall>chunk \<in> set chunks. off_master a chunk"
    using assms
  proof (induction chunks)
    case (Cons chunk chunks)
    let ?p = "proxy_addresses chunk"
    have d: "fst ?p \<noteq> snd ?p" "fst ?p \<notin> member_addrs (members_of chunks)" "snd ?p \<notin> member_addrs (members_of chunks)"
      using Cons.prems by (auto simp: chunk_members_def member_addrs_def)
    show ?case
    proof (cases "fst ?p = a \<or> snd ?p = a")
      case True
      then have "a \<notin> member_addrs (members_of chunks)" using d by auto
      from True d(1) off_master_absent [OF this] show ?thesis by (auto simp: off_master_def split: option.splits)
    next
      case False
      with Cons show ?thesis by (fastforce simp: off_master_def split: option.splits)
    qed
  qed simp
  then show "takeover_scan e a chunks = Some (chunks', P) \<Longrightarrow> \<forall>chunk \<in> set chunks'. off_master a chunk"
    and "takeover_scan e a chunks = None \<Longrightarrow> \<forall>chunk \<in> set chunks. off_master a chunk" by auto
qed

lemma off_master_map_entries [simp]: "off_master a (map_entries f chunk) = off_master a chunk"
  by (simp add: off_master_def map_entries_def)

lemma registry_cluster_distinct:
  "registry_ok s \<Longrightarrow> hm_get (clusters s) name = Some c \<Longrightarrow> distinct (map fst (members_of (cs_chunks c)))"
  unfolding registry_ok_def consistent_def registry_of_def by fastforce

lemma registry_other_cluster:
  assumes "registry_ok s" "hm_get (all_proxies s) a = Some pr" "hm_get (clusters s) name = Some c"
    "pr_cluster pr \<noteq> Some name"
  shows "a \<notin> member_addrs (members_of (cs_chunks c))"
  using consistent_owner [of "registry_of s" a name] assms
  by (auto simp: registry_ok_def members_of_name_def registry_of_def)

lemma takeover_master_off:
  assumes "registry_ok s" "hm_get (all_proxies s) a = Some pr" "pr_cluster pr = Some name"
    "takeover_master name a s = (Ok (), s')" "hm_get (clusters s') name' = Some c'"
  shows "\<forall>chunk \<in> set (cs_chunks c'). off_master a chunk"
proof (cases "name' = name")
  case False
  have "hm_get (clusters s) name' = Some c'"
    using assms(4,5) False by (cases rule: takeover_master_cases [of s name a]) (auto simp: bump_global_epoch_def)
  then show ?thesis using off_master_absent registry_other_cluster [OF assms(1,2)] assms(3) False by auto
next
  case True
  note d = registry_cluster_distinct [OF assms(1)]
  show ?thesis
  proof (cases rule: takeover_master_cases [of s name a])
    case (same c)
    with assms(4,5) True have "c' = c" by (auto simp: bump_global_epoch_def)
    then show ?thesis using takeover_scan_off(2) [OF d same(2)] same(1) by blast
  next
    case (moved c chunks P c'')
    with assms(4,5) True have "c' = c''" by (auto simp: bump_global_epoch_def)
    then show ?thesis using takeover_scan_off(1) [OF d moved(2)] moved(1,3) by auto
  qed (use assms(4) in simp)
qed

subsection \<open>Properties\<close>

text \<open>
  (C20) Failover. When the broker handles the failure of a registered proxy it does not panic, and
  afterwards, whether a replacement was found or not, every cluster can be shown and no node on
  the failed proxy is a master in any of them.
\<close>

theorem failed_proxy_serves_no_master:
  assumes "registry_ok s" "clusters_wf s" "hm_get (all_proxies s) failed \<noteq> None"
    "replace_failed_proxy failed lim s = (res, s')" "hm_get (clusters s') name = Some c"
  shows "res \<noteq> Panic \<and> (\<exists>cl. cluster_store_to_cluster c = Some cl \<and>
    (\<forall>n \<in> set (cl_nodes cl). nd_proxy_address n = failed \<longrightarrow> nd_role n = Replica))"
proof -
  have k: "res \<noteq> Panic" "registry_ok s'" "clusters_wf s'"
    using replace_failed_proxy_keeps [OF assms(1,2), of failed lim] assms(4) by simp_all
  then have ok: "chunks_ok (cs_chunks c)" using assms(5) by (auto simp: clusters_wf_def chunks_wf_def)
  have free: "\<forall>chunk \<in> set (cs_chunks c). off_master failed chunk"
    if "hm_get (all_proxies s') failed = Some pr" "pr_cluster pr = None" for pr
    using off_master_absent registry_other_cluster [OF k(2) that(1) assms(5)] that(2) by simp
  have "\<forall>chunk \<in> set (cs_chunks c). off_master failed chunk"
    using assms(1,2)
  proof (cases rule: replace_failed_proxy_cases [of s failed lim])
    case (unused fpr)
    then show ?thesis using assms(4) free by auto
  next
    case (replaced fpr nm s1 s2 s3 pr c0 c1 p)
    have "all_proxies s1 = all_proxies s"
      using takeover_master_keeps(3) [OF assms(1,2), of nm failed] replaced(3) by simp
    moreover have "pr_proxy_address pr \<noteq> failed"
      using replaced(1,2,4,5) calculation by (auto simp: is_free_def)
    ultimately show ?thesis using replaced(1,8,9) assms(4) free by auto
  qed (use assms(3,4,5) takeover_master_off [OF assms(1)] in \<open>auto simp: bump_global_epoch_def\<close>)
  then show ?thesis
    using k(1) cluster_store_to_cluster_shown [OF ok] off_master_nodes by (auto simp: shown_cluster_def)
qed

lemma example_registry_ok: "registry_ok example_store"
proof -
  have "keyed example_store"
    by (auto simp: keyed_def example_store_def example_full_cluster_def hm_inv_def hm_keys_def hm_get_def split: if_splits)
  moreover have "check_metadata example_store"
    by (simp add: check_metadata_def check_cluster_def check_chunk_proxy_def check_proxy_def example_store_def
        example_full_cluster_def hm_get_def arr2_list_def)
  ultimately show ?thesis by (simp add: registry_ok_def check_metadata_iff)
qed

lemma example_clusters_wf: "clusters_wf example_store"
proof -
  have "uniq (owned (cs_chunks example_full_cluster))"
    using example_full_slots_inv uniq_all_slots by (simp add: slots_inv_def del: uniq_all_slots)
  then show ?thesis
    using example_full_slots_inv by (auto simp: clusters_wf_def chunks_wf_def slots_inv_def example_store_def hm_get_def split: if_splits)
qed

definition example_ordered_store :: meta_store where
  "example_ordered_store = example_store\<lparr>enable_ordered_proxy := True\<rparr>"

theorem failed_proxy_serves_no_master_witness:
  "registry_ok example_ordered_store \<and> clusters_wf example_ordered_store \<and>
   (\<exists>s' c cl. replace_failed_proxy ''p1:1'' 0 example_ordered_store = (Ok None, s') \<and>
      hm_get (clusters s') ''db'' = Some c \<and> cluster_store_to_cluster c = Some cl \<and>
      (\<forall>n \<in> set (cl_nodes cl). nd_proxy_address n = ''p1:1'' \<longrightarrow> nd_role n = Replica))"
proof -
  have ok: "registry_ok example_ordered_store" "clusters_wf example_ordered_store"
    using example_registry_ok example_clusters_wf by (simp_all add: example_ordered_store_def clusters_wf_def registry_ok_def keyed_def registry_of_def)
  have r: "\<exists>s' c. replace_failed_proxy ''p1:1'' 0 example_ordered_store = (Ok None, s') \<and> hm_get (clusters s') ''db'' = Some c"
    by (simp add: replace_failed_proxy_def takeover_master_def example_ordered_store_def example_store_def
        example_full_cluster_def hm_get_def hm_modify_def bump_global_epoch_def)
  have "hm_get (all_proxies example_ordered_store) ''p1:1'' \<noteq> None"
    by (simp add: example_ordered_store_def example_store_def hm_get_def)
  with r show ?thesis using failed_proxy_serves_no_master [OF ok, of "''p1:1''" 0] ok by blast
qed

text \<open>
  (C21) A new cluster. When the broker creates a cluster of at most \<open>2 * SLOT_NUM\<close> nodes,
  the new cluster has one chunk per four nodes, owns every slot exactly once, has no migration,
  carries the bumped global epoch, and splits the slots into consecutive stable ranges whose sizes
  differ by at most one: master \<open>i\<close> of \<open>m\<close> gets \<open>SLOT_NUM div m\<close> slots, and one more
  if \<open>i < SLOT_NUM mod m\<close>.
\<close>

theorem new_cluster_is_evenly_partitioned:
  assumes "registry_ok s" "add_cluster name node_num config s = (Ok (), s')" "node_num \<le> 2 * SLOT_NUM"
  shows "\<exists>c m. hm_get (clusters s') name = Some c \<and> m = node_num div 2 \<and> length (cs_chunks c) * 4 = node_num \<and>
    slots_inv all_slots (cs_chunks c) \<and> \<not> cs_is_migrating c \<and> cs_config c = config \<and>
    global_epoch s' = global_epoch s + 1 \<and> cs_epoch c = global_epoch s' \<and>
    (\<forall>k < length (cs_chunks c). \<forall>j < 2. opt_slots (part j (stable_slots (cs_chunks c ! k))) =
       [shares m (2 * k + j) ..< shares m (2 * k + j) + (SLOT_NUM div m + (if 2 * k + j < SLOT_NUM mod m then 1 else 0))])"
  using assms(1)
proof (cases rule: add_cluster_cases [of s name node_num config])
  case (err e)
  with assms(2) show ?thesis by simp
next
  case (ok nm ps chunks proxies c)
  have len: "length ps * 2 = node_num div 2" "0 < length ps" "length ps * 2 \<le> SLOT_NUM"
    using ok(5,6,8) assms(3) arg_cong [OF ok(9), of length] by auto
  note n = new_cluster_chunks [OF len(2,3) ok(9) [folded len(1)]]
  have sl: "opt_slots (part j (stable_slots (chunks ! k))) =
      [shares (length ps * 2) (2 * k + j) ..< shares (length ps * 2) (2 * k + j) + share (length ps * 2) (2 * k + j)]"
    if "k < length chunks" "j < 2" for k j
    using that n(3) n(4) [of k j] share_range_slots(2) [OF _ len(3), of "2 * k + j"] len(2) by simp
  have c: "cs_chunks c = chunks" "cs_config c = config" "cs_epoch c = global_epoch s + 1" "c\<lparr>cs_chunks := chunks\<rparr> = c"
    by (simp_all add: ok(14))
  have s': "hm_get (clusters s') name = Some c" "global_epoch s' = global_epoch s + 1"
    using ok(1,2) assms(2) by (auto simp: bump_global_epoch_def)
  show ?thesis
    using n(1) n(2) [of c] s' sl ok(8) unfolding c len(1) [symmetric]
    by (intro exI [of _ c] exI [of _ "length ps * 2"]) (simp add: c share_def)
qed

text \<open>When \<open>add_cluster\<close> succeeds; otherwise it reports an error and changes nothing.\<close>

lemma add_cluster_ok_iff:
  assumes "registry_ok s"
  shows "(\<exists>s'. add_cluster name n config s = (Ok (), s')) \<longleftrightarrow>
    \<not> (enable_ordered_proxy s \<and> clusters s \<noteq> []) \<and> valid_cluster_name name \<and> hm_get (clusters s) name = None \<and>
    n mod 4 = 0 \<and> 0 < n \<and> (\<exists>ps. allocate_proxies s (n div 2) 0 = Ok ps)" (is "?l \<longleftrightarrow> ?r")
proof
  assume ?l
  with assms show ?r
    by (cases rule: add_cluster_cases [of s name n config]) (auto simp: add_cluster_def split: if_splits)
next
  assume r: ?r
  then have "add_cluster name n config s \<noteq> (Err e, s)" for e
    by (auto simp: add_cluster_def cluster_name_try_from_if hm_contains_key_def Let_def
        elim!: dvdE simp flip: dvd_eq_mod_eq_0 split: option.splits)
  with assms show ?l by (cases rule: add_cluster_cases [of s name n config]) auto
qed

lemma example_free_registry_ok: "registry_ok (example_free_store b)"
  using example_free_keyed [of b]
  by (auto simp: registry_ok_def consistent_def registry_of_def example_free_store_def example_proxy_def hm_get_def
      split: if_splits)

theorem new_cluster_is_evenly_partitioned_witness:
  "\<exists>s' c. add_cluster ''db'' 8 cluster_config_default (example_free_store False) = (Ok (), s') \<and>
     hm_get (clusters s') ''db'' = Some c \<and> length (cs_chunks c) = 2 \<and>
     opt_slots (part 1 (stable_slots (cs_chunks c ! 0))) = [4096 ..< 8192]"
proof -
  have "\<forall>h. 4 + 2 * free_num_on_host (example_free_store False) h \<le> 2 * free_num (example_free_store False)"
    using example_free_num(2) [of False] by (simp add: example_free_num(1))
  from generate_free_chunks_ok [OF example_free_keyed _ _ this] obtain ps
    where "generate_free_chunks (example_free_store False) 4 = Ok ps" by (auto simp: example_free_num(1))
  then have "\<exists>ps. allocate_proxies (example_free_store False) (8 div 2) 0 = Ok ps"
    by (simp add: allocate_proxies_def example_free_store_def)
  then have "\<exists>s'. add_cluster ''db'' 8 cluster_config_default (example_free_store False) = (Ok (), s')"
    unfolding add_cluster_ok_iff [OF example_free_registry_ok]
    using valid_name_db by (simp add: example_free_store_def hm_get_def)
  then obtain s' where s': "add_cluster ''db'' 8 cluster_config_default (example_free_store False) = (Ok (), s')" by blast
  from new_cluster_is_evenly_partitioned [OF example_free_registry_ok s'] obtain c where
    c: "hm_get (clusters s') ''db'' = Some c" "length (cs_chunks c) * 4 = 8"
      "\<forall>k < length (cs_chunks c). \<forall>j < 2. opt_slots (part j (stable_slots (cs_chunks c ! k))) =
       [shares 4 (2 * k + j) ..< shares 4 (2 * k + j) + (SLOT_NUM div 4 + (if 2 * k + j < SLOT_NUM mod 4 then 1 else 0))]"
    by (auto simp: SLOT_NUM_def)
  have "0 < length (cs_chunks c)" using c(2) by auto
  from c(3) [rule_format, OF this, of 1] have "opt_slots (part 1 (stable_slots (cs_chunks c ! 0))) = [4096 ..< 8192]"
    by (simp add: shares_eq SLOT_NUM_def del: upt_rec_numeral)
  moreover have "length (cs_chunks c) = 2" using c(2) by simp
  ultimately show ?thesis using s' c(1) by blast
qed

lemma hm_get_filter:
  "hm_inv m \<Longrightarrow> hm_get (filter (\<lambda>(_, v). P v) m) k = (case hm_get m k of None \<Rightarrow> None | Some v \<Rightarrow> if P v then Some v else None)"
  by (induction m) (force simp: hm_defs dest: map_of_SomeD split: option.splits)+

lemma hm_mem: "hm_inv m \<Longrightarrow> (k, v) \<in> set m \<longleftrightarrow> hm_get m k = Some v"
  by (simp add: hm_inv_def hm_keys_def hm_get_def)

lemma hm_inv_filter: "hm_inv m \<Longrightarrow> hm_inv (filter P m)"
  by (simp add: hm_inv_def hm_keys_def distinct_map_filter)

lemma get_failures_kept:
  "hm_inv (failures s) \<Longrightarrow> hm_get (failures (snd (get_failures within_ttl quorum s))) b =
     (case hm_get (failures s) b of None \<Rightarrow> None
      | Some reports \<Rightarrow> (let kept = filter (\<lambda>(_, t). within_ttl t) reports in if kept = [] then None else Some kept))"
  by (simp add: get_failures_def Let_def hm_get_filter split: option.split)

text \<open>
  (C24) Failure detection. The broker reports a proxy as failed exactly when it is registered and
  at least \<open>max 1 quorum\<close> different reporters have an unexpired report on it; asking drops the
  expired reports and changes nothing else of the store.
\<close>

theorem failure_needs_quorum:
  assumes "hm_inv (failures s)" "get_failures within_ttl quorum s = (failed, s')"
  shows "(a \<in> set failed \<longleftrightarrow> hm_get (all_proxies s) a \<noteq> None \<and>
      (\<exists>reports. hm_get (failures s) a = Some reports \<and>
         max 1 (unat quorum) \<le> length (filter (\<lambda>(_, t). within_ttl t) reports))) \<and>
    s' = s\<lparr>failures := failures s'\<rparr> \<and>
    hm_get (failures s') a = (case hm_get (failures s) a of None \<Rightarrow> None
      | Some reports \<Rightarrow> (let kept = filter (\<lambda>(_, t). within_ttl t) reports in if kept = [] then None else Some kept))"
proof -
  have s': "s' = snd (get_failures within_ttl quorum s)" and failed: "failed = fst (get_failures within_ttl quorum s)"
    using assms(2) by simp_all
  have inv: "hm_inv (failures s')"
    using assms(1) by (simp add: s' get_failures_def Let_def hm_inv_filter)
  have "a \<in> set failed \<longleftrightarrow> (\<exists>r. (a, r) \<in> set (failures s') \<and> unat quorum \<le> length r \<and> hm_get (all_proxies s) a \<noteq> None)"
    by (force simp: failed s' get_failures_def Let_def hm_contains_key_def)
  also have "\<dots> \<longleftrightarrow> (\<exists>r. hm_get (failures s') a = Some r \<and> unat quorum \<le> length r \<and> hm_get (all_proxies s) a \<noteq> None)"
    by (simp add: hm_mem [OF inv])
  also have "\<dots> \<longleftrightarrow> hm_get (all_proxies s) a \<noteq> None \<and>
      (\<exists>reports. hm_get (failures s) a = Some reports \<and>
         max 1 (unat quorum) \<le> length (filter (\<lambda>(_, t). within_ttl t) reports))"
    unfolding s' get_failures_kept [OF assms(1)]
    by (auto simp: Let_def Suc_le_eq split: option.splits if_splits)
  finally show ?thesis
    using get_failures_kept [OF assms(1), of within_ttl quorum a] by (simp add: s' get_failures_def Let_def)
qed

theorem failure_needs_quorum_witness:
  "fst (get_failures (\<lambda>t. 10 \<le> t) 2 (example_store\<lparr>failures :=
      [(''p1:1'', [(''r1'', 12), (''r2'', 11)]), (''p2:1'', [(''r1'', 12), (''r2'', 9)])]\<rparr>)) = [''p1:1''] \<and>
   \<not> (2::nat) \<le> length (filter (\<lambda>(_, t). 10 \<le> t) [(''r1'', 12), (''r2'', 9 :: int)])"
proof -
  let ?s = "example_store\<lparr>failures :=
      [(''p1:1'', [(''r1'', 12), (''r2'', 11)]), (''p2:1'', [(''r1'', 12), (''r2'', 9)])]\<rparr>"
  have g: "get_failures (\<lambda>t. 10 \<le> t) 2 ?s =
      ([''p1:1''], ?s\<lparr>failures := [(''p1:1'', [(''r1'', 12), (''r2'', 11)]), (''p2:1'', [(''r1'', 12)])]\<rparr>)"
    by (simp add: get_failures_def hm_map_values_def example_store_def hm_contains_key_def hm_get_def)
  have "hm_inv (failures ?s)" by (simp add: hm_inv_def hm_keys_def)
  from failure_needs_quorum [OF this g, of "''p2:1''"] g show ?thesis by (simp add: hm_get_def)
qed





end
