(* ===== verification/UM_Migrate.thy ===== *)
theory UM_Migrate
  imports UM_Update
begin

section \<open>Slot migration (src/broker/migrate.rs)\<close>

text \<open>
  The operations of \<open>MetaStoreMigrate\<close>: planning the migrations of a scale-out
  (\<open>remove_slots_from_src\<close>) or a scale-down (\<open>remove_slots_from_src_to_scale_down\<close>),
  recording them on both sides (\<open>assign_dst_slots\<close>) and committing them one by one
  (\<open>commit_migration\<close>). The inner loops are partial functions whose result None stands
  for a panic or for running forever. They move slots from one source at a time into the
  destination being filled; a locale collects what the two loops have in common, and the plan
  that comes out conserves the slots and gives every part its exact share.
\<close>


subsection \<open>The plan of a scale-out\<close>

text \<open>The local variables of the loops that outlive one source.\<close>

record remove_state =
  curr_dst_master_index :: usize
  curr_dst_slots :: "range list"
  curr_slots_num :: usize
  planned :: "migration_slots_rec list"

definition remove_start :: remove_state where
  "remove_start = \<lparr>curr_dst_master_index = 0, curr_dst_slots = [], curr_slots_num = 0, planned = []\<rparr>"

definition range_num :: "range \<Rightarrow> usize" where
  "range_num r = usize_add (usize_sub (snd r) (fst r)) 1"

text \<open>Take \<open>remove_num\<close> slots, or the whole range if it is smaller, from the last range.\<close>

definition take_last :: "usize \<Rightarrow> range_list \<Rightarrow> (range \<times> usize \<times> range_list) option" where
  "take_last remove_num rl =
     (if rl = [] then None
      else
        (let r = last rl; num = range_num r in
         if remove_num \<ge> num then Some (r, num, butlast rl)
         else
           (let en = snd r; start = usize_add (usize_sub en remove_num) 1
            in Some ((start, en), remove_num, butlast rl @ [(fst r, usize_sub en remove_num)]))))"

text \<open>Put a range into the destination being filled; hand the destination over when it is full or the source is done.\<close>

definition add_to_dst :: "range \<Rightarrow> usize \<Rightarrow> remove_state \<Rightarrow> remove_state" where
  "add_to_dst r num st = st\<lparr>curr_dst_slots := curr_dst_slots st @ [r], curr_slots_num := usize_add (curr_slots_num st) num\<rparr>"

definition hand_over :: "migration_meta_store \<Rightarrow> bool \<Rightarrow> remove_state \<Rightarrow> remove_state" where
  "hand_over meta full st =
     (let st1 = st\<lparr>planned := planned st @ [\<lparr>mg_ranges = rl_new (curr_dst_slots st), mg_meta = meta\<rparr>], curr_dst_slots := []\<rparr>
      in if full then st1\<lparr>curr_dst_master_index := curr_dst_master_index st1 + 1, curr_slots_num := 0\<rparr> else st1)"

definition final_num :: "usize \<Rightarrow> usize \<Rightarrow> usize \<Rightarrow> usize" where
  "final_num average remainder index = usize_add average (if index < remainder then 1 else 0)"

partial_function (option) remove_loop ::
  "epoch \<Rightarrow> usize \<Rightarrow> usize \<Rightarrow> usize \<Rightarrow> usize \<Rightarrow> usize \<Rightarrow> usize \<Rightarrow> range_list \<Rightarrow> remove_state \<Rightarrow> (range_list \<times> remove_state) option" where
  "remove_loop epoch average remainder src_chunk_num dst_master_num i j rl st =
     (if curr_dst_master_index st = dst_master_num then Some (rl, st)
      else
        (let src_final_num = final_num average remainder (i * 2 + j);
             dst_final_num = final_num average remainder (src_chunk_num * 2 + curr_dst_master_index st)
         in if get_slots_num rl \<le> src_final_num then Some (rl, st)
            else
              (let need_num = usize_sub dst_final_num (curr_slots_num st);
                   available_num = usize_sub (get_slots_num rl) src_final_num
               in case take_last (min need_num available_num) rl of
                    None \<Rightarrow> None
                  | Some (r, num, rl') \<Rightarrow>
                      (let st1 = add_to_dst r num st;
                           full = (curr_slots_num st1 \<ge> dst_final_num);
                           src_done = (get_slots_num rl' \<le> src_final_num)
                       in if full \<or> src_done then
                            (let st2 = hand_over \<lparr>ms_epoch = epoch, src_chunk_index = i, src_chunk_part = j,
                                   dst_chunk_index = src_chunk_num + curr_dst_master_index st1 div 2,
                                   dst_chunk_part = curr_dst_master_index st1 mod 2\<rparr> full st1
                             in if src_done then Some (rl', st2)
                                else remove_loop epoch average remainder src_chunk_num dst_master_num i j rl' st2)
                          else remove_loop epoch average remainder src_chunk_num dst_master_num i j rl' st1))))"

text \<open>The two nested loops over the chunks and their two parts, with the body for one part.\<close>

fun for_parts ::
  "(usize \<Rightarrow> usize \<Rightarrow> slot_range option \<Rightarrow> remove_state \<Rightarrow> (slot_range option \<times> remove_state) option) \<Rightarrow>
     usize \<Rightarrow> chunk_store list \<Rightarrow> remove_state \<Rightarrow> (chunk_store list \<times> remove_state) option" where
  "for_parts body i [] st = Some ([], st)"
| "for_parts body i (chunk # chunks) st =
     (case body i 0 (fst (stable_slots chunk)) st of
        None \<Rightarrow> None
      | Some (s0, st0) \<Rightarrow>
          (case body i 1 (snd (stable_slots chunk)) st0 of
             None \<Rightarrow> None
           | Some (s1, st1) \<Rightarrow>
               map_option (\<lambda>(chunks', st'). (chunk\<lparr>stable_slots := (s0, s1)\<rparr> # chunks', st'))
                 (for_parts body (i + 1) chunks st1)))"

definition remove_from_part ::
  "epoch \<Rightarrow> usize \<Rightarrow> usize \<Rightarrow> usize \<Rightarrow> usize \<Rightarrow> usize \<Rightarrow> usize \<Rightarrow> slot_range option \<Rightarrow> remove_state \<Rightarrow>
     (slot_range option \<times> remove_state) option" where
  "remove_from_part epoch average remainder src_chunk_num dst_master_num i j slot_range st =
     (case slot_range of
        None \<Rightarrow> Some (None, st)
      | Some sr \<Rightarrow>
          map_option (\<lambda>(rl, st'). (Some (sr\<lparr>sr_range_list := rl\<rparr>), st'))
            (remove_loop epoch average remainder src_chunk_num dst_master_num i j (sr_range_list sr) st))"

definition is_dst_chunk :: "chunk_store \<Rightarrow> bool" where
  "is_dst_chunk chunk = (fst (stable_slots chunk) = None \<and> snd (stable_slots chunk) = None)"

definition remove_slots_from_src ::
  "epoch \<Rightarrow> chunk_store list \<Rightarrow> (chunk_store list \<times> migration_slots_rec list) option" where
  "remove_slots_from_src epoch chunks =
     (let dst_chunk_num = length (filter is_dst_chunk chunks);
          dst_master_num = dst_chunk_num * 2;
          master_num = length chunks * 2;
          src_chunk_num = length chunks - dst_chunk_num;
          average = SLOT_NUM div master_num;
          remainder = SLOT_NUM - average * master_num
      in if master_num = 0 then None
         else map_option (map_prod id planned)
                (for_parts (remove_from_part epoch average remainder src_chunk_num dst_master_num) 0 chunks remove_start))"


subsection \<open>The plan of a scale-down\<close>

definition take_first :: "usize \<Rightarrow> range_list \<Rightarrow> (range \<times> usize \<times> range_list) option" where
  "take_first remove_num rl =
     (case rl of
        [] \<Rightarrow> None
      | r # rl' \<Rightarrow>
          (let num = range_num r in
           if remove_num \<ge> num then Some (r, num, rl')
           else
             (let start = fst r; en = usize_sub (usize_add remove_num start) 1
              in Some ((start, en), remove_num, (usize_add start remove_num, snd r) # rl'))))"

partial_function (option) remove_loop_to_scale_down ::
  "epoch \<Rightarrow> usize \<Rightarrow> usize \<Rightarrow> usize list \<Rightarrow> usize \<Rightarrow> usize \<Rightarrow> usize \<Rightarrow> range_list \<Rightarrow> remove_state \<Rightarrow> (range_list \<times> remove_state) option" where
  "remove_loop_to_scale_down epoch average remainder dst_existing_slots_num dst_master_num i j rl st =
     (if curr_dst_master_index st = dst_master_num then Some (rl, st)
      else
        (let dst_final_num = final_num average remainder (curr_dst_master_index st)
         in case list_get dst_existing_slots_num (curr_dst_master_index st) of
              None \<Rightarrow> None
            | Some dst_existing \<Rightarrow>
                (let need_num = usize_sub (usize_sub dst_final_num (curr_slots_num st)) dst_existing;
                     available_num = get_slots_num rl
                 in if available_num = 0 then Some (rl, st)
                    else
                      (case take_first (min need_num available_num) rl of
                         None \<Rightarrow> None
                       | Some (r, num, rl') \<Rightarrow>
                           (let st1 = add_to_dst r num st;
                                full = (usize_add (curr_slots_num st1) dst_existing \<ge> dst_final_num);
                                src_done = (get_slots_num rl' = 0)
                            in if full \<or> src_done then
                                 (let st2 = hand_over \<lparr>ms_epoch = epoch, src_chunk_index = i, src_chunk_part = j,
                                        dst_chunk_index = curr_dst_master_index st1 div 2,
                                        dst_chunk_part = curr_dst_master_index st1 mod 2\<rparr> full st1
                                  in if src_done then Some (rl', st2)
                                     else remove_loop_to_scale_down epoch average remainder dst_existing_slots_num dst_master_num i j rl' st2)
                               else remove_loop_to_scale_down epoch average remainder dst_existing_slots_num dst_master_num i j rl' st1)))))"

text \<open>Whatever the loop leaves of the slots of the part is dropped: \<open>*slot_range = None\<close>.\<close>

definition remove_from_part_to_scale_down ::
  "epoch \<Rightarrow> usize \<Rightarrow> usize \<Rightarrow> usize list \<Rightarrow> usize \<Rightarrow> usize \<Rightarrow> usize \<Rightarrow> slot_range option \<Rightarrow> remove_state \<Rightarrow>
     (slot_range option \<times> remove_state) option" where
  "remove_from_part_to_scale_down epoch average remainder dst_existing_slots_num dst_master_num i j slot_range st =
     (case slot_range of
        None \<Rightarrow> Some (None, st)
      | Some sr \<Rightarrow>
          map_option (\<lambda>(_, st'). (None, st'))
            (remove_loop_to_scale_down epoch average remainder dst_existing_slots_num dst_master_num i j (sr_range_list sr) st))"

definition stable_num :: "slot_range option \<Rightarrow> usize" where
  "stable_num slot_range = (case slot_range of Some sr \<Rightarrow> get_slots_num (sr_range_list sr) | None \<Rightarrow> 0)"

definition remove_slots_from_src_to_scale_down ::
  "epoch \<Rightarrow> usize \<Rightarrow> chunk_store list \<Rightarrow> (chunk_store list \<times> migration_slots_rec list) option" where
  "remove_slots_from_src_to_scale_down epoch new_chunk_num chunks =
     (let dst_chunk_num = new_chunk_num;
          dst_master_num = dst_chunk_num * 2;
          average = SLOT_NUM div dst_master_num;
          remainder = SLOT_NUM - average * dst_master_num;
          dst_existing_slots_num =
            concat (map (\<lambda>chunk. map stable_num (arr2_list (stable_slots chunk))) (take dst_chunk_num chunks))
      in if dst_master_num = 0 then None
         else map_option (\<lambda>(chunks', st). (take dst_chunk_num chunks @ chunks', planned st))
                (for_parts (remove_from_part_to_scale_down epoch average remainder dst_existing_slots_num dst_master_num)
                   dst_chunk_num (drop dst_chunk_num chunks) remove_start))"


subsection \<open>Recording the plan\<close>

fun assign_entries :: "migration_slots_rec list \<Rightarrow> chunk_store list \<Rightarrow> chunk_store list option" where
  "assign_entries [] chunks = Some chunks"
| "assign_entries (m # ms) chunks =
     (let meta = mg_meta m;
          entry = (\<lambda>b. \<lparr>mr_range_list = mg_ranges m, mr_is_migrating = b, mr_meta = meta\<rparr>)
      in case push_migrating (src_chunk_index meta) (src_chunk_part meta) (entry True) chunks of
           None \<Rightarrow> None
         | Some chunks1 \<Rightarrow>
             (case push_migrating (dst_chunk_index meta) (dst_chunk_part meta) (entry False) chunks1 of
                None \<Rightarrow> None
              | Some chunks2 \<Rightarrow> assign_entries ms chunks2))"

definition compact_entry :: "migration_slot_range_store \<Rightarrow> migration_slot_range_store" where
  "compact_entry e = e\<lparr>mr_range_list := compact (mr_range_list e)\<rparr>"

definition compact_stable :: "slot_range option \<Rightarrow> slot_range option" where
  "compact_stable = map_option (\<lambda>sr. sr\<lparr>sr_range_list := compact (sr_range_list sr)\<rparr>)"

definition compact_slots :: "chunk_store list \<Rightarrow> chunk_store list" where
  "compact_slots chunks =
     map (\<lambda>chunk. chunk\<lparr>stable_slots := map_prod compact_stable compact_stable (stable_slots chunk),
                       migrating_slots := map_prod (map compact_entry) (map compact_entry) (migrating_slots chunk)\<rparr>) chunks"

definition assign_dst_slots :: "migration_slots_rec list \<Rightarrow> chunk_store list \<Rightarrow> chunk_store list option" where
  "assign_dst_slots migration_slots chunks = map_option compact_slots (assign_entries migration_slots chunks)"

text \<open>
  \<open>print_migration_slot\<close> only logs, but it looks up the endpoints of every migration on the
  way: whether it gets through.
\<close>

definition print_migration_slot :: "chunk_store list \<Rightarrow> bool" where
  "print_migration_slot chunks = (those (map (\<lambda>e. to_slot_range e chunks) (all_entries chunks)) \<noteq> None)"

definition check_running_tasks :: "cluster_store \<Rightarrow> bool" where
  "check_running_tasks c =
     list_ex (\<lambda>chunk. list_ex (\<lambda>slots. slots \<noteq> []) (arr2_list (migrating_slots chunk))) (cs_chunks c)"

definition empty_exists :: "cluster_store \<Rightarrow> bool" where
  "empty_exists c = list_ex (\<lambda>chunk. list_ex (\<lambda>slots. slots = None) (arr2_list (stable_slots chunk))) (cs_chunks c)"


subsection \<open>migrate\_slots and migrate\_slots\_to\_scale\_down\<close>

text \<open>
  A panic while the plan is made would leave a half-changed cluster behind; the store that comes
  with Panic is the one at the start of the planning.
\<close>

definition start_migration ::
  "cluster_name \<Rightarrow> cluster_store \<Rightarrow> (chunk_store list \<times> migration_slots_rec list) option \<Rightarrow> meta_store \<Rightarrow> unit result" where
  "start_migration name c plan s =
     (case plan of
        None \<Rightarrow> (Panic, s)
      | Some (chunks, migration_slots) \<Rightarrow>
          (case assign_dst_slots migration_slots chunks of
             None \<Rightarrow> (Panic, s)
           | Some chunks' \<Rightarrow>
               (let s' = s\<lparr>clusters := hm_modify name (\<lambda>_. cs_set_epoch (global_epoch s) (c\<lparr>cs_chunks := chunks'\<rparr>)) (clusters s)\<rparr>
                in if print_migration_slot chunks' then (Ok (), s') else (Panic, s'))))"

definition migrate_slots :: "string \<Rightarrow> meta_store \<Rightarrow> unit result" where
  "migrate_slots cluster_name s =
     (case cluster_name_try_from cluster_name of
        None \<Rightarrow> (Err InvalidClusterName, s)
      | Some name \<Rightarrow>
          (let s1 = bump_global_epoch s in
           case hm_get (clusters s1) name of
             None \<Rightarrow> (Err ClusterNotFound, s1)
           | Some c \<Rightarrow>
               if \<not> empty_exists c then (Err SlotsAlreadyEven, s1)
               else if check_running_tasks c then (Err MigrationRunning, s1)
               else start_migration name c (remove_slots_from_src (global_epoch s1) (cs_chunks c)) s1))"

definition migrate_slots_to_scale_down :: "string \<Rightarrow> usize \<Rightarrow> meta_store \<Rightarrow> unit result" where
  "migrate_slots_to_scale_down cluster_name new_node_num s =
     (case cluster_name_try_from cluster_name of
        None \<Rightarrow> (Err InvalidClusterName, s)
      | Some name \<Rightarrow>
          (let s1 = bump_global_epoch s in
           case hm_get (clusters s1) name of
             None \<Rightarrow> (Err ClusterNotFound, s1)
           | Some c \<Rightarrow>
               if empty_exists c then (Err FreeNodeFound, s1)
               else if check_running_tasks c then (Err MigrationRunning, s1)
               else if new_node_num = 0 \<or> new_node_num mod CHUNK_NODE_NUM \<noteq> 0
                    \<or> new_node_num \<ge> length (cs_chunks c) * CHUNK_NODE_NUM then (Err InvalidNodeNum, s1)
               else start_migration name c
                      (remove_slots_from_src_to_scale_down (global_epoch s1) (new_node_num div 4) (cs_chunks c)) s1))"


subsection \<open>commit\_migration\<close>

text \<open>The entries with their chunk and part, in the order of the iterators.\<close>

fun entries_at :: "usize \<Rightarrow> chunk_store list \<Rightarrow> ((usize \<times> usize) \<times> migration_slot_range_store) list" where
  "entries_at i [] = []"
| "entries_at i (chunk # chunks) =
     map (Pair (i, 0)) (fst (migrating_slots chunk)) @ map (Pair (i, 1)) (snd (migrating_slots chunk)) @ entries_at (i + 1) chunks"

definition find_entry :: "bool \<Rightarrow> range_list \<Rightarrow> epoch \<Rightarrow> chunk_store list \<Rightarrow> (usize \<times> usize) option" where
  "find_entry is_migrating rl task_epoch chunks =
     map_option fst (find (\<lambda>(_, e). mr_range_list e = rl \<and> ms_epoch (mr_meta e) = task_epoch \<and> mr_is_migrating e = is_migrating)
       (entries_at 0 chunks))"

definition retain_entries :: "(migration_slot_range_store \<Rightarrow> bool) \<Rightarrow> chunk_store \<Rightarrow> chunk_store" where
  "retain_entries P chunk = chunk\<lparr>migrating_slots := map_prod (filter P) (filter P) (migrating_slots chunk)\<rparr>"

definition take_out :: "(migration_slot_range_store \<Rightarrow> bool) \<Rightarrow> migration_slot_range_store list \<Rightarrow>
    (range_list \<times> migration_slot_range_store list) option" where
  "take_out P es =
     map_option (\<lambda>index. (mr_range_list (es ! index), take index es @ drop (Suc index) es)) (find_position P es)"

fun put_stable :: "range_list \<Rightarrow> slot_range option \<Rightarrow> slot_range option" where
  "put_stable rl (Some sr) = Some (sr\<lparr>sr_range_list := merge_another (sr_range_list sr) rl\<rparr>)"
| "put_stable rl None = Some \<lparr>sr_range_list = rl, sr_tag = TagNone\<rparr>"

text \<open>The first importing entry that satisfies \<open>P\<close> becomes stable.\<close>

fun settle_import :: "(migration_slot_range_store \<Rightarrow> bool) \<Rightarrow> chunk_store list \<Rightarrow> chunk_store list" where
  "settle_import P [] = []"
| "settle_import P (chunk # chunks) =
     (case take_out P (fst (migrating_slots chunk)) of
        Some (rl, es) \<Rightarrow>
          chunk\<lparr>migrating_slots := (es, snd (migrating_slots chunk)),
                stable_slots := arr2_modify 0 (put_stable rl) (stable_slots chunk)\<rparr> # chunks
      | None \<Rightarrow>
          (case take_out P (snd (migrating_slots chunk)) of
             Some (rl, es) \<Rightarrow>
               chunk\<lparr>migrating_slots := (fst (migrating_slots chunk), es),
                     stable_slots := arr2_modify 1 (put_stable rl) (stable_slots chunk)\<rparr> # chunks
           | None \<Rightarrow> chunk # settle_import P chunks))"

definition commit_chunks :: "range_list \<Rightarrow> migration_meta_store \<Rightarrow> chunk_store list \<Rightarrow> chunk_store list" where
  "commit_chunks rl meta chunks =
     (let chunks1 = map (retain_entries (\<lambda>e. \<not> (mr_is_migrating e \<and> mr_range_list e = rl \<and> mr_meta e = meta))) chunks
      in compact_slots (settle_import (\<lambda>e. \<not> mr_is_migrating e \<and> mr_meta e = meta \<and> mr_range_list e = rl) chunks1))"

definition commit_migration :: "migration_task_meta \<Rightarrow> meta_store \<Rightarrow> unit result" where
  "commit_migration task s =
     (let new_epoch = global_epoch s + 1; name = mt_cluster_name task; rl = sr_range_list (mt_slot_range task) in
      case hm_get (clusters s) name of
        None \<Rightarrow> (Err ClusterNotFound, s)
      | Some c \<Rightarrow>
          (case get_migration_meta (sr_tag (mt_slot_range task)) of
             None \<Rightarrow> (Err InvalidMigrationTask, s)
           | Some task_meta \<Rightarrow>
               (case find_entry True rl (mm_epoch task_meta) (cs_chunks c) of
                  None \<Rightarrow> (Err MigrationTaskNotFound, s)
                | Some (si, sj) \<Rightarrow>
                    (case find_entry False rl (mm_epoch task_meta) (cs_chunks c) of
                       None \<Rightarrow> (Err MigrationTaskNotFound, s)
                     | Some (di, dj) \<Rightarrow>
                         (let meta = \<lparr>ms_epoch = mm_epoch task_meta, src_chunk_index = si, src_chunk_part = sj,
                                dst_chunk_index = di, dst_chunk_part = dj\<rparr>;
                              c' = cs_set_epoch new_epoch (c\<lparr>cs_chunks := commit_chunks rl meta (cs_chunks c)\<rparr>)
                          in (Ok (), bump_global_epoch (s\<lparr>clusters := hm_modify name (\<lambda>_. c') (clusters s)\<rparr>)))))))"

text \<open>What \<open>check_slots_balance\<close>, called at the end of a commit, writes to the error log.\<close>

datatype balance_error = ScatteredSlots | NoSlots | UnbalancedSlots "usize list"

definition check_slots_balance :: "cluster_store \<Rightarrow> balance_error list" where
  "check_slots_balance c =
     (if list_ex (\<lambda>chunk. fst (migrating_slots chunk) \<noteq> [] \<or> snd (migrating_slots chunk) \<noteq> []) (cs_chunks c) then []
      else
        (let scattered = concat (map (\<lambda>chunk.
               if fst (stable_slots chunk) = None \<and> snd (stable_slots chunk) \<noteq> None then [ScatteredSlots] else []) (cs_chunks c));
             slot_num = concat (map (\<lambda>chunk. map stable_num (arr2_list (stable_slots chunk))) (cs_chunks c));
             slot_num_without_zeros = filter (\<lambda>n. n > 0) slot_num
         in scattered @
            (case slot_num_without_zeros of
               [] \<Rightarrow> [NoSlots]
             | n # ns \<Rightarrow>
                 if usize_sub (fold max ns n) (fold min ns n) > 1 then [UnbalancedSlots slot_num] else [])))"


subsection \<open>Taking slots off a range list\<close>

lemma rl_inv_Cons:
  "rl_inv (r # rl) \<longleftrightarrow> fst r \<le> snd r \<and> snd r < 2 ^ 64 - 1 \<and> (\<forall>r' \<in> set rl. snd r + 1 < fst r') \<and> rl_inv rl"
  by (auto simp: rl_inv_def rl_canon_Cons)

lemma rl_inv_snoc:
  "rl_inv (rl @ [r]) \<longleftrightarrow> fst r \<le> snd r \<and> snd r < 2 ^ 64 - 1 \<and> (\<forall>r' \<in> set rl. snd r' + 1 < fst r) \<and> rl_inv rl"
  by (auto simp: rl_inv_def rl_canon_def sorted_wrt_append)

lemma range_num_length: "fst r \<le> snd r \<Longrightarrow> snd r < 2 ^ 64 - 1 \<Longrightarrow> range_num r = length (range_slots r)"
  by (simp add: range_num_def usize_simps length_range_slots)

lemma range_slots_split:
  "a \<le> m \<Longrightarrow> m < b \<Longrightarrow> mset (range_slots (a, b)) = mset (range_slots (a, m)) + mset (range_slots (Suc m, b))"
  unfolding range_slots_def using upt_append [of a "Suc m" "Suc b"] by (metis Suc_leI fst_conv le_SucI less_imp_le mset_append not_less_eq_eq snd_conv)

text \<open>What the loops need of \<open>take_last\<close> and \<open>take_first\<close>.\<close>

definition takes_slots :: "(usize \<Rightarrow> range_list \<Rightarrow> (range \<times> usize \<times> range_list) option) \<Rightarrow> bool" where
  "takes_slots tk \<longleftrightarrow>
     (\<forall>k rl. rl_inv rl \<longrightarrow> 0 < k \<longrightarrow> k \<le> length (rl_slots rl) \<longrightarrow>
        (\<exists>r n rl'. tk k rl = Some (r, n, rl') \<and> 0 < n \<and> n \<le> k \<and> n = length (range_slots r) \<and>
           fst r \<le> snd r \<and> snd r < 2 ^ 64 - 1 \<and> mset (rl_slots rl) = mset (range_slots r) + mset (rl_slots rl') \<and> rl_inv rl'))"

lemma take_last_takes: "takes_slots take_last"
  unfolding takes_slots_def
proof (intro allI impI)
  fix k rl assume rl: "rl_inv rl" and k: "0 < k" "k \<le> length (rl_slots rl)"
  then obtain ys r where ys: "rl = ys @ [r]" by (cases rl rule: rev_cases) auto
  obtain a b where r: "r = (a, b)" by (cases r)
  have inv: "a \<le> b" "b < 2 ^ 64 - 1" "\<forall>r' \<in> set ys. snd r' + 1 < a" "rl_inv ys"
    using rl by (auto simp: ys r rl_inv_snoc)
  have num: "range_num (a, b) = Suc b - a" using range_num_length [of "(a, b)"] inv by (simp add: length_range_slots)
  show "\<exists>r n rl'. take_last k rl = Some (r, n, rl') \<and> 0 < n \<and> n \<le> k \<and> n = length (range_slots r) \<and>
      fst r \<le> snd r \<and> snd r < 2 ^ 64 - 1 \<and> mset (rl_slots rl) = mset (range_slots r) + mset (rl_slots rl') \<and> rl_inv rl'"
  proof (cases "Suc b - a \<le> k")
    case True
    then show ?thesis using inv num by (auto simp: take_last_def ys r Let_def length_range_slots)
  next
    case False
    have sub: "usize_sub b k = b - k" "usize_add (b - k) 1 = Suc (b - k)"
      using False inv by (simp_all add: usize_sub_def usize_add_def)
    have "take_last k rl = Some ((Suc (b - k), b), k, ys @ [(a, b - k)])"
      using False num sub by (simp add: take_last_def ys r Let_def)
    moreover have "mset (range_slots (a, b)) = mset (range_slots (a, b - k)) + mset (range_slots (Suc (b - k), b))"
      using False k inv by (intro range_slots_split) auto
    moreover have "rl_inv (ys @ [(a, b - k)])" using False k inv by (auto simp: rl_inv_snoc)
    ultimately show ?thesis using False k inv by (auto simp: ys r length_range_slots)
  qed
qed

lemma take_first_takes: "takes_slots take_first"
  unfolding takes_slots_def
proof (intro allI impI)
  fix k rl assume rl: "rl_inv rl" and k: "0 < k" "k \<le> length (rl_slots rl)"
  then obtain r ys where ys: "rl = r # ys" by (cases rl) auto
  obtain a b where r: "r = (a, b)" by (cases r)
  have inv: "a \<le> b" "b < 2 ^ 64 - 1" "\<forall>r' \<in> set ys. b + 1 < fst r'" "rl_inv ys"
    using rl by (auto simp: ys r rl_inv_Cons)
  have num: "range_num (a, b) = Suc b - a" using range_num_length [of "(a, b)"] inv by (simp add: length_range_slots)
  show "\<exists>r n rl'. take_first k rl = Some (r, n, rl') \<and> 0 < n \<and> n \<le> k \<and> n = length (range_slots r) \<and>
      fst r \<le> snd r \<and> snd r < 2 ^ 64 - 1 \<and> mset (rl_slots rl) = mset (range_slots r) + mset (rl_slots rl') \<and> rl_inv rl'"
  proof (cases "Suc b - a \<le> k")
    case True
    then show ?thesis using inv num by (auto simp: take_first_def ys r Let_def length_range_slots)
  next
    case False
    have sub: "usize_add k a = a + k" "usize_add a k = a + k" "usize_sub (a + k) 1 = a + k - 1"
      using False inv k by (simp_all add: usize_sub_def usize_add_def)
    have "take_first k rl = Some ((a, a + k - 1), k, (a + k, b) # ys)"
      using False num sub by (simp add: take_first_def ys r Let_def)
    moreover have "mset (range_slots (a, b)) = mset (range_slots (a, a + k - 1)) + mset (range_slots (Suc (a + k - 1), b))"
      using False k inv by (intro range_slots_split) auto
    moreover have "Suc (a + k - 1) = a + k" using k by simp
    moreover have "rl_inv ((a + k, b) # ys)" using False k inv by (auto simp: rl_inv_Cons)
    ultimately show ?thesis using False k inv by (auto simp: ys r length_range_slots)
  qed
qed


subsection \<open>What the two loops have in common\<close>

text \<open>
  Destination \<open>d\<close> needs \<open>need d\<close> slots in total. While a loop runs, the destinations
  before the current one have what they need and the current one has less.
\<close>

definition filling :: "(usize \<Rightarrow> usize) \<Rightarrow> usize \<Rightarrow> remove_state \<Rightarrow> bool" where
  "filling need dnum st \<longleftrightarrow>
     curr_dst_master_index st \<le> dnum \<and> (\<forall>d < dnum. 0 < need d) \<and>
     (if curr_dst_master_index st < dnum then curr_slots_num st < need (curr_dst_master_index st) else curr_slots_num st = 0)"

definition given :: "(usize \<Rightarrow> usize) \<Rightarrow> remove_state \<Rightarrow> usize \<Rightarrow> usize" where
  "given need st d =
     (if d < curr_dst_master_index st then need d else if d = curr_dst_master_index st then curr_slots_num st else 0)"

definition total_given :: "(usize \<Rightarrow> usize) \<Rightarrow> remove_state \<Rightarrow> usize" where
  "total_given need st = sum_list (map need [0 ..< curr_dst_master_index st]) + curr_slots_num st"

definition plan_slots :: "migration_slots_rec list \<Rightarrow> nat multiset" where
  "plan_slots ms = sum_list (map (\<lambda>m. mset (rl_slots (mg_ranges m))) ms)"

definition plan_load :: "migration_slots_rec list \<Rightarrow> usize \<times> usize \<Rightarrow> nat" where
  "plan_load ms p = sum_list (map (\<lambda>m. if dst_position (mg_meta m) = p then length (rl_slots (mg_ranges m)) else 0) ms)"

lemma plan_simps [simp]:
  "plan_slots [] = {#}" "plan_slots (m # ms) = mset (rl_slots (mg_ranges m)) + plan_slots ms"
  "plan_slots (ms @ ms') = plan_slots ms + plan_slots ms'"
  "plan_load [] p = 0"
  "plan_load (m # ms) p = (if dst_position (mg_meta m) = p then length (rl_slots (mg_ranges m)) else 0) + plan_load ms p"
  "plan_load (ms @ ms') p = plan_load ms p + plan_load ms' p"
  by (simp_all add: plan_slots_def plan_load_def)

lemma add_to_dst_simps [simp]:
  "curr_dst_master_index (add_to_dst r n st) = curr_dst_master_index st"
  "curr_dst_slots (add_to_dst r n st) = curr_dst_slots st @ [r]"
  "curr_slots_num (add_to_dst r n st) = usize_add (curr_slots_num st) n"
  "planned (add_to_dst r n st) = planned st"
  by (simp_all add: add_to_dst_def)

lemma hand_over_simps [simp]:
  "curr_dst_master_index (hand_over meta full st) = curr_dst_master_index st + (if full then 1 else 0)"
  "curr_dst_slots (hand_over meta full st) = []"
  "curr_slots_num (hand_over meta full st) = (if full then 0 else curr_slots_num st)"
  "planned (hand_over meta full st) = planned st @ [\<lparr>mg_ranges = rl_new (curr_dst_slots st), mg_meta = meta\<rparr>]"
  by (simp_all add: hand_over_def Let_def)

text \<open>
  One source, from which \<open>keep\<close> slots are not taken: the body of the loop, as both loops have
  it on the states they reach.
\<close>

locale drain_loop =
  fixes loop :: "range_list \<Rightarrow> remove_state \<Rightarrow> (range_list \<times> remove_state) option"
    and tk :: "usize \<Rightarrow> range_list \<Rightarrow> (range \<times> usize \<times> range_list) option"
    and keep :: usize
    and need :: "usize \<Rightarrow> usize"
    and dnum :: usize
    and meta :: "usize \<Rightarrow> migration_meta_store"
    and dpos :: "usize \<Rightarrow> usize \<times> usize"
  assumes takes: "takes_slots tk"
    and need_bound: "need d < 2 ^ 64"
    and meta_dst: "dst_position (meta d) = dpos d"
    and dpos_inj: "dpos d = dpos d' \<Longrightarrow> d = d'"
    and loop_exit: "filling need dnum st \<Longrightarrow> rl_inv rl \<Longrightarrow>
      curr_dst_master_index st = dnum \<or> length (rl_slots rl) \<le> keep \<Longrightarrow> loop rl st = Some (rl, st)"
    and loop_body: "filling need dnum st \<Longrightarrow> rl_inv rl \<Longrightarrow> d = curr_dst_master_index st \<Longrightarrow> d < dnum \<Longrightarrow>
      keep < length (rl_slots rl) \<Longrightarrow>
      tk (min (need d - curr_slots_num st) (length (rl_slots rl) - keep)) rl = Some (r, n, rl') \<Longrightarrow>
      st1 = add_to_dst r n st \<Longrightarrow> curr_slots_num st + n \<le> need d \<Longrightarrow>
      full = (need d \<le> curr_slots_num st1) \<Longrightarrow> src_done = (length (rl_slots rl') \<le> keep) \<Longrightarrow> rl_inv rl' \<Longrightarrow>
      loop rl st =
        (if full \<or> src_done
         then (let st2 = hand_over (meta d) full st1 in if src_done then Some (rl', st2) else loop rl' st2)
         else loop rl' st1)"
begin

text \<open>What a stretch of the loop does: \<open>new\<close> is planned, and nothing is lost.\<close>

definition pending :: "remove_state \<Rightarrow> usize \<Rightarrow> nat" where
  "pending st d = (if d = curr_dst_master_index st then length (rl_slots (curr_dst_slots st)) else 0)"

definition moves :: "range_list \<Rightarrow> remove_state \<Rightarrow> range_list \<Rightarrow> remove_state \<Rightarrow> migration_slots_rec list \<Rightarrow> bool" where
  "moves rl st rl' st' new \<longleftrightarrow>
     planned st' = planned st @ new \<and>
     mset (rl_slots rl) + mset (rl_slots (curr_dst_slots st)) = mset (rl_slots rl') + mset (rl_slots (curr_dst_slots st')) + plan_slots new \<and>
     (\<forall>m \<in> set new. rl_inv (mg_ranges m) \<and> mg_ranges m \<noteq> [] \<and> (\<exists>d < dnum. mg_meta m = meta d)) \<and>
     (\<forall>d. given need st' d + pending st d = given need st d + plan_load new (dpos d) + pending st' d) \<and>
     total_given need st' + length (rl_slots rl') = total_given need st + length (rl_slots rl)"

lemma moves_refl: "moves rl st rl st []"
  by (simp add: moves_def)

lemma moves_trans:
  assumes 1: "moves rl st rl1 st1 new1" and 2: "moves rl1 st1 rl2 st2 new2"
  shows "moves rl st rl2 st2 (new1 @ new2)"
  unfolding moves_def
proof (intro conjI allI)
  show "mset (rl_slots rl) + mset (rl_slots (curr_dst_slots st)) =
      mset (rl_slots rl2) + mset (rl_slots (curr_dst_slots st2)) + plan_slots (new1 @ new2)"
    using 1 2 unfolding moves_def plan_simps by (metis add.assoc add.commute)
  show "given need st2 d + pending st d = given need st d + plan_load (new1 @ new2) (dpos d) + pending st2 d" for d
  proof -
    have "given need st1 d + pending st d = given need st d + plan_load new1 (dpos d) + pending st1 d"
      "given need st2 d + pending st1 d = given need st1 d + plan_load new2 (dpos d) + pending st2 d"
      using 1 2 unfolding moves_def by blast+
    then show ?thesis by simp
  qed
qed (use 1 2 in \<open>auto simp: moves_def\<close>)

definition drained :: "range_list \<Rightarrow> remove_state \<Rightarrow> range_list \<Rightarrow> remove_state \<Rightarrow> migration_slots_rec list \<Rightarrow> bool" where
  "drained rl st rl' st' new \<longleftrightarrow>
     moves rl st rl' st' new \<and> filling need dnum st' \<and> curr_dst_slots st' = [] \<and> rl_inv rl' \<and>
     keep \<le> length (rl_slots rl') \<and> (length (rl_slots rl') = keep \<or> curr_dst_master_index st' = dnum)"

lemma drained_trans: "moves rl st rl1 st1 new1 \<Longrightarrow> drained rl1 st1 rl2 st2 new2 \<Longrightarrow> drained rl st rl2 st2 (new1 @ new2)"
  using moves_trans by (auto simp: drained_def)

lemma drain:
  assumes "filling need dnum st" "rl_inv rl" "rl_wf (curr_dst_slots st)" "rl_bounded (curr_dst_slots st)"
    "uniq (mset (rl_slots rl) + mset (rl_slots (curr_dst_slots st)))" "keep \<le> length (rl_slots rl)"
    "curr_dst_slots st \<noteq> [] \<longrightarrow> curr_dst_master_index st < dnum \<and> keep < length (rl_slots rl)"
  shows "\<exists>rl' st' new. loop rl st = Some (rl', st') \<and> drained rl st rl' st' new"
  using assms
proof (induction "length (rl_slots rl)" arbitrary: rl st rule: less_induct)
  case less
  let ?d = "curr_dst_master_index st" and ?cs = "curr_dst_slots st"
  show ?case
  proof (cases "?d = dnum \<or> length (rl_slots rl) \<le> keep")
    case True
    then have "loop rl st = Some (rl, st)" "?cs = []" using less.prems by (auto intro: loop_exit)
    moreover have "drained rl st rl st []"
      unfolding drained_def using True less.prems(1,2,6) calculation(2) moves_refl le_antisym by blast
    ultimately show ?thesis by blast
  next
    case False
    then have d: "?d < dnum" and k: "keep < length (rl_slots rl)" using less.prems(1) by (auto simp: filling_def)
    have nd: "curr_slots_num st < need ?d" using less.prems(1) d by (simp add: filling_def)
    from takes less.prems(2) obtain r n rl' where
      tk: "tk (min (need ?d - curr_slots_num st) (length (rl_slots rl) - keep)) rl = Some (r, n, rl')"
      and n: "0 < n" "n \<le> min (need ?d - curr_slots_num st) (length (rl_slots rl) - keep)" "n = length (range_slots r)"
      and r: "fst r \<le> snd r" "snd r < 2 ^ 64 - 1"
      and ms: "mset (rl_slots rl) = mset (range_slots r) + mset (rl_slots rl')" and rl': "rl_inv rl'"
      unfolding takes_slots_def using nd k by (metis diff_le_self min.coboundedI2 min_less_iff_conj zero_less_diff)
    have len: "length (rl_slots rl) = n + length (rl_slots rl')"
      using arg_cong [OF ms, of size] n(3) by simp
    define st1 where "st1 = add_to_dst r n st"
    have n': "n \<le> need ?d - curr_slots_num st" "n \<le> length (rl_slots rl) - keep" using n(2) by simp_all
    then have le: "curr_slots_num st + n \<le> need ?d" using nd by linarith
    then have num1: "curr_slots_num st1 = curr_slots_num st + n"
      using need_bound [of ?d] unfolding st1_def add_to_dst_simps by (intro usize_add_in_range) simp
    define full where "full = (need ?d \<le> curr_slots_num st1)"
    define dn where "dn = (length (rl_slots rl') \<le> keep)"
    have body: "loop rl st = (if full \<or> dn
         then (let st2 = hand_over (meta ?d) full st1 in if dn then Some (rl', st2) else loop rl' st2) else loop rl' st1)"
      by (rule loop_body [OF less.prems(1,2) refl d k tk st1_def le full_def dn_def rl'])
    have cs1: "curr_dst_slots st1 = ?cs @ [r]" by (simp add: st1_def)
    have u1: "uniq (mset (rl_slots rl') + mset (rl_slots (?cs @ [r])))"
      using less.prems(5) ms by (simp add: ac_simps)
    have keep': "keep \<le> length (rl_slots rl')" using n'(2) len k by linarith
    show ?thesis
    proof (cases "full \<or> dn")
      case False
      have "filling need dnum st1"
        using less.prems(1) False d by (simp add: filling_def full_def st1_def)
      moreover have "length (rl_slots rl') < length (rl_slots rl)" using n(1) len by simp
      ultimately obtain rl'' st'' new where IH: "loop rl' st1 = Some (rl'', st'')" "drained rl' st1 rl'' st'' new"
        using less.hyps [of rl' st1] rl' less.prems(3,4) r u1 keep' d False cs1
        by (fastforce simp: dn_def st1_def)
      have "moves rl st rl' st1 []"
        using n(3) len num1 ms by (auto simp: moves_def cs1 given_def pending_def total_given_def st1_def ac_simps)
      from drained_trans [OF this IH(2)] IH(1) body False show ?thesis by auto
    next
      case True
      define st2 where "st2 = hand_over (meta ?d) full st1"
      let ?m = "\<lparr>mg_ranges = rl_new (?cs @ [r]), mg_meta = meta ?d\<rparr>"
      have f: "full \<Longrightarrow> curr_slots_num st + n = need ?d" using le num1 by (simp add: full_def)
      have fill: "filling need dnum st2"
        using less.prems(1) d by (auto simp: filling_def st2_def full_def st1_def not_le)
      have wf: "rl_wf (?cs @ [r])" "rl_bounded (?cs @ [r])" using less.prems(3,4) r by auto
      have dist: "distinct (rl_slots (?cs @ [r]))" using u1 uniq_addD2 uniq_mset by blast
      have m: "rl_inv (mg_ranges ?m)" "mset (rl_slots (mg_ranges ?m)) = mset (rl_slots (?cs @ [r]))"
        using wf dist by (simp_all add: rl_new_def rl_inv_compact compact_mset)
      then have size: "length (rl_slots (mg_ranges ?m)) = length (rl_slots ?cs) + n"
        using n(3) by (metis length_append mset_eq_length rl_slots_simps(1,2,3) append_Nil2)
      with n(1) have ne: "mg_ranges ?m \<noteq> []" by auto
      have mv: "moves rl st rl' st2 [?m]"
        unfolding moves_def
      proof (intro conjI allI)
        show "mset (rl_slots rl) + mset (rl_slots ?cs) = mset (rl_slots rl') + mset (rl_slots (curr_dst_slots st2)) + plan_slots [?m]"
          using m(2) ms by (simp add: ac_simps st2_def)
        show "given need st2 d + pending st d = given need st d + plan_load [?m] (dpos d) + pending st2 d" for d
          using size f num1 dpos_inj [of ?d d] by (auto simp: given_def pending_def st2_def meta_dst st1_def)
        show "total_given need st2 + length (rl_slots rl') = total_given need st + length (rl_slots rl)"
          using f num1 len by (auto simp: total_given_def st2_def st1_def)
      qed (use m(1) ne d cs1 in \<open>auto simp: st2_def st1_def\<close>)
      have cs2: "curr_dst_slots st2 = []" by (simp add: st2_def)
      show ?thesis
      proof (cases dn)
        case True
        then have "loop rl st = Some (rl', st2)" using body by (simp add: st2_def)
        moreover have "drained rl st rl' st2 [?m]"
          unfolding drained_def using mv fill cs2 rl' keep' True by (auto simp: dn_def)
        ultimately show ?thesis by blast
      next
        case False
        have "length (rl_slots rl') < length (rl_slots rl)" using n(1) len by simp
        then obtain rl'' st'' new where IH: "loop rl' st2 = Some (rl'', st'')" "drained rl' st2 rl'' st'' new"
          using less.hyps [of rl' st2] rl' fill keep' uniq_addD1 [OF u1] cs2 by auto
        from drained_trans [OF mv IH(2)] have "drained rl st rl'' st'' (?m # new)" by simp
        moreover have "loop rl st = Some (rl'', st'')" using body True False IH(1) by (simp add: st2_def)
        ultimately show ?thesis by blast
      qed
    qed
  qed
qed

lemma drain_exact:
  assumes "filling need dnum st" "curr_dst_slots st = []" "rl_inv rl" "keep \<le> length (rl_slots rl)"
    "total_given need st + (length (rl_slots rl) - keep) \<le> sum_list (map need [0 ..< dnum])"
  shows "\<exists>rl' st' new. loop rl st = Some (rl', st') \<and> drained rl st rl' st' new \<and>
    length (rl_slots rl') = keep \<and> total_given need st' = total_given need st + (length (rl_slots rl) - keep)"
proof -
  have "uniq (mset (rl_slots rl) + mset (rl_slots (curr_dst_slots st)))"
    using assms(2,3) rl_inv_distinct by (simp add: uniq_mset)
  with assms obtain rl' st' new where l: "loop rl st = Some (rl', st')" and d: "drained rl st rl' st' new"
    using drain [of st rl] by fastforce
  from d have c: "total_given need st' + length (rl_slots rl') = total_given need st + length (rl_slots rl)"
    and e: "keep \<le> length (rl_slots rl')" "length (rl_slots rl') = keep \<or> curr_dst_master_index st' = dnum"
    and f: "filling need dnum st'"
    by (simp_all add: drained_def moves_def)
  have "length (rl_slots rl') = keep"
  proof (cases "curr_dst_master_index st' = dnum")
    case True
    with f have "total_given need st' = sum_list (map need [0 ..< dnum])" by (simp add: filling_def total_given_def)
    with c assms(4,5) e(1) show ?thesis by linarith
  qed (use e in simp)
  moreover from this c assms(4) have "total_given need st' = total_given need st + (length (rl_slots rl) - keep)" by linarith
  ultimately show ?thesis using l d by blast
qed

lemma drain_source:
  assumes "filling need dnum st" "curr_dst_slots st = []" "rl_inv rl" "keep \<le> length (rl_slots rl)"
    "total_given need st + (length (rl_slots rl) - keep) \<le> sum_list (map need [0 ..< dnum])"
  obtains rl' st' new where "loop rl st = Some (rl', st')" "filling need dnum st'" "curr_dst_slots st' = []"
    "planned st' = planned st @ new" "rl_inv rl'" "length (rl_slots rl') = keep"
    "mset (rl_slots rl) = mset (rl_slots rl') + plan_slots new"
    "\<forall>m \<in> set new. rl_inv (mg_ranges m) \<and> mg_ranges m \<noteq> [] \<and> (\<exists>d < dnum. mg_meta m = meta d)"
    "\<forall>d. given need st' d = given need st d + plan_load new (dpos d)"
    "total_given need st' = total_given need st + (length (rl_slots rl) - keep)"
proof -
  from drain_exact [OF assms] obtain rl' st' new where
    r: "loop rl st = Some (rl', st')" "drained rl st rl' st' new" "length (rl_slots rl') = keep"
      "total_given need st' = total_given need st + (length (rl_slots rl) - keep)" by blast
  then have m: "moves rl st rl' st' new" "curr_dst_slots st' = []" "filling need dnum st'" "rl_inv rl'" by (simp_all add: drained_def)
  then have "\<forall>d. given need st' d = given need st d + plan_load new (dpos d)"
    using assms(2) by (auto simp: moves_def pending_def split: if_splits)
  with r m assms(2) that show thesis by (auto simp: moves_def)
qed

end

lemma final_num_bound: "final_num average remainder d < 2 ^ 64"
  unfolding final_num_def by (rule usize_add_bound)

lemma even_position_inj: "(n + d div 2, d mod 2) = (n + d' div 2, d' mod 2) \<Longrightarrow> d = d'" for d d' n :: nat
  by (metis Pair_inject add_left_cancel div_mult_mod_eq)

definition out_meta :: "epoch \<Rightarrow> usize \<Rightarrow> usize \<Rightarrow> usize \<Rightarrow> usize \<Rightarrow> migration_meta_store" where
  "out_meta epoch n i j d =
     \<lparr>ms_epoch = epoch, src_chunk_index = i, src_chunk_part = j, dst_chunk_index = n + d div 2, dst_chunk_part = d mod 2\<rparr>"

interpretation out: drain_loop "remove_loop epoch average remainder n dnum i j" take_last
  "final_num average remainder (i * 2 + j)" "\<lambda>d. final_num average remainder (n * 2 + d)" dnum
  "out_meta epoch n i j" "\<lambda>d. (n + d div 2, d mod 2)" for epoch average remainder n dnum i j
proof unfold_locales
  show "takes_slots take_last" by (rule take_last_takes)
  show "final_num average remainder (n * 2 + d) < 2 ^ 64" for d by (rule final_num_bound)
  show "dst_position (out_meta epoch n i j d) = (n + d div 2, d mod 2)" for d
    by (simp add: out_meta_def dst_position_def)
  show "d = d'" if "(n + d div 2, d mod 2) = (n + d' div 2, d' mod 2)" for d d' :: nat
    using that by (rule even_position_inj)
  show "remove_loop epoch average remainder n dnum i j rl st = Some (rl, st)"
    if "rl_inv rl" "curr_dst_master_index st = dnum \<or> length (rl_slots rl) \<le> final_num average remainder (i * 2 + j)" for rl st
    using that by (subst remove_loop.simps) (auto simp: rl_inv_slots_num Let_def)
next
  fix st rl d r m rl' st1 full src_done
  let ?keep = "final_num average remainder (i * 2 + j)" and ?need = "\<lambda>d. final_num average remainder (n * 2 + d)"
  assume h: "filling ?need dnum st" "rl_inv rl" "d = curr_dst_master_index st" "d < dnum" "?keep < length (rl_slots rl)"
    "take_last (min (?need d - curr_slots_num st) (length (rl_slots rl) - ?keep)) rl = Some (r, m, rl')"
    "st1 = add_to_dst r m st" "full = (?need d \<le> curr_slots_num st1)"
    "src_done = (length (rl_slots rl') \<le> ?keep)" "rl_inv rl'"
  have "usize_sub (?need d) (curr_slots_num st) = ?need d - curr_slots_num st"
    "usize_sub (length (rl_slots rl)) ?keep = length (rl_slots rl) - ?keep"
    using h(1,3,4,5) by (auto simp: filling_def intro!: usize_sub_in_range)
  then show "remove_loop epoch average remainder n dnum i j rl st =
      (if full \<or> src_done
       then (let st2 = hand_over (out_meta epoch n i j d) full st1
             in if src_done then Some (rl', st2) else remove_loop epoch average remainder n dnum i j rl' st2)
       else remove_loop epoch average remainder n dnum i j rl' st1)"
    using h by (subst remove_loop.simps) (simp add: rl_inv_slots_num out_meta_def Let_def)
qed

definition existing_num :: "usize list \<Rightarrow> usize \<Rightarrow> usize \<Rightarrow> usize" where
  "existing_num ex final d = (case list_get ex d of Some e \<Rightarrow> final - e | None \<Rightarrow> 0)"

interpretation down: drain_loop "remove_loop_to_scale_down epoch average remainder ex dnum i j" take_first
  0 "\<lambda>d. existing_num ex (final_num average remainder d) d" dnum
  "out_meta epoch 0 i j" "\<lambda>d. (d div 2, d mod 2)" for epoch average remainder ex dnum i j
proof unfold_locales
  show "takes_slots take_first" by (rule take_first_takes)
  have fb: "final_num average remainder d < 2 ^ 64" for d by (rule final_num_bound)
  show "existing_num ex (final_num average remainder d) d < 2 ^ 64" for d
    using fb [of d] by (auto simp: existing_num_def split: option.split)
  show "dst_position (out_meta epoch 0 i j d) = (d div 2, d mod 2)" for d
    by (simp add: out_meta_def dst_position_def)
  show "d = d'" if "(d div 2, d mod 2) = (d' div 2, d' mod 2)" for d d' :: nat
    using that even_position_inj [of 0 d d'] by simp
  show "remove_loop_to_scale_down epoch average remainder ex dnum i j rl st = Some (rl, st)"
    if "filling (\<lambda>d. existing_num ex (final_num average remainder d) d) dnum st" "rl_inv rl"
      "curr_dst_master_index st = dnum \<or> length (rl_slots rl) \<le> 0" for rl st
  proof (cases "curr_dst_master_index st = dnum")
    case False
    with that(1) obtain e where "list_get ex (curr_dst_master_index st) = Some e"
      by (fastforce simp: filling_def existing_num_def split: option.splits)
    with False that(2,3) show ?thesis
      by (subst remove_loop_to_scale_down.simps) (simp add: rl_inv_slots_num Let_def)
  qed (subst remove_loop_to_scale_down.simps, simp)
next
  fix st rl d r m rl' st1 full src_done
  let ?need = "\<lambda>d. existing_num ex (final_num average remainder d) d" and ?f = "final_num average remainder"
  assume h: "filling ?need dnum st" "rl_inv rl" "d = curr_dst_master_index st" "d < dnum" "0 < length (rl_slots rl)"
    "take_first (min (?need d - curr_slots_num st) (length (rl_slots rl) - 0)) rl = Some (r, m, rl')"
    "st1 = add_to_dst r m st" "curr_slots_num st + m \<le> ?need d" "full = (?need d \<le> curr_slots_num st1)"
    "src_done = (length (rl_slots rl') \<le> 0)" "rl_inv rl'"
  have fb: "?f d < 2 ^ 64" by (rule final_num_bound)
  have lt: "curr_slots_num st < ?need d" using h(1,3,4) by (simp add: filling_def)
  then obtain e where e: "list_get ex d = Some e" "?need d = ?f d - e" "e < ?f d"
    by (auto simp: existing_num_def split: option.splits)
  have sub: "usize_sub (usize_sub (?f d) (curr_slots_num st)) e = ?need d - curr_slots_num st"
    using lt e by (simp add: usize_simps)
  have num1: "curr_slots_num st1 = curr_slots_num st + m"
    using h(7,8) e fb by (simp add: usize_simps)
  have "usize_add (curr_slots_num st1) e = curr_slots_num st1 + e"
    using h(8) e fb num1 by (intro usize_add_in_range) linarith
  then have "?f d \<le> usize_add (curr_slots_num st1) e \<longleftrightarrow> full" using h(9) e by auto
  then show "remove_loop_to_scale_down epoch average remainder ex dnum i j rl st =
      (if full \<or> src_done
       then (let st2 = hand_over (out_meta epoch 0 i j d) full st1
             in if src_done then Some (rl', st2) else remove_loop_to_scale_down epoch average remainder ex dnum i j rl' st2)
       else remove_loop_to_scale_down epoch average remainder ex dnum i j rl' st1)"
    using h e(1) sub by (subst remove_loop_to_scale_down.simps) (simp add: rl_inv_slots_num out_meta_def Let_def)
qed


subsection \<open>All sources\<close>

text \<open>
  One source after the other. \<open>left i j s\<close> is what stays of part \<open>j\<close> of chunk
  \<open>i\<close>, and \<open>avail\<close> what the parts can give in total.
\<close>

definition left_num :: "(usize \<Rightarrow> usize \<Rightarrow> usize) \<Rightarrow> usize \<Rightarrow> usize \<Rightarrow> slot_range option \<Rightarrow> nat" where
  "left_num keep i j s = (if s = None then 0 else keep i j)"

definition part_avail :: "(usize \<Rightarrow> usize \<Rightarrow> usize) \<Rightarrow> usize \<Rightarrow> usize \<Rightarrow> slot_range option \<Rightarrow> nat" where
  "part_avail keep i j s = length (opt_slots s) - left_num keep i j s"

fun avail :: "(usize \<Rightarrow> usize \<Rightarrow> usize) \<Rightarrow> usize \<Rightarrow> chunk_store list \<Rightarrow> nat" where
  "avail keep i [] = 0"
| "avail keep i (chunk # chunks) =
     part_avail keep i 0 (fst (stable_slots chunk)) + part_avail keep i 1 (snd (stable_slots chunk)) + avail keep (Suc i) chunks"

definition stable_total :: "chunk_store list \<Rightarrow> nat multiset" where
  "stable_total chunks = sum_list (map (\<lambda>chunk. stable_mset (stable_slots chunk)) chunks)"

lemma stable_total_simps [simp]:
  "stable_total [] = {#}" "stable_total (chunk # chunks) = stable_mset (stable_slots chunk) + stable_total chunks"
  "stable_total (xs @ ys) = stable_total xs + stable_total ys"
  by (simp_all add: stable_total_def)

locale drain_parts =
  fixes body :: "usize \<Rightarrow> usize \<Rightarrow> slot_range option \<Rightarrow> remove_state \<Rightarrow> (slot_range option \<times> remove_state) option"
    and keep :: "usize \<Rightarrow> usize \<Rightarrow> usize"
    and need :: "usize \<Rightarrow> usize"
    and dnum :: usize
    and meta :: "usize \<Rightarrow> usize \<Rightarrow> usize \<Rightarrow> migration_meta_store"
    and dpos :: "usize \<Rightarrow> usize \<times> usize"
    and emptied :: bool
  assumes body_None: "body i j None st = Some (None, st)"
    and body_Some: "filling need dnum st \<Longrightarrow> curr_dst_slots st = [] \<Longrightarrow> stable_ok (Some sr) \<Longrightarrow>
      keep i j \<le> length (opt_slots (Some sr)) \<Longrightarrow>
      total_given need st + (length (opt_slots (Some sr)) - keep i j) \<le> sum_list (map need [0 ..< dnum]) \<Longrightarrow>
      \<exists>s' st' new. body i j (Some sr) st = Some (s', st') \<and>
        filling need dnum st' \<and> curr_dst_slots st' = [] \<and> planned st' = planned st @ new \<and>
        stable_ok s' \<and> (s' = None \<longleftrightarrow> emptied) \<and> length (opt_slots s') = keep i j \<and>
        mset (opt_slots (Some sr)) = mset (opt_slots s') + plan_slots new \<and>
        (\<forall>m \<in> set new. rl_inv (mg_ranges m) \<and> mg_ranges m \<noteq> [] \<and> (\<exists>d < dnum. mg_meta m = meta i j d)) \<and>
        (\<forall>d. given need st' d = given need st d + plan_load new (dpos d)) \<and>
        total_given need st' = total_given need st + (length (opt_slots (Some sr)) - keep i j)"
begin

definition flow :: "remove_state \<Rightarrow> remove_state \<Rightarrow> migration_slots_rec list \<Rightarrow> nat \<Rightarrow> bool" where
  "flow st st' new amount \<longleftrightarrow>
     filling need dnum st' \<and> curr_dst_slots st' = [] \<and> planned st' = planned st @ new \<and>
     (\<forall>d. given need st' d = given need st d + plan_load new (dpos d)) \<and>
     total_given need st' = total_given need st + amount"

lemma flow_trans: "flow st st1 new1 a \<Longrightarrow> flow st1 st2 new2 b \<Longrightarrow> flow st st2 (new1 @ new2) (a + b)"
  by (simp add: flow_def)

definition part_done :: "usize \<Rightarrow> usize \<Rightarrow> slot_range option \<Rightarrow> slot_range option \<Rightarrow> bool" where
  "part_done i j s s' \<longleftrightarrow> stable_ok s' \<and> (s' = None \<longleftrightarrow> s = None \<or> emptied) \<and> length (opt_slots s') = left_num keep i j s"

definition planned_from :: "usize \<Rightarrow> usize \<Rightarrow> migration_slots_rec \<Rightarrow> bool" where
  "planned_from i j m \<longleftrightarrow> rl_inv (mg_ranges m) \<and> mg_ranges m \<noteq> [] \<and> (\<exists>d < dnum. mg_meta m = meta i j d)"

definition part_ready :: "usize \<Rightarrow> usize \<Rightarrow> slot_range option \<Rightarrow> bool" where
  "part_ready i j s \<longleftrightarrow> stable_ok s \<and> left_num keep i j s \<le> length (opt_slots s)"

lemma body_correct:
  assumes "filling need dnum st" "curr_dst_slots st = []" "part_ready i j s"
    "total_given need st + part_avail keep i j s \<le> sum_list (map need [0 ..< dnum])"
  shows "\<exists>s' st' new. body i j s st = Some (s', st') \<and> flow st st' new (part_avail keep i j s) \<and> part_done i j s s' \<and>
    mset (opt_slots s) = mset (opt_slots s') + plan_slots new \<and> (\<forall>m \<in> set new. planned_from i j m)"
proof (cases s)
  case None
  then show ?thesis using body_None assms(1,2)
    by (auto simp: flow_def part_done_def part_avail_def left_num_def intro!: exI [of _ "[]"])
next
  case (Some sr)
  have k: "keep i j \<le> length (opt_slots (Some sr))" "stable_ok (Some sr)"
    and a: "part_avail keep i j s = length (opt_slots (Some sr)) - keep i j"
    using assms(3) by (simp_all add: Some part_ready_def left_num_def part_avail_def)
  from body_Some [OF assms(1,2) k(2,1) assms(4) [unfolded a]] obtain s' st' new where
    "body i j (Some sr) st = Some (s', st')" "filling need dnum st' \<and> curr_dst_slots st' = [] \<and> planned st' = planned st @ new \<and>
        stable_ok s' \<and> (s' = None \<longleftrightarrow> emptied) \<and> length (opt_slots s') = keep i j \<and>
        mset (opt_slots (Some sr)) = mset (opt_slots s') + plan_slots new \<and>
        (\<forall>m \<in> set new. rl_inv (mg_ranges m) \<and> mg_ranges m \<noteq> [] \<and> (\<exists>d < dnum. mg_meta m = meta i j d)) \<and>
        (\<forall>d. given need st' d = given need st d + plan_load new (dpos d)) \<and>
        total_given need st' = total_given need st + (length (opt_slots (Some sr)) - keep i j)" by blast
  then show ?thesis
    unfolding a flow_def part_done_def planned_from_def Some left_num_def a [unfolded Some]
    by (intro exI [of _ s'] exI [of _ st'] exI [of _ new]) simp
qed

definition chunk_done :: "usize \<Rightarrow> chunk_store \<Rightarrow> chunk_store \<Rightarrow> bool" where
  "chunk_done i chunk chunk' \<longleftrightarrow>
     chunk' = chunk\<lparr>stable_slots := stable_slots chunk'\<rparr> \<and>
     (\<forall>j < 2. part_done i j (part j (stable_slots chunk)) (part j (stable_slots chunk')))"

lemma for_parts_correct:
  assumes "filling need dnum st" "curr_dst_slots st = []"
    "\<forall>k < length chunks. \<forall>j < 2. part_ready (i + k) j (part j (stable_slots (chunks ! k)))"
    "total_given need st + avail keep i chunks \<le> sum_list (map need [0 ..< dnum])"
  shows "\<exists>chunks' st' new. for_parts body i chunks st = Some (chunks', st') \<and> flow st st' new (avail keep i chunks) \<and>
    length chunks' = length chunks \<and> (\<forall>k < length chunks. chunk_done (i + k) (chunks ! k) (chunks' ! k)) \<and>
    stable_total chunks = stable_total chunks' + plan_slots new \<and>
    (\<forall>m \<in> set new. \<exists>k < length chunks. \<exists>j < 2. planned_from (i + k) j m)"
  using assms
proof (induction chunks arbitrary: i st)
  case Nil
  then show ?case by (auto simp: flow_def intro!: exI [of _ "[]"])
next
  case (Cons chunk chunks)
  let ?s = "stable_slots chunk"
  have r: "part_ready i 0 (fst ?s)" "part_ready i 1 (snd ?s)" using Cons.prems(3) by (force simp: all_less_2)+
  have b0: "total_given need st + part_avail keep i 0 (fst ?s) \<le> sum_list (map need [0 ..< dnum])"
    using Cons.prems(4) by simp
  from body_correct [OF Cons.prems(1,2) r(1) b0] obtain s0 st0 new0 where
    0: "body i 0 (fst ?s) st = Some (s0, st0)" "flow st st0 new0 (part_avail keep i 0 (fst ?s))" "part_done i 0 (fst ?s) s0"
      "mset (opt_slots (fst ?s)) = mset (opt_slots s0) + plan_slots new0" "\<forall>m \<in> set new0. planned_from i 0 m" by blast
  have f0: "filling need dnum st0" "curr_dst_slots st0 = []"
    "total_given need st0 + part_avail keep i 1 (snd ?s) \<le> sum_list (map need [0 ..< dnum])"
    using 0(2) Cons.prems(4) by (simp_all add: flow_def)
  from body_correct [OF f0(1,2) r(2) f0(3)] obtain s1 st1 new1 where
    1: "body i 1 (snd ?s) st0 = Some (s1, st1)" "flow st0 st1 new1 (part_avail keep i 1 (snd ?s))" "part_done i 1 (snd ?s) s1"
      "mset (opt_slots (snd ?s)) = mset (opt_slots s1) + plan_slots new1" "\<forall>m \<in> set new1. planned_from i 1 m" by blast
  have f1: "filling need dnum st1" "curr_dst_slots st1 = []"
    "total_given need st1 + avail keep (Suc i) chunks \<le> sum_list (map need [0 ..< dnum])"
    using 0(2) 1(2) Cons.prems(4) by (simp_all add: flow_def)
  have "\<forall>k < length chunks. \<forall>j < 2. part_ready (Suc i + k) j (part j (stable_slots (chunks ! k)))"
    using Cons.prems(3) by force
  from Cons.IH [OF f1(1,2) this f1(3)] obtain chunks' st' new where
    2: "for_parts body (Suc i) chunks st1 = Some (chunks', st')" "flow st1 st' new (avail keep (Suc i) chunks)"
      "length chunks' = length chunks" "\<forall>k < length chunks. chunk_done (Suc i + k) (chunks ! k) (chunks' ! k)"
      "stable_total chunks = stable_total chunks' + plan_slots new"
      "\<forall>m \<in> set new. \<exists>k < length chunks. \<exists>j < 2. planned_from (Suc i + k) j m" by blast
  let ?chunk = "chunk\<lparr>stable_slots := (s0, s1)\<rparr>" and ?new = "new0 @ new1 @ new"
  have "for_parts body i (chunk # chunks) st = Some (?chunk # chunks', st')" using 0(1) 1(1) 2(1) by simp
  moreover have "flow st st' ?new (avail keep i (chunk # chunks))"
    using flow_trans [OF 0(2) flow_trans [OF 1(2) 2(2)]] by (simp add: add.assoc)
  moreover have "chunk_done i chunk ?chunk" using 0(3) 1(3) by (simp add: chunk_done_def all_less_2)
  moreover have "stable_total (chunk # chunks) = stable_total (?chunk # chunks') + plan_slots ?new"
    using 0(4) 1(4) 2(5) by (simp add: stable_mset_def ac_simps)
  moreover have "\<exists>k < length (chunk # chunks). \<exists>j < 2. planned_from (i + k) j m" if "m \<in> set ?new" for m
  proof (cases "m \<in> set new")
    case True
    with 2(6) obtain k j where "k < length chunks" "j < 2" "planned_from (Suc i + k) j m" by blast
    then show ?thesis by (intro exI [of _ "Suc k"]) auto
  next
    case False
    with that 0(5) 1(5) have "planned_from i 0 m \<or> planned_from i 1 m" by auto
    then show ?thesis by (intro exI [of _ 0]) (auto simp: Ex_less_2)
  qed
  moreover have "length (?chunk # chunks') = length (chunk # chunks)" using 2(3) by simp
  moreover have "\<forall>k < length (chunk # chunks). chunk_done (i + k) ((chunk # chunks) ! k) ((?chunk # chunks') ! k)"
    using 2(4) calculation(3) by (simp add: All_less_Suc2)
  ultimately show ?case by blast
qed

end


interpretation out_parts: drain_parts "remove_from_part epoch average remainder n dnum"
  "\<lambda>i j. final_num average remainder (i * 2 + j)" "\<lambda>d. final_num average remainder (n * 2 + d)" dnum
  "out_meta epoch n" "\<lambda>d. (n + d div 2, d mod 2)" False for epoch average remainder n dnum
proof unfold_locales
  show "remove_from_part epoch average remainder n dnum i j None st = Some (None, st)" for i j st
    by (simp add: remove_from_part_def)
next
  fix st sr i j
  let ?need = "\<lambda>d. final_num average remainder (n * 2 + d)" and ?keep = "final_num average remainder (i * 2 + j)"
  assume h: "filling ?need dnum st" "curr_dst_slots st = []" "stable_ok (Some sr)" "?keep \<le> length (opt_slots (Some sr))"
    "total_given ?need st + (length (opt_slots (Some sr)) - ?keep) \<le> sum_list (map ?need [0 ..< dnum])"
  then obtain rl' st' new where
    r: "remove_loop epoch average remainder n dnum i j (sr_range_list sr) st = Some (rl', st')" "filling ?need dnum st'"
      "curr_dst_slots st' = []" "planned st' = planned st @ new" "rl_inv rl'" "length (rl_slots rl') = ?keep"
      "mset (rl_slots (sr_range_list sr)) = mset (rl_slots rl') + plan_slots new"
      "\<forall>m \<in> set new. rl_inv (mg_ranges m) \<and> mg_ranges m \<noteq> [] \<and> (\<exists>d < dnum. mg_meta m = out_meta epoch n i j d)"
      "\<forall>d. given ?need st' d = given ?need st d + plan_load new (n + d div 2, d mod 2)"
      "total_given ?need st' = total_given ?need st + (length (rl_slots (sr_range_list sr)) - ?keep)"
    using out.drain_source [of average remainder n dnum st "sr_range_list sr" i j epoch] by (auto simp: atomize_elim)
  then show "\<exists>s' st' new. remove_from_part epoch average remainder n dnum i j (Some sr) st = Some (s', st') \<and>
      filling ?need dnum st' \<and> curr_dst_slots st' = [] \<and> planned st' = planned st @ new \<and>
      stable_ok s' \<and> (s' = None \<longleftrightarrow> False) \<and> length (opt_slots s') = ?keep \<and>
      mset (opt_slots (Some sr)) = mset (opt_slots s') + plan_slots new \<and>
      (\<forall>m \<in> set new. rl_inv (mg_ranges m) \<and> mg_ranges m \<noteq> [] \<and> (\<exists>d < dnum. mg_meta m = out_meta epoch n i j d)) \<and>
      (\<forall>d. given ?need st' d = given ?need st d + plan_load new (n + d div 2, d mod 2)) \<and>
      total_given ?need st' = total_given ?need st + (length (opt_slots (Some sr)) - ?keep)"
    using h(3) by (intro exI [of _ "Some (sr\<lparr>sr_range_list := rl'\<rparr>)"] exI [of _ st'] exI [of _ new])
      (simp add: remove_from_part_def)
qed

interpretation down_parts: drain_parts "remove_from_part_to_scale_down epoch average remainder ex dnum"
  "\<lambda>i j. 0" "\<lambda>d. existing_num ex (final_num average remainder d) d" dnum
  "out_meta epoch 0" "\<lambda>d. (d div 2, d mod 2)" True for epoch average remainder ex dnum
proof unfold_locales
  show "remove_from_part_to_scale_down epoch average remainder ex dnum i j None st = Some (None, st)" for i j st
    by (simp add: remove_from_part_to_scale_down_def)
next
  fix st sr i j
  let ?need = "\<lambda>d. existing_num ex (final_num average remainder d) d"
  assume h: "filling ?need dnum st" "curr_dst_slots st = []" "stable_ok (Some sr)"
    "total_given ?need st + (length (opt_slots (Some sr)) - 0) \<le> sum_list (map ?need [0 ..< dnum])"
  then obtain rl' st' new where
    r: "remove_loop_to_scale_down epoch average remainder ex dnum i j (sr_range_list sr) st = Some (rl', st')"
      "filling ?need dnum st'" "curr_dst_slots st' = []" "planned st' = planned st @ new" "rl_inv rl'" "length (rl_slots rl') = 0"
      "mset (rl_slots (sr_range_list sr)) = mset (rl_slots rl') + plan_slots new"
      "\<forall>m \<in> set new. rl_inv (mg_ranges m) \<and> mg_ranges m \<noteq> [] \<and> (\<exists>d < dnum. mg_meta m = out_meta epoch 0 i j d)"
      "\<forall>d. given ?need st' d = given ?need st d + plan_load new (d div 2, d mod 2)"
      "total_given ?need st' = total_given ?need st + (length (rl_slots (sr_range_list sr)) - 0)"
    using down.drain_source [of ex average remainder dnum st "sr_range_list sr" epoch i j] by (auto simp: atomize_elim)
  then show "\<exists>s' st' new. remove_from_part_to_scale_down epoch average remainder ex dnum i j (Some sr) st = Some (s', st') \<and>
      filling ?need dnum st' \<and> curr_dst_slots st' = [] \<and> planned st' = planned st @ new \<and>
      stable_ok s' \<and> (s' = None \<longleftrightarrow> True) \<and> length (opt_slots s') = 0 \<and>
      mset (opt_slots (Some sr)) = mset (opt_slots s') + plan_slots new \<and>
      (\<forall>m \<in> set new. rl_inv (mg_ranges m) \<and> mg_ranges m \<noteq> [] \<and> (\<exists>d < dnum. mg_meta m = out_meta epoch 0 i j d)) \<and>
      (\<forall>d. given ?need st' d = given ?need st d + plan_load new (d div 2, d mod 2)) \<and>
      total_given ?need st' = total_given ?need st + (length (opt_slots (Some sr)) - 0)"
    by (intro exI [of _ None] exI [of _ st'] exI [of _ new]) (simp add: remove_from_part_to_scale_down_def)
qed

end
