(* ===== verification/UM_Balance.thy ===== *)
theory UM_Balance
  imports UM_Migrate
begin

section \<open>Balance and ownership under migration\<close>

text \<open>
  What the operations of \<open>MetaStoreMigrate\<close> do to a cluster. The load of a part of a chunk
  counts the slots it holds and the slots it will hold once the running migrations are committed.
  A cluster is balanced on its first \<open>n\<close> chunks when every part of them has its share of the
  slots as its load and the other chunks have none. Starting a scale-out or a scale-down keeps the
  ownership of every slot and moves the balance to the new number of chunks; a commit keeps both.
\<close>


subsection \<open>Load\<close>

definition import_load :: "migration_slot_range_store list \<Rightarrow> nat" where
  "import_load es = sum_list (map (\<lambda>e. if mr_is_migrating e then 0 else length (rl_slots (mr_range_list e))) es)"

definition part_load :: "chunk_store list \<Rightarrow> usize \<Rightarrow> usize \<Rightarrow> nat" where
  "part_load chunks k j =
     length (opt_slots (part j (stable_slots (chunks ! k)))) + import_load (part j (migrating_slots (chunks ! k)))"

definition balanced :: "usize \<Rightarrow> chunk_store list \<Rightarrow> bool" where
  "balanced n chunks \<longleftrightarrow>
     0 < n \<and> n \<le> length chunks \<and>
     (\<forall>k < length chunks. \<forall>j < 2. part_load chunks k j = (if k < n then share (2 * n) (2 * k + j) else 0))"

definition nonempty_stable :: "chunk_store list \<Rightarrow> bool" where
  "nonempty_stable chunks \<longleftrightarrow>
     (\<forall>k < length chunks. \<forall>j < 2. part j (stable_slots (chunks ! k)) = None \<or> opt_slots (part j (stable_slots (chunks ! k))) \<noteq> [])"

definition idle :: "chunk_store list \<Rightarrow> bool" where
  "idle chunks \<longleftrightarrow> (\<forall>k < length chunks. migrating_slots (chunks ! k) = ([], []))"

lemma import_load_simps [simp]:
  "import_load [] = 0"
  "import_load (e # es) = (if mr_is_migrating e then 0 else length (rl_slots (mr_range_list e))) + import_load es"
  "import_load (xs @ ys) = import_load xs + import_load ys"
  by (simp_all add: import_load_def)

lemma part_Nil [simp]: "part j ([], []) = []"
  by (simp add: part_def)

lemma idle_load: "idle chunks \<Longrightarrow> k < length chunks \<Longrightarrow> part_load chunks k j = length (opt_slots (part j (stable_slots (chunks ! k))))"
  by (simp add: part_load_def idle_def)

lemma idle_set: "idle chunks \<longleftrightarrow> (\<forall>chunk \<in> set chunks. migrating_slots chunk = ([], []))"
  by (simp add: idle_def all_set_conv_all_nth)

lemma idle_keys: "idle chunks \<Longrightarrow> chunks_keys b chunks = {#}"
  unfolding chunks_keys_def idle_set by (induction chunks) (auto simp: chunk_entries_eq)

lemma idle_owned: "idle chunks \<Longrightarrow> owned chunks = stable_total chunks"
  unfolding idle_set by (induction chunks) (auto simp: owned_def chunk_owned_def chunk_entries_eq)

lemma check_running_tasks_idle: "check_running_tasks c \<longleftrightarrow> \<not> idle (cs_chunks c)"
  unfolding check_running_tasks_def idle_set list_ex_iff arr2_list_def by (auto simp: prod_eq_iff)

lemma is_migrating_idle: "cs_is_migrating c \<longleftrightarrow> \<not> idle (cs_chunks c)"
  unfolding check_running_tasks_idle [symmetric] check_running_tasks_def cs_is_migrating_def chunk_is_migrating_def ..


subsection \<open>Recording a plan\<close>

lemma push_load:
  assumes "push_migrating i j e chunks = Some chunks'" "k < length chunks" "l < 2"
  shows "part_load chunks' k l = part_load chunks k l +
    (if (k, l) = (i, j) \<and> \<not> mr_is_migrating e then length (rl_slots (mr_range_list e)) else 0)"
  using assms by (auto simp: push_migrating_Some part_load_def nth_list_update part_arr2_modify)

lemma push_stable: "push_migrating i j e chunks = Some chunks' \<Longrightarrow> map stable_slots chunks' = map stable_slots chunks"
  by (auto simp: push_migrating_Some intro!: nth_equalityI simp: nth_list_update)

lemma push_members: "push_migrating i j e chunks = Some chunks' \<Longrightarrow> members_of chunks' = members_of chunks"
proof -
  assume "push_migrating i j e chunks = Some chunks'"
  then have "map chunk_members chunks' = map chunk_members chunks"
    by (auto simp: push_migrating_Some chunk_members_def intro!: nth_equalityI simp: nth_list_update)
  then show ?thesis by (simp add: members_of_def)
qed

definition plan_ok :: "usize \<Rightarrow> migration_slots_rec list \<Rightarrow> bool" where
  "plan_ok n ms \<longleftrightarrow> (\<forall>m \<in> set ms. rl_inv (mg_ranges m) \<and> mg_ranges m \<noteq> [] \<and> meta_ok n (mg_meta m))"

definition plan_keys :: "migration_slots_rec list \<Rightarrow> migration_key multiset" where
  "plan_keys ms = mset (map (\<lambda>m. (mg_ranges m, mg_meta m)) ms)"

lemma assign_entries_correct:
  assumes "chunks_ok chunks" "plan_ok (length chunks) ms"
  shows "\<exists>chunks'. assign_entries ms chunks = Some chunks' \<and> chunks_ok chunks' \<and> length chunks' = length chunks \<and>
    owned chunks' = owned chunks + plan_slots ms \<and> (\<forall>b. chunks_keys b chunks' = chunks_keys b chunks + plan_keys ms) \<and>
    map stable_slots chunks' = map stable_slots chunks \<and> members_of chunks' = members_of chunks \<and>
    (\<forall>k < length chunks. \<forall>j < 2. part_load chunks' k j = part_load chunks k j + plan_load ms (k, j))"
  using assms
proof (induction ms arbitrary: chunks)
  case Nil
  then show ?case by (simp add: plan_keys_def)
next
  case (Cons m ms)
  let ?e = "\<lambda>b. \<lparr>mr_range_list = mg_ranges m, mr_is_migrating = b, mr_meta = mg_meta m\<rparr>"
  let ?meta = "mg_meta m" and ?n = "length chunks"
  have m: "rl_inv (mg_ranges m)" "mg_ranges m \<noteq> []" "meta_ok ?n ?meta" using Cons.prems(2) by (simp_all add: plan_ok_def)
  then obtain c1 where p1: "push_migrating (src_chunk_index ?meta) (src_chunk_part ?meta) (?e True) chunks = Some c1"
    by (auto simp: push_migrating_def meta_ok_def)
  have l1: "length c1 = ?n" using push_migrating_length [OF p1] .
  with m obtain c2 where p2: "push_migrating (dst_chunk_index ?meta) (dst_chunk_part ?meta) (?e False) c1 = Some c2"
    by (auto simp: push_migrating_def meta_ok_def)
  have l2: "length c2 = ?n" using push_migrating_length [OF p2] l1 by simp
  have "chunks_ok c1" by (rule push_migrating_ok [OF p1 Cons.prems(1)]) (use m in \<open>simp add: entry_ok_def\<close>)
  then have ok2: "chunks_ok c2" by (rule push_migrating_ok [OF p2]) (use m l1 in \<open>simp add: entry_ok_def\<close>)
  have "plan_ok (length c2) ms" using Cons.prems(2) l2 by (simp add: plan_ok_def)
  from Cons.IH [OF ok2 this] obtain c3 where
    3: "assign_entries ms c2 = Some c3" "chunks_ok c3" "length c3 = length c2" "owned c3 = owned c2 + plan_slots ms"
      "\<forall>b. chunks_keys b c3 = chunks_keys b c2 + plan_keys ms" "map stable_slots c3 = map stable_slots c2"
      "members_of c3 = members_of c2"
      "\<forall>k < length c2. \<forall>j < 2. part_load c3 k j = part_load c2 k j + plan_load ms (k, j)" by blast
  have ow: "owned c2 = owned chunks + mset (rl_slots (mg_ranges m))"
    using push_migrating_owned [OF p1] push_migrating_owned [OF p2] by (simp add: entry_slots_def)
  have ks: "chunks_keys b c2 = chunks_keys b chunks + {#(mg_ranges m, mg_meta m)#}" for b
    using push_migrating_keys [OF p1, of b] push_migrating_keys [OF p2, of b] by (simp add: mr_key_def)
  have ld: "part_load c2 k j = part_load chunks k j + plan_load [m] (k, j)" if "k < ?n" "j < 2" for k j
    using push_load [OF p1 that] push_load [OF p2, of k j] that l1 by (auto simp: dst_position_def)
  show ?case
  proof (intro exI [of _ c3] conjI)
    show "assign_entries (m # ms) chunks = Some c3" using p1 p2 3(1) by simp
    show "owned c3 = owned chunks + plan_slots (m # ms)" using 3(4) ow by (simp add: ac_simps)
    show "\<forall>b. chunks_keys b c3 = chunks_keys b chunks + plan_keys (m # ms)" using 3(5) ks by (simp add: plan_keys_def)
    show "map stable_slots c3 = map stable_slots chunks" using 3(6) push_stable [OF p1] push_stable [OF p2] by simp
    show "members_of c3 = members_of chunks" using 3(7) push_members [OF p1] push_members [OF p2] by simp
    show "\<forall>k < ?n. \<forall>j < 2. part_load c3 k j = part_load chunks k j + plan_load (m # ms) (k, j)"
      using 3(8) ld l2 by (simp add: ac_simps)
  qed (use 3(2,3) l2 in simp_all)
qed

lemma compact_slots_id: "chunks_ok chunks \<Longrightarrow> compact_slots chunks = chunks"
proof -
  assume ok: "chunks_ok chunks"
  have s: "compact_stable s = s" if "stable_ok s" for s using that by (cases s) (simp_all add: compact_stable_def)
  have e: "map compact_entry es = es" if "\<forall>e \<in> set es. rl_inv (mr_range_list e)" for es
    using that by (induction es) (simp_all add: compact_entry_def)
  have "chunk\<lparr>stable_slots := map_prod compact_stable compact_stable (stable_slots chunk),
      migrating_slots := map_prod (map compact_entry) (map compact_entry) (migrating_slots chunk)\<rparr> = chunk"
    if "chunk \<in> set chunks" for chunk
  proof -
    from that obtain i where "i < length chunks" "chunks ! i = chunk" unfolding in_set_conv_nth by blast
    then have "chunk_ok (length chunks) i chunk" using ok unfolding chunks_ok_def by blast
    then have "stable_ok (fst (stable_slots chunk))" "stable_ok (snd (stable_slots chunk))"
      "\<forall>e \<in> set (fst (migrating_slots chunk)). rl_inv (mr_range_list e)"
      "\<forall>e \<in> set (snd (migrating_slots chunk)). rl_inv (mr_range_list e)"
      unfolding chunk_ok_def all_less_2 entry_ok_def by simp_all
    then have "map_prod compact_stable compact_stable (stable_slots chunk) = stable_slots chunk"
      "map_prod (map compact_entry) (map compact_entry) (migrating_slots chunk) = migrating_slots chunk"
      by (simp_all add: prod_eq_iff s e)
    then show ?thesis by simp
  qed
  then show ?thesis unfolding compact_slots_def by (simp add: map_idI)
qed

lemma print_migration_slot_ok: "chunks_ok chunks \<Longrightarrow> print_migration_slot chunks"
proof -
  assume ok: "chunks_ok chunks"
  have "to_slot_range e chunks = Some (entry_slot_range chunks e)" if "e \<in> set (all_entries chunks)" for e
    using chunks_ok_entry [OF ok that] by (auto simp: entry_ok_def to_slot_range_meta)
  then show ?thesis by (simp add: print_migration_slot_def those_map_Some)
qed


subsection \<open>Counting\<close>

lemma final_num_share:
  assumes "0 < m"
  shows "final_num (SLOT_NUM div m) (SLOT_NUM - SLOT_NUM div m * m) i = share m i"
proof -
  have "SLOT_NUM div m \<le> SLOT_NUM" "SLOT_NUM + 1 < 2 ^ 64" by (rule div_le_dividend, simp add: SLOT_NUM_def)
  moreover have "(if i < SLOT_NUM mod m then 1 else 0) \<le> (1::nat)" by simp
  ultimately have "SLOT_NUM div m + (if i < SLOT_NUM mod m then 1 else 0) < 2 ^ 64" by linarith
  then show ?thesis
    unfolding final_num_def share_def minus_div_mult_eq_mod by (rule usize_add_in_range)
qed

lemma shares_append: "shares m (a + k) = shares m a + sum_list (map (\<lambda>d. share m (a + d)) [0 ..< k])"
  by (induction k) simp_all

lemma shares_pairs: "(\<Sum>k < n. share m (2 * k) + share m (Suc (2 * k))) = shares m (2 * n)"
  by (induction n) simp_all

lemma share_antimono: assumes "0 < m" "m \<le> m'" shows "share m' i \<le> share m i"
proof -
  have le: "SLOT_NUM div m' \<le> SLOT_NUM div m" using assms by (intro div_le_mono2)
  show ?thesis
  proof (cases "SLOT_NUM div m' = SLOT_NUM div m")
    case True
    then have "SLOT_NUM mod m' \<le> SLOT_NUM mod m"
      unfolding minus_div_mult_eq_mod [symmetric] using assms(2) by (intro diff_le_mono2) simp
    with True show ?thesis by (simp add: share_def)
  next
    case False
    with le show ?thesis by (simp add: share_def)
  qed
qed

lemma avail_left:
  assumes "\<forall>k < length chunks. \<forall>j < 2. left_num keep (i + k) j (part j (stable_slots (chunks ! k)))
      \<le> length (opt_slots (part j (stable_slots (chunks ! k))))"
  shows "avail keep i chunks + (\<Sum>k < length chunks. left_num keep (i + k) 0 (fst (stable_slots (chunks ! k))) +
      left_num keep (i + k) 1 (snd (stable_slots (chunks ! k)))) = size (stable_total chunks)"
  using assms
proof (induction chunks arbitrary: i)
  case (Cons chunk chunks)
  have "\<forall>k < length chunks. \<forall>j < 2. left_num keep (Suc i + k) j (part j (stable_slots (chunks ! k)))
      \<le> length (opt_slots (part j (stable_slots (chunks ! k))))"
    using Cons.prems by force
  from Cons.IH [OF this] have "avail keep (Suc i) chunks + (\<Sum>k < length chunks. left_num keep (Suc i + k) 0 (fst (stable_slots (chunks ! k))) +
      left_num keep (Suc i + k) 1 (snd (stable_slots (chunks ! k)))) = size (stable_total chunks)" .
  moreover have "left_num keep i 0 (fst (stable_slots chunk)) \<le> length (opt_slots (fst (stable_slots chunk)))"
    "left_num keep i 1 (snd (stable_slots chunk)) \<le> length (opt_slots (snd (stable_slots chunk)))"
    using Cons.prems by (force simp: all_less_2)+
  ultimately show ?case
    by (simp add: sum.lessThan_Suc_shift part_avail_def stable_mset_def del: sum.lessThan_Suc)
qed simp

lemma all_filled:
  assumes "filling need dnum st" "total_given need st = sum_list (map need [0 ..< dnum])" "d < dnum"
  shows "given need st d = need d"
proof -
  let ?c = "curr_dst_master_index st"
  have "?c = dnum"
  proof (rule ccontr)
    assume "?c \<noteq> dnum"
    then have lt: "?c < dnum" "curr_slots_num st < need ?c" using assms(1) by (auto simp: filling_def)
    have "[0 ..< dnum] = [0 ..< ?c] @ ?c # [Suc ?c ..< dnum]"
      using lt(1) by (metis less_imp_le upt_append upt_conv_Cons zero_le)
    with assms(2) lt(2) show False by (simp add: total_given_def)
  qed
  with assms(3) show ?thesis by (simp add: given_def)
qed

lemma plan_load_0: "(\<And>m. m \<in> set ms \<Longrightarrow> dst_position (mg_meta m) \<noteq> p) \<Longrightarrow> plan_load ms p = 0"
  by (induction ms) auto

lemma sum_below: "n \<le> l \<Longrightarrow> (\<Sum>k < l. if k < n then f k else 0) = (\<Sum>k < n. f k)" for f :: "nat \<Rightarrow> nat"
  by (simp add: sum.If_cases) (rule arg_cong [of _ _ "sum f"], auto)


subsection \<open>Starting a migration\<close>

definition steady :: "usize \<Rightarrow> chunk_store list \<Rightarrow> bool" where
  "steady n chunks \<longleftrightarrow> slots_inv all_slots chunks \<and> nonempty_stable chunks \<and> balanced n chunks"

lemma steady_idle_part:
  assumes "steady n chunks" "idle chunks" "2 * n \<le> SLOT_NUM" "k < length chunks" "j < 2"
  shows "length (opt_slots (part j (stable_slots (chunks ! k)))) = (if k < n then share (2 * n) (2 * k + j) else 0)"
    and "part j (stable_slots (chunks ! k)) = None \<longleftrightarrow> n \<le> k"
    and "stable_ok (part j (stable_slots (chunks ! k)))"
proof -
  show len: "length (opt_slots (part j (stable_slots (chunks ! k)))) = (if k < n then share (2 * n) (2 * k + j) else 0)"
    using assms idle_load [OF assms(2,4), of j] by (auto simp: steady_def balanced_def)
  have "0 < share (2 * n) (2 * k + j)" using assms(1,3) by (intro share_pos) (auto simp: steady_def balanced_def)
  moreover have "part j (stable_slots (chunks ! k)) = None \<or> opt_slots (part j (stable_slots (chunks ! k))) \<noteq> []"
    using assms(1,4,5) by (auto simp: steady_def nonempty_stable_def)
  ultimately show "part j (stable_slots (chunks ! k)) = None \<longleftrightarrow> n \<le> k"
    using len by (cases "part j (stable_slots (chunks ! k))") (auto split: if_splits)
  show "stable_ok (part j (stable_slots (chunks ! k)))"
    using assms by (auto simp: steady_def slots_inv_def chunks_ok_def chunk_ok_def)
qed

lemma stable_update_other:
  "c' = c\<lparr>stable_slots := x\<rparr> \<Longrightarrow> migrating_slots c' = migrating_slots c \<and> chunk_members c' = chunk_members c"
  by (simp add: chunk_members_def)

lemma recorded:
  assumes inv: "slots_inv T chunks" and idle: "idle chunks" and len: "length chunks1 = length chunks"
    and ch: "\<forall>k < length chunks. chunks1 ! k = (chunks ! k)\<lparr>stable_slots := stable_slots (chunks1 ! k)\<rparr> \<and>
      (\<forall>j < 2. stable_ok (part j (stable_slots (chunks1 ! k))))"
    and tot: "stable_total chunks = stable_total chunks1 + plan_slots ms" and plan: "plan_ok (length chunks) ms"
  obtains chunks2 where "assign_dst_slots ms chunks1 = Some chunks2" "slots_inv T chunks2" "length chunks2 = length chunks"
    "members_of chunks2 = members_of chunks" "map stable_slots chunks2 = map stable_slots chunks1"
    "\<And>k j. k < length chunks \<Longrightarrow> j < 2 \<Longrightarrow> part_load chunks2 k j = length (opt_slots (part j (stable_slots (chunks1 ! k)))) + plan_load ms (k, j)"
    "print_migration_slot chunks2"
proof -
  have other: "migrating_slots (chunks1 ! k) = migrating_slots (chunks ! k) \<and> chunk_members (chunks1 ! k) = chunk_members (chunks ! k)"
    if "k < length chunks" for k
    using ch that stable_update_other by blast
  then have mig: "migrating_slots (chunks1 ! k) = ([], [])" if "k < length chunks" for k
    using idle that by (simp add: idle_def)
  then have idle1: "idle chunks1" by (simp add: idle_def len)
  have ok1: "chunks_ok chunks1" using ch mig by (auto simp: chunks_ok_def chunk_ok_def len)
  have "plan_ok (length chunks1) ms" using plan len by simp
  from assign_entries_correct [OF ok1 this] obtain chunks2 where
    2: "assign_entries ms chunks1 = Some chunks2" "chunks_ok chunks2" "length chunks2 = length chunks1"
      "owned chunks2 = owned chunks1 + plan_slots ms" "\<forall>b. chunks_keys b chunks2 = chunks_keys b chunks1 + plan_keys ms"
      "map stable_slots chunks2 = map stable_slots chunks1" "members_of chunks2 = members_of chunks1"
      "\<forall>k < length chunks1. \<forall>j < 2. part_load chunks2 k j = part_load chunks1 k j + plan_load ms (k, j)" by blast
  have "map chunk_members chunks1 = map chunk_members chunks"
    by (rule nth_equalityI) (use other len in auto)
  then have mem: "members_of chunks1 = members_of chunks" by (simp add: members_of_def)
  have "slots_inv T chunks2"
    using 2 inv idle_owned [OF idle1] idle_owned [OF idle] idle_keys [OF idle1] tot by (simp add: slots_inv_def mirrored_def)
  then show thesis
    using that [of chunks2] 2 compact_slots_id [OF 2(2)] print_migration_slot_ok [OF 2(2)] idle_load [OF idle1] len mem
    by (simp add: assign_dst_slots_def)
qed


lemma steady_total: "steady n chunks \<Longrightarrow> idle chunks \<Longrightarrow> size (stable_total chunks) = SLOT_NUM"
  by (simp add: steady_def slots_inv_def idle_owned all_slots_def)

lemma remove_start_simps [simp]:
  "curr_dst_slots remove_start = []" "planned remove_start = []" "total_given need remove_start = 0" "given need remove_start d = 0"
  by (simp_all add: remove_start_def total_given_def given_def)

lemma filling_start: "(\<And>d. d < dnum \<Longrightarrow> 0 < need d) \<Longrightarrow> filling need dnum remove_start"
  by (simp add: filling_def remove_start_def)

lemma scale_out_parts:
  assumes st: "steady n chunks" and idle: "idle chunks" and n: "n < length chunks" and L: "2 * length chunks \<le> SLOT_NUM"
    and defs: "m = length chunks * 2" "dnum = (length chunks - n) * 2" "av = SLOT_NUM div m" "rm = SLOT_NUM - av * m"
  obtains chunks1 st' new where
    "for_parts (remove_from_part e av rm n dnum) 0 chunks remove_start = Some (chunks1, st')" "planned st' = new"
    "length chunks1 = length chunks" "stable_total chunks = stable_total chunks1 + plan_slots new"
    "\<And>k j. k < length chunks \<Longrightarrow> j < 2 \<Longrightarrow> chunks1 ! k = (chunks ! k)\<lparr>stable_slots := stable_slots (chunks1 ! k)\<rparr> \<and>
       stable_ok (part j (stable_slots (chunks1 ! k))) \<and> (part j (stable_slots (chunks1 ! k)) = None \<longleftrightarrow> n \<le> k) \<and>
       length (opt_slots (part j (stable_slots (chunks1 ! k)))) = (if k < n then share m (2 * k + j) else 0)"
    "\<And>p. p \<in> set new \<Longrightarrow> rl_inv (mg_ranges p) \<and> mg_ranges p \<noteq> [] \<and>
       (\<exists>k < length chunks. \<exists>j < 2. \<exists>d < dnum. mg_meta p = out_meta e n k j d)"
    "\<And>d. d < dnum \<Longrightarrow> plan_load new (n + d div 2, d mod 2) = share m (2 * n + d)"
proof -
  let ?L = "length chunks"
  have m0: "0 < m" and mS: "m \<le> SLOT_NUM" and n0: "0 < n" and nS: "2 * n \<le> SLOT_NUM" "2 * n \<le> m"
    using n L st by (auto simp: defs steady_def balanced_def)
  have fs: "final_num av rm i = share m i" for i using final_num_share [OF m0] by (simp add: defs)
  let ?keep = "\<lambda>i j. final_num av rm (i * 2 + j)" and ?need = "\<lambda>d. final_num av rm (n * 2 + d)"
  note part = steady_idle_part [OF st idle nS(1)]
  have left: "left_num ?keep k j (part j (stable_slots (chunks ! k))) = (if k < n then share m (2 * k + j) else 0)"
    if "k < ?L" "j < 2" for k j
    using part(2) [OF that] by (auto simp: left_num_def fs mult.commute)
  have le: "left_num ?keep k j (part j (stable_slots (chunks ! k))) \<le> length (opt_slots (part j (stable_slots (chunks ! k))))"
    if "k < ?L" "j < 2" for k j
    using left [OF that] part(1) [OF that] share_antimono [OF _ nS(2), of "2 * k + j"] n0 by simp
  have "(\<Sum>k < ?L. left_num ?keep (0 + k) 0 (fst (stable_slots (chunks ! k))) + left_num ?keep (0 + k) 1 (snd (stable_slots (chunks ! k))))
      = (\<Sum>k < ?L. if k < n then share m (2 * k) + share m (Suc (2 * k)) else 0)"
    using left [of _ 0] left [of _ 1] by (intro sum.cong) auto
  also have "\<dots> = shares m (2 * n)" using sum_below [of n ?L] n shares_pairs by simp
  finally have av: "avail ?keep 0 chunks + shares m (2 * n) = SLOT_NUM"
    using avail_left [of chunks ?keep 0] le steady_total [OF st idle] by simp
  have "2 * n + dnum = m" using n by (simp add: defs)
  then have "SLOT_NUM = shares m (2 * n) + sum_list (map (\<lambda>d. share m (2 * n + d)) [0 ..< dnum])"
    using shares_total [OF m0] shares_append [of m "2 * n" dnum] by simp
  with av have need: "avail ?keep 0 chunks = sum_list (map ?need [0 ..< dnum])" by (simp add: fs mult.commute)
  have fill: "filling ?need dnum remove_start" using share_pos [OF m0 mS] by (intro filling_start) (simp add: fs)
  have ready: "\<forall>k < ?L. \<forall>j < 2. out_parts.part_ready av rm (0 + k) j (part j (stable_slots (chunks ! k)))"
    unfolding out_parts.part_ready_def using le part(3) by simp
  have le0: "total_given ?need remove_start + avail ?keep 0 chunks \<le> sum_list (map ?need [0 ..< dnum])" using need by simp
  from out_parts.for_parts_correct [OF fill remove_start_simps(1) ready le0, of e] obtain chunks1 st' new where
    r: "for_parts (remove_from_part e av rm n dnum) 0 chunks remove_start = Some (chunks1, st')"
      "out_parts.flow av rm n dnum remove_start st' new (avail ?keep 0 chunks)" "length chunks1 = ?L"
      "\<forall>k < ?L. out_parts.chunk_done av rm (0 + k) (chunks ! k) (chunks1 ! k)"
      "stable_total chunks = stable_total chunks1 + plan_slots new"
      "\<forall>p \<in> set new. \<exists>k < ?L. \<exists>j < 2. out_parts.planned_from dnum e n (0 + k) j p" by blast
  from r(2) have f: "filling ?need dnum st'" "planned st' = new" "total_given ?need st' = sum_list (map ?need [0 ..< dnum])"
    "\<And>d. given ?need st' d = plan_load new (n + d div 2, d mod 2)"
    by (simp_all add: out_parts.flow_def need)
  show thesis
  proof (rule that [OF r(1) f(2) r(3) r(5)])
    fix k j :: nat assume kj: "k < ?L" "j < 2"
    with r(4) have "out_parts.chunk_done av rm k (chunks ! k) (chunks1 ! k)" by simp
    then show "chunks1 ! k = (chunks ! k)\<lparr>stable_slots := stable_slots (chunks1 ! k)\<rparr> \<and>
       stable_ok (part j (stable_slots (chunks1 ! k))) \<and> (part j (stable_slots (chunks1 ! k)) = None \<longleftrightarrow> n \<le> k) \<and>
       length (opt_slots (part j (stable_slots (chunks1 ! k)))) = (if k < n then share m (2 * k + j) else 0)"
      using kj left [OF kj] part(2) [OF kj] unfolding out_parts.chunk_done_def out_parts.part_done_def by simp
  next
    show "rl_inv (mg_ranges p) \<and> mg_ranges p \<noteq> [] \<and> (\<exists>k < ?L. \<exists>j < 2. \<exists>d < dnum. mg_meta p = out_meta e n k j d)"
      if "p \<in> set new" for p
      using that r(6) unfolding out_parts.planned_from_def by fastforce
    show "plan_load new (n + d div 2, d mod 2) = share m (2 * n + d)" if "d < dnum" for d
      using all_filled [OF f(1,3) that] f(4) by (simp add: fs mult.commute)
  qed
qed


lemma dst_chunk_count:
  assumes "steady n chunks" "idle chunks" "2 * n \<le> SLOT_NUM"
  shows "length (filter is_dst_chunk chunks) = length chunks - n"
proof -
  have "is_dst_chunk (chunks ! k) \<longleftrightarrow> n \<le> k" if "k < length chunks" for k
    using steady_idle_part(2) [OF assms that, of 0] steady_idle_part(2) [OF assms that, of 1] by (simp add: is_dst_chunk_def)
  then have "{k. k < length chunks \<and> is_dst_chunk (chunks ! k)} = {n ..< length chunks}" by auto
  then show ?thesis by (simp add: length_filter_conv_card)
qed

lemma scale_out:
  assumes st: "steady n chunks" and idle: "idle chunks" and n: "n < length chunks" and L: "2 * length chunks \<le> SLOT_NUM"
  obtains chunks1 ms chunks2 where "remove_slots_from_src e chunks = Some (chunks1, ms)" "assign_dst_slots ms chunks1 = Some chunks2"
    "steady (length chunks) chunks2" "length chunks2 = length chunks" "members_of chunks2 = members_of chunks"
    "print_migration_slot chunks2"
proof -
  let ?L = "length chunks" and ?m = "length chunks * 2"
  have nS: "2 * n \<le> SLOT_NUM" and m0: "0 < ?m" and mS: "?m \<le> SLOT_NUM" using n L by auto
  from scale_out_parts [OF st idle n L refl refl refl refl] obtain chunks1 st' new where
    f: "for_parts (remove_from_part e (SLOT_NUM div ?m) (SLOT_NUM - SLOT_NUM div ?m * ?m) n ((?L - n) * 2)) 0 chunks remove_start = Some (chunks1, st')"
      "planned st' = new" "length chunks1 = ?L" "stable_total chunks = stable_total chunks1 + plan_slots new"
    and c: "\<And>k j. k < ?L \<Longrightarrow> j < 2 \<Longrightarrow> chunks1 ! k = (chunks ! k)\<lparr>stable_slots := stable_slots (chunks1 ! k)\<rparr> \<and>
       stable_ok (part j (stable_slots (chunks1 ! k))) \<and> (part j (stable_slots (chunks1 ! k)) = None \<longleftrightarrow> n \<le> k) \<and>
       length (opt_slots (part j (stable_slots (chunks1 ! k)))) = (if k < n then share ?m (2 * k + j) else 0)"
    and p: "\<And>p. p \<in> set new \<Longrightarrow> rl_inv (mg_ranges p) \<and> mg_ranges p \<noteq> [] \<and>
       (\<exists>k < ?L. \<exists>j < 2. \<exists>d < (?L - n) * 2. mg_meta p = out_meta e n k j d)"
    and load: "\<And>d. d < (?L - n) * 2 \<Longrightarrow> plan_load new (n + d div 2, d mod 2) = share ?m (2 * n + d)"
    by blast
  have r: "remove_slots_from_src e chunks = Some (chunks1, new)"
    using f(1,2) n m0 by (simp add: remove_slots_from_src_def dst_chunk_count [OF st idle nS])
  have "meta_ok ?L (mg_meta q)" if "q \<in> set new" for q
    using p [OF that] by (auto simp: meta_ok_def out_meta_def)
  with p have plan: "plan_ok ?L new" unfolding plan_ok_def by blast
  have ch: "\<forall>k < ?L. chunks1 ! k = (chunks ! k)\<lparr>stable_slots := stable_slots (chunks1 ! k)\<rparr> \<and>
      (\<forall>j < 2. stable_ok (part j (stable_slots (chunks1 ! k))))"
  proof (intro allI impI conjI)
    show "chunks1 ! k = (chunks ! k)\<lparr>stable_slots := stable_slots (chunks1 ! k)\<rparr>" if "k < ?L" for k
      using c [OF that, of 0] by (simp only: zero_less_numeral)
    show "stable_ok (part j (stable_slots (chunks1 ! k)))" if "k < ?L" "j < 2" for k j
      using c [OF that] by (simp only:)
  qed
  have inv: "slots_inv all_slots chunks" using st by (simp add: steady_def)
  from recorded [OF inv idle f(3) ch f(4) plan] obtain chunks2 where
    2: "assign_dst_slots new chunks1 = Some chunks2" "slots_inv all_slots chunks2" "length chunks2 = ?L"
      "members_of chunks2 = members_of chunks" "map stable_slots chunks2 = map stable_slots chunks1"
      "\<And>k j. k < ?L \<Longrightarrow> j < 2 \<Longrightarrow> part_load chunks2 k j = length (opt_slots (part j (stable_slots (chunks1 ! k)))) + plan_load new (k, j)"
      "print_migration_slot chunks2" by blast
  have ld: "part_load chunks2 k j = share ?m (2 * k + j)" if kj: "k < ?L" "j < 2" for k j
  proof (cases "k < n")
    case True
    have "dst_position (mg_meta q) \<noteq> (k, j)" if "q \<in> set new" for q
      using p [OF that] True by (auto simp: out_meta_def dst_position_def)
    then show ?thesis using 2(6) [OF kj] c [OF kj] True by (simp add: plan_load_0)
  next
    case False
    define d where "d = 2 * (k - n) + j"
    have "d < (?L - n) * 2" "n + d div 2 = k" "d mod 2 = j" "2 * n + d = 2 * k + j"
      using kj False by (auto simp: d_def)
    with load [of d] 2(6) [OF kj] c [OF kj] False show ?thesis by simp
  qed
  have "stable_slots (chunks2 ! k) = stable_slots (chunks1 ! k)" if "k < ?L" for k
    using arg_cong [OF 2(5), of "\<lambda>xs. xs ! k"] that 2(3) f(3) by simp
  then have "nonempty_stable chunks2"
    unfolding nonempty_stable_def 2(3) using c share_pos [OF m0 mS] by (metis length_greater_0_conv linorder_not_less)
  moreover have "balanced ?L chunks2" unfolding balanced_def 2(3) using ld n by (auto simp: mult.commute)
  ultimately have "steady ?L chunks2" using 2(2) by (simp add: steady_def)
  then show thesis using that r 2 by blast
qed


text \<open>Scaling down: the parts of the chunks that stay take over the slots of the others.\<close>

lemma stable_num_length: "stable_ok s \<Longrightarrow> stable_num s = length (opt_slots s)"
  by (cases s) (auto simp: stable_num_def rl_inv_slots_num)

lemma stable_prefix:
  assumes "steady (length chunks) chunks" "idle chunks" "2 * length chunks \<le> SLOT_NUM" "k \<le> length chunks"
  shows "concat (map (\<lambda>chunk. map stable_num (arr2_list (stable_slots chunk))) (take k chunks)) = map (share (2 * length chunks)) [0 ..< 2 * k]"
    and "size (stable_total (take k chunks)) = shares (2 * length chunks) (2 * k)"
proof -
  let ?m = "2 * length chunks"
  have "concat (map (\<lambda>chunk. map stable_num (arr2_list (stable_slots chunk))) (take k chunks)) = map (share ?m) [0 ..< 2 * k]
      \<and> size (stable_total (take k chunks)) = shares ?m (2 * k)"
    using assms(4)
  proof (induction k)
    case (Suc k)
    then have k: "k < length chunks" by simp
    note part = steady_idle_part [OF assms(1-3) k]
    have "stable_num (fst (stable_slots (chunks ! k))) = share ?m (2 * k)" "stable_num (snd (stable_slots (chunks ! k))) = share ?m (2 * k + 1)"
      "length (opt_slots (fst (stable_slots (chunks ! k)))) = share ?m (2 * k)" "length (opt_slots (snd (stable_slots (chunks ! k)))) = share ?m (2 * k + 1)"
      using part(1,3) [of 0] part(1,3) [of 1] k by (simp_all add: stable_num_length)
    with Suc k show ?case by (simp add: take_Suc_conv_app_nth arr2_list_def stable_mset_def)
  qed simp
  then show "concat (map (\<lambda>chunk. map stable_num (arr2_list (stable_slots chunk))) (take k chunks)) = map (share ?m) [0 ..< 2 * k]"
    "size (stable_total (take k chunks)) = shares ?m (2 * k)" by simp_all
qed

lemma sum_share_diff:
  "(\<And>d. d < k \<Longrightarrow> share m d \<le> share m' d) \<Longrightarrow> sum_list (map (\<lambda>d. share m' d - share m d) [0 ..< k]) + shares m k = shares m' k"
proof (induction k)
  case (Suc k)
  then have "sum_list (map (\<lambda>d. share m' d - share m d) [0 ..< k]) + shares m k = shares m' k" "share m k \<le> share m' k" by simp_all
  then show ?case by simp
qed simp

lemma scale_down_parts:
  assumes st: "steady (length chunks) chunks" and idle: "idle chunks" and n: "0 < n" "n < length chunks" and L: "2 * length chunks \<le> SLOT_NUM"
    and grow: "\<And>d. d < 2 * n \<Longrightarrow> share (2 * length chunks) d < share (2 * n) d"
    and defs: "dnum = n * 2" "av = SLOT_NUM div dnum" "rm = SLOT_NUM - av * dnum"
      "ex = concat (map (\<lambda>chunk. map stable_num (arr2_list (stable_slots chunk))) (take n chunks))"
  obtains chunks1 st' new where
    "for_parts (remove_from_part_to_scale_down e av rm ex dnum) n (drop n chunks) remove_start = Some (chunks1, st')" "planned st' = new"
    "length chunks1 = length chunks - n" "stable_total (drop n chunks) = stable_total chunks1 + plan_slots new"
    "\<And>k j. k < length chunks - n \<Longrightarrow> j < 2 \<Longrightarrow> chunks1 ! k = (chunks ! (n + k))\<lparr>stable_slots := stable_slots (chunks1 ! k)\<rparr> \<and>
       part j (stable_slots (chunks1 ! k)) = None"
    "\<And>p. p \<in> set new \<Longrightarrow> rl_inv (mg_ranges p) \<and> mg_ranges p \<noteq> [] \<and>
       (\<exists>k < length chunks - n. \<exists>j < 2. \<exists>d < dnum. mg_meta p = out_meta e 0 (n + k) j d)"
    "\<And>d. d < dnum \<Longrightarrow> plan_load new (d div 2, d mod 2) = share (2 * n) d - share (2 * length chunks) d"
proof -
  let ?L = "length chunks" and ?m = "2 * length chunks" and ?D = "drop n chunks" and ?keep = "\<lambda>i j :: usize. 0 :: usize"
  have dn: "dnum = 2 * n" and d0: "0 < dnum" using n by (simp_all add: defs)
  have fs: "final_num av rm i = share (2 * n) i" for i using final_num_share [OF d0] by (simp add: defs mult.commute)
  let ?need = "\<lambda>d. existing_num ex (final_num av rm d) d"
  have ex: "ex = map (share ?m) [0 ..< 2 * n]" using stable_prefix(1) [OF st idle L] n by (simp add: defs)
  have need: "?need d = share (2 * n) d - share ?m d" if "d < dnum" for d
    using that by (simp add: existing_num_def ex list_get_def fs dn)
  have tot: "sum_list (map ?need [0 ..< dnum]) + shares ?m (2 * n) = SLOT_NUM"
  proof -
    have "map ?need [0 ..< dnum] = map (\<lambda>d. share (2 * n) d - share ?m d) [0 ..< 2 * n]"
      unfolding dn by (rule map_cong) (simp_all add: need dn)
    then show ?thesis
      using sum_share_diff [of "2 * n" ?m "2 * n"] grow shares_total [of "2 * n"] n(1) by (simp add: less_imp_le)
  qed
  have part: "stable_ok (part j (stable_slots (?D ! k)))" "part j (stable_slots (?D ! k)) \<noteq> None"
    if "k < length ?D" "j < 2" for k j
    using steady_idle_part(2,3) [OF st idle L, of "n + k" j] that n by simp_all
  have "size (stable_total chunks) = size (stable_total (take n chunks)) + size (stable_total ?D)"
    by (metis append_take_drop_id size_union stable_total_simps(3))
  then have "size (stable_total ?D) + shares ?m (2 * n) = SLOT_NUM"
    using stable_prefix(2) [OF st idle L, of n] steady_total [OF st idle] n by simp
  then have av: "avail ?keep n ?D = sum_list (map ?need [0 ..< dnum])"
    using avail_left [of ?D ?keep n] tot by (simp add: left_num_def)
  have fill: "filling ?need dnum remove_start" using grow by (intro filling_start) (simp add: need dn)
  have ready: "\<forall>k < length ?D. \<forall>j < 2. down_parts.part_ready (n + k) j (part j (stable_slots (?D ! k)))"
    unfolding down_parts.part_ready_def using part(1) by (simp add: left_num_def)
  have le0: "total_given ?need remove_start + avail ?keep n ?D \<le> sum_list (map ?need [0 ..< dnum])" using av by simp
  from down_parts.for_parts_correct [OF fill remove_start_simps(1) ready le0, of e] obtain chunks1 st' new where
    r: "for_parts (remove_from_part_to_scale_down e av rm ex dnum) n ?D remove_start = Some (chunks1, st')"
      "down_parts.flow ex av rm dnum remove_start st' new (avail ?keep n ?D)" "length chunks1 = length ?D"
      "\<forall>k < length ?D. down_parts.chunk_done (n + k) (?D ! k) (chunks1 ! k)"
      "stable_total ?D = stable_total chunks1 + plan_slots new"
      "\<forall>p \<in> set new. \<exists>k < length ?D. \<exists>j < 2. down_parts.planned_from dnum e (n + k) j p" by blast
  from r(2) have f: "filling ?need dnum st'" "planned st' = new" "total_given ?need st' = sum_list (map ?need [0 ..< dnum])"
    "\<And>d. given ?need st' d = plan_load new (d div 2, d mod 2)"
    by (simp_all add: down_parts.flow_def av)
  show thesis
  proof (rule that [OF r(1) f(2) _ r(5)])
    fix k j :: nat assume kj: "k < ?L - n" "j < 2"
    with r(4) have "down_parts.chunk_done (n + k) (?D ! k) (chunks1 ! k)" by simp
    then show "chunks1 ! k = (chunks ! (n + k))\<lparr>stable_slots := stable_slots (chunks1 ! k)\<rparr> \<and>
       part j (stable_slots (chunks1 ! k)) = None"
      using kj n unfolding down_parts.chunk_done_def down_parts.part_done_def by simp
  next
    show "rl_inv (mg_ranges p) \<and> mg_ranges p \<noteq> [] \<and> (\<exists>k < ?L - n. \<exists>j < 2. \<exists>d < dnum. mg_meta p = out_meta e 0 (n + k) j d)"
      if "p \<in> set new" for p
      using that r(6) unfolding down_parts.planned_from_def by fastforce
    show "plan_load new (d div 2, d mod 2) = share (2 * n) d - share ?m d" if "d < dnum" for d
      using all_filled [OF f(1,3) that] f(4) need [OF that] by simp
  qed (use r(3) in simp)
qed


lemma scale_down:
  assumes st: "steady (length chunks) chunks" and idle: "idle chunks" and n: "0 < n" "n < length chunks" and L: "2 * length chunks \<le> SLOT_NUM"
    and grow: "\<And>d. d < 2 * n \<Longrightarrow> share (2 * length chunks) d < share (2 * n) d"
  obtains chunks1 ms chunks2 where "remove_slots_from_src_to_scale_down e n chunks = Some (chunks1, ms)"
    "assign_dst_slots ms chunks1 = Some chunks2" "steady n chunks2" "length chunks2 = length chunks"
    "members_of chunks2 = members_of chunks" "print_migration_slot chunks2"
proof -
  let ?L = "length chunks" and ?m = "2 * length chunks" and ?D = "drop n chunks"
  let ?ex = "concat (map (\<lambda>chunk. map stable_num (arr2_list (stable_slots chunk))) (take n chunks))"
  from scale_down_parts [OF st idle n L grow refl refl refl refl] obtain chunksD st' new where
    f: "for_parts (remove_from_part_to_scale_down e (SLOT_NUM div (n * 2)) (SLOT_NUM - SLOT_NUM div (n * 2) * (n * 2)) ?ex (n * 2)) n ?D remove_start = Some (chunksD, st')"
      "planned st' = new" "length chunksD = ?L - n" "stable_total ?D = stable_total chunksD + plan_slots new"
    and c: "\<And>k j. k < ?L - n \<Longrightarrow> j < 2 \<Longrightarrow> chunksD ! k = (chunks ! (n + k))\<lparr>stable_slots := stable_slots (chunksD ! k)\<rparr> \<and>
       part j (stable_slots (chunksD ! k)) = None"
    and p: "\<And>p. p \<in> set new \<Longrightarrow> rl_inv (mg_ranges p) \<and> mg_ranges p \<noteq> [] \<and>
       (\<exists>k < ?L - n. \<exists>j < 2. \<exists>d < n * 2. mg_meta p = out_meta e 0 (n + k) j d)"
    and load: "\<And>d. d < n * 2 \<Longrightarrow> plan_load new (d div 2, d mod 2) = share (2 * n) d - share ?m d"
    by blast
  let ?chunks1 = "take n chunks @ chunksD"
  have r: "remove_slots_from_src_to_scale_down e n chunks = Some (?chunks1, new)"
    using f(1,2) n by (simp add: remove_slots_from_src_to_scale_down_def Let_def)
  have "meta_ok ?L (mg_meta q)" if "q \<in> set new" for q
    using p [OF that] n by (auto simp: meta_ok_def out_meta_def)
  with p have plan: "plan_ok ?L new" unfolding plan_ok_def by blast
  have len: "length ?chunks1 = ?L" using f(3) n by simp
  note part = steady_idle_part [OF st idle L]
  have nth: "?chunks1 ! k = (if k < n then chunks ! k else chunksD ! (k - n))" for k
    using n by (simp add: nth_append)
  have ch: "\<forall>k < ?L. ?chunks1 ! k = (chunks ! k)\<lparr>stable_slots := stable_slots (?chunks1 ! k)\<rparr> \<and>
      (\<forall>j < 2. stable_ok (part j (stable_slots (?chunks1 ! k))))"
  proof (intro allI impI conjI)
    show "?chunks1 ! k = (chunks ! k)\<lparr>stable_slots := stable_slots (?chunks1 ! k)\<rparr>" if "k < ?L" for k
    proof (cases "k < n")
      case False
      then have "chunksD ! (k - n) = (chunks ! (n + (k - n)))\<lparr>stable_slots := stable_slots (chunksD ! (k - n))\<rparr>"
        using c [of "k - n" 0] that by (simp only: zero_less_numeral)
      with False show ?thesis by (simp add: nth)
    qed (simp add: nth)
    show "stable_ok (part j (stable_slots (?chunks1 ! k)))" if "k < ?L" "j < 2" for k j
      using part(3) [OF that] c [of "k - n" j] that by (auto simp: nth)
  qed
  have tot: "stable_total chunks = stable_total ?chunks1 + plan_slots new"
    by (metis append_take_drop_id f(4) group_cancel.add1 stable_total_simps(3) union_assoc)
  have inv: "slots_inv all_slots chunks" using st by (simp add: steady_def)
  from recorded [OF inv idle len ch tot plan] obtain chunks2 where
    2: "assign_dst_slots new ?chunks1 = Some chunks2" "slots_inv all_slots chunks2" "length chunks2 = ?L"
      "members_of chunks2 = members_of chunks" "map stable_slots chunks2 = map stable_slots ?chunks1"
      "\<And>k j. k < ?L \<Longrightarrow> j < 2 \<Longrightarrow> part_load chunks2 k j = length (opt_slots (part j (stable_slots (?chunks1 ! k)))) + plan_load new (k, j)"
      "print_migration_slot chunks2" by blast
  have ld: "part_load chunks2 k j = (if k < n then share (2 * n) (2 * k + j) else 0)" if kj: "k < ?L" "j < 2" for k j
  proof (cases "k < n")
    case True
    have "(2 * k + j) div 2 = k" "(2 * k + j) mod 2 = j" "2 * k + j < n * 2" using kj True by auto
    with load [of "2 * k + j"] grow [of "2 * k + j"] 2(6) [OF kj] part(1) [OF kj] True kj(1) show ?thesis by (simp add: nth)
  next
    case False
    have "dst_position (mg_meta q) \<noteq> (k, j)" if "q \<in> set new" for q
      using p [OF that] False by (auto simp: out_meta_def dst_position_def)
    then show ?thesis using 2(6) [OF kj] c [of "k - n" j] False kj by (simp add: plan_load_0 nth)
  qed
  have "stable_slots (chunks2 ! k) = stable_slots (?chunks1 ! k)" if "k < ?L" for k
    using arg_cong [OF 2(5), of "\<lambda>xs. xs ! k"] that 2(3) len by (simp del: map_append)
  then have "nonempty_stable chunks2"
    using st c [of "_ - n"] by (auto simp: nonempty_stable_def 2(3) nth steady_def)
  moreover have "balanced n chunks2" unfolding balanced_def 2(3) using ld n by auto
  ultimately have "steady n chunks2" using 2(2) by (simp add: steady_def)
  then show thesis using that r 2 by blast
qed

text \<open>Every part that stays has to grow; up to 90 chunks (180 masters) it does.\<close>

lemma share_ceil:
  assumes "i < m" "m \<le> SLOT_NUM"
  shows "share m i = (SLOT_NUM - i + m - 1) div m"
proof -
  let ?a = "SLOT_NUM div m" and ?r = "SLOT_NUM mod m"
  have N: "SLOT_NUM = ?a * m + ?r" by simp
  have r: "?r < m" using assms by simp
  have a: "1 \<le> ?a" using assms by (simp add: div_greater_zero_iff Suc_le_eq)
  show ?thesis
  proof (cases "i < ?r")
    case True
    have "(?a + 1) * m = ?a * m + m" by simp
    then have eq: "SLOT_NUM - i + m - 1 = (?r - i - 1) + (?a + 1) * m" using True N by linarith
    have "((?r - i - 1) + (?a + 1) * m) div m = (?a + 1) + (?r - i - 1) div m" using assms by (intro div_mult_self1) simp
    moreover have "(?r - i - 1) div m = 0" using r by simp
    ultimately show ?thesis unfolding eq using True by (simp add: share_def)
  next
    case False
    have "m \<le> ?a * m" using a by simp
    then have eq: "SLOT_NUM - i + m - 1 = (?r + m - 1 - i) + ?a * m" using False N assms(1) by linarith
    have "((?r + m - 1 - i) + ?a * m) div m = ?a + (?r + m - 1 - i) div m" using assms by (intro div_mult_self1) simp
    moreover have "(?r + m - 1 - i) div m = 0" using False r assms by simp
    ultimately show ?thesis unfolding eq using False by (simp add: share_def)
  qed
qed

lemma share_grows:
  assumes "0 < n" "n < l" "l \<le> 90" "d < 2 * n"
  shows "share (2 * l) d < share (2 * n) d"
proof -
  let ?n = "2 * n" and ?m = "2 * l" and ?x = "SLOT_NUM - d"
  have le: "?m \<le> SLOT_NUM" "?n \<le> SLOT_NUM" using assms by (simp_all add: SLOT_NUM_def)
  define q where "q = (?x + ?m - 1) div ?m"
  have x: "16206 \<le> ?x" using assms by (simp add: SLOT_NUM_def)
  have m: "?m = ?n + (?m - ?n)" "2 \<le> ?m - ?n" using assms by auto
  have "?n * ?m \<le> 178 * 180" using assms by (intro mult_mono) auto
  also have "\<dots> \<le> 16206 * 2" by simp
  also have "\<dots> \<le> ?x * (?m - ?n)" using x m by (intro mult_mono) auto
  finally have big: "?n * ?m \<le> ?x * (?m - ?n)" .
  have "q * ?m \<le> ?x + ?m - 1" unfolding q_def by (rule div_times_less_eq_dividend)
  then have "q * ?m < ?x + ?m" using x by linarith
  then have "q * ?m * ?n < (?x + ?m) * ?n" using assms by simp
  also have "\<dots> = ?x * ?n + ?n * ?m" by (simp add: algebra_simps)
  also have "\<dots> \<le> ?x * ?n + ?x * (?m - ?n)" using big by simp
  also have "\<dots> = ?x * ?m" using m by (metis distrib_left)
  finally have "q * ?n * ?m < ?x * ?m" by (simp add: ac_simps)
  then have "q * ?n < ?x" using mult_less_cancel2 by blast
  then have "(q + 1) * ?n \<le> ?x + ?n - 1" by simp
  then have "q + 1 \<le> (?x + ?n - 1) div ?n" using assms by (simp add: less_eq_div_iff_mult_less_eq)
  then show ?thesis
    using share_ceil [OF _ le(1), of d] share_ceil [OF _ le(2), of d] assms by (simp add: q_def)
qed

end
