(* ===== verification/UM_Commit.thy ===== *)
theory UM_Commit
  imports UM_Balance
begin

section \<open>Committing a migration\<close>

text \<open>
  \<open>commit_migration\<close> finds the two sides of the task by its ranges and epoch, drops the
  migrating side and turns the importing side into stable slots. On a well-formed cluster the two
  sides are unique and belong together, so a commit moves exactly the slots of the task, to the
  destination the task names, and keeps ownership, load and all the other migrations.
\<close>


subsection \<open>Finding the two sides\<close>

lemma in_entries_at:
  "(p, e) \<in> set (entries_at i chunks) \<longleftrightarrow>
     (\<exists>k < length chunks. \<exists>j < 2. p = (i + k, j) \<and> e \<in> set (part j (migrating_slots (chunks ! k))))"
proof (induction chunks arbitrary: i)
  case (Cons chunk chunks)
  have "(\<exists>k < length (chunk # chunks). \<exists>j < 2. p = (i + k, j) \<and> e \<in> set (part j (migrating_slots ((chunk # chunks) ! k))))
    \<longleftrightarrow> (\<exists>j < 2. p = (i, j) \<and> e \<in> set (part j (migrating_slots chunk)))
      \<or> (\<exists>k < length chunks. \<exists>j < 2. p = (Suc i + k, j) \<and> e \<in> set (part j (migrating_slots (chunks ! k))))"
    by (simp add: Ex_less_Suc2)
  then show ?case using Cons.IH [of "Suc i"] by (auto simp: Ex_less_2)
qed simp

lemma find_entry_Some:
  assumes "find_entry b rl ep chunks = Some (i, j)"
  obtains e where "i < length chunks" "j < 2" "e \<in> set (part j (migrating_slots (chunks ! i)))"
    "mr_range_list e = rl" "ms_epoch (mr_meta e) = ep" "mr_is_migrating e = b"
  using assms by (auto simp: find_entry_def find_Some_iff in_entries_at dest!: nth_mem)

lemma find_entry_None:
  assumes "find_entry b rl ep chunks = None" "i < length chunks" "j < 2" "e \<in> set (part j (migrating_slots (chunks ! i)))"
  shows "\<not> (mr_range_list e = rl \<and> ms_epoch (mr_meta e) = ep \<and> mr_is_migrating e = b)"
proof -
  have "((i, j), e) \<in> set (entries_at 0 chunks)" using assms(2-4) by (auto simp: in_entries_at)
  with assms(1) show ?thesis by (auto simp: find_entry_def find_None_iff)
qed

lemma rl_slots_nonempty: "rl_inv rl \<Longrightarrow> rl \<noteq> [] \<Longrightarrow> rl_slots rl \<noteq> []"
  by (cases rl) (auto simp: rl_inv_Cons range_slots_def)

lemma owned_keys:
  "owned chunks = stable_total chunks + sum_mset (image_mset (\<lambda>k. mset (rl_slots (fst k))) (chunks_keys True chunks))"
  by (simp add: owned_split keys_slots chunks_keys_all stable_total_def)

lemma migrating_keys_unique:
  assumes "chunks_ok chunks" "uniq (owned chunks)" "chunks_keys True chunks = add_mset k1 (add_mset k2 K)"
  shows "fst k1 \<noteq> fst k2"
proof
  assume eq: "fst k1 = fst k2"
  have "k1 \<in># chunks_keys True chunks" using assms(3) by simp
  then obtain e where e: "e \<in> set (all_entries chunks)" "mr_key e = k1"
    by (auto simp: chunks_keys_all keys_of_def)
  from chunks_ok_entry [OF assms(1) e(1)] e(2) have "rl_slots (fst k1) \<noteq> []"
    using rl_slots_nonempty [of "mr_range_list e"] by (auto simp: entry_ok_def mr_key_def)
  then obtain x where "x \<in> set (rl_slots (fst k1))" by (meson last_in_set)
  then have c: "1 \<le> count (mset (rl_slots (fst k1))) x" by (simp add: count_greater_eq_one_iff)
  have "owned chunks = stable_total chunks + (mset (rl_slots (fst k1)) + (mset (rl_slots (fst k2))
      + sum_mset (image_mset (\<lambda>k. mset (rl_slots (fst k))) K)))"
    using assms(3) by (simp add: owned_keys)
  then have "2 \<le> count (owned chunks) x" using c unfolding eq by (simp only: count_union)
  moreover have "count (owned chunks) x \<le> 1" using assms(2) unfolding uniq_def by blast
  ultimately show False by linarith
qed

lemma migrating_key_once:
  assumes "chunks_ok chunks" "uniq (owned chunks)" "k \<in># chunks_keys True chunks"
  shows "filter_mset (\<lambda>k'. k' \<noteq> k) (chunks_keys True chunks) = chunks_keys True chunks - {#k#}"
    and "k' \<in># chunks_keys True chunks \<Longrightarrow> fst k' = fst k \<Longrightarrow> k' = k"
proof -
  from assms(3) obtain K where K: "chunks_keys True chunks = add_mset k K" by (meson multi_member_split)
  have other: "fst k'' \<noteq> fst k" if k'': "k'' \<in># K" for k''
  proof -
    from k'' obtain K' where "K = add_mset k'' K'" by (meson multi_member_split)
    with K migrating_keys_unique [OF assms(1,2), of k k'' K'] show ?thesis by auto
  qed
  then have "filter_mset (\<lambda>k'. k' \<noteq> k) K = K" by (auto intro!: filter_mset_eq_conv [THEN iffD2])
  then show "filter_mset (\<lambda>k'. k' \<noteq> k) (chunks_keys True chunks) = chunks_keys True chunks - {#k#}" by (simp add: K)
  show "k' = k" if "k' \<in># chunks_keys True chunks" "fst k' = fst k" using that other [of k'] by (auto simp: K)
qed

lemma entry_key_mem:
  "i < length chunks \<Longrightarrow> j < 2 \<Longrightarrow> e \<in> set (part j (migrating_slots (chunks ! i))) \<Longrightarrow> mr_is_migrating e = b \<Longrightarrow>
     mr_key e \<in># chunks_keys b chunks"
  by (auto simp: chunks_keys_all keys_of_def in_all_entries)

text \<open>The metadata the commit builds from the positions is that of both sides.\<close>

lemma commit_sides:
  assumes ok: "chunks_ok chunks" "mirrored chunks" "uniq (owned chunks)"
    and f: "find_entry True rl ep chunks = Some (si, sj)" "find_entry False rl ep chunks = Some (di, dj)"
    and meta: "meta = \<lparr>ms_epoch = ep, src_chunk_index = si, src_chunk_part = sj, dst_chunk_index = di, dst_chunk_part = dj\<rparr>"
  shows "(rl, meta) \<in># chunks_keys True chunks" "(rl, meta) \<in># chunks_keys False chunks" "meta_ok (length chunks) meta"
    "rl_inv rl" "rl \<noteq> []"
proof -
  obtain e where e: "si < length chunks" "sj < 2" "e \<in> set (part sj (migrating_slots (chunks ! si)))"
    "mr_range_list e = rl" "ms_epoch (mr_meta e) = ep" "mr_is_migrating e" using f(1) by (rule find_entry_Some) simp
  obtain e' where e': "di < length chunks" "dj < 2" "e' \<in> set (part dj (migrating_slots (chunks ! di)))"
    "mr_range_list e' = rl" "ms_epoch (mr_meta e') = ep" "\<not> mr_is_migrating e'" using f(2) by (rule find_entry_Some) simp
  have k: "mr_key e \<in># chunks_keys True chunks" using entry_key_mem [OF e(1-3), of True] e(6) by simp
  have k': "mr_key e' \<in># chunks_keys False chunks" using entry_key_mem [OF e'(1-3), of False] e'(6) by simp
  then have "mr_key e' \<in># chunks_keys True chunks" using ok(2) by (simp add: mirrored_def)
  then have "mr_key e' = mr_key e"
    using migrating_key_once(2) [OF ok(1,3) k] e(4) e'(4) by (simp add: mr_key_def)
  then have m: "mr_meta e' = mr_meta e" by (simp add: mr_key_def)
  have eo: "entry_ok (length chunks) si sj e" "entry_ok (length chunks) di dj e'"
    using ok(1) e e' by (auto simp: chunks_ok_def chunk_ok_def)
  then have "mr_meta e = meta" using e(5,6) e'(6) m by (auto simp: entry_ok_def meta intro!: migration_meta_store.equality)
  with k k' e(4) e'(4) m eo(1) show "(rl, meta) \<in># chunks_keys True chunks" "(rl, meta) \<in># chunks_keys False chunks"
    "meta_ok (length chunks) meta" "rl_inv rl" "rl \<noteq> []" by (auto simp: mr_key_def entry_ok_def)
qed


subsection \<open>Dropping the migrating side\<close>

definition same_load :: "chunk_store list \<Rightarrow> chunk_store list \<Rightarrow> bool" where
  "same_load chunks chunks' \<longleftrightarrow>
     length chunks' = length chunks \<and> (\<forall>k < length chunks. \<forall>j < 2. part_load chunks' k j = part_load chunks k j)"

lemma keys_of_filter:
  "keys_of True (filter (\<lambda>e. \<not> (mr_is_migrating e \<and> mr_range_list e = rl \<and> mr_meta e = meta)) es)
     = filter_mset (\<lambda>k. k \<noteq> (rl, meta)) (keys_of True es)"
  "keys_of False (filter (\<lambda>e. \<not> (mr_is_migrating e \<and> mr_range_list e = rl \<and> mr_meta e = meta)) es) = keys_of False es"
  "import_load (filter (\<lambda>e. \<not> (mr_is_migrating e \<and> mr_range_list e = rl \<and> mr_meta e = meta)) es) = import_load es"
  by (induction es) (auto simp: mr_key_def)

lemma retain_spec:
  fixes rl meta chunks
  defines "chunks1 \<equiv> map (retain_entries (\<lambda>e. \<not> (mr_is_migrating e \<and> mr_range_list e = rl \<and> mr_meta e = meta))) chunks"
  shows "chunks_ok chunks \<Longrightarrow> chunks_ok chunks1" "stable_total chunks1 = stable_total chunks"
    "chunks_keys True chunks1 = filter_mset (\<lambda>k. k \<noteq> (rl, meta)) (chunks_keys True chunks)"
    "chunks_keys False chunks1 = chunks_keys False chunks" "same_load chunks chunks1"
    "members_of chunks1 = members_of chunks" "map stable_slots chunks1 = map stable_slots chunks"
proof -
  define P :: "migration_slot_range_store \<Rightarrow> bool" where "P = (\<lambda>e. \<not> (mr_is_migrating e \<and> mr_range_list e = rl \<and> mr_meta e = meta))"
  have F: "keys_of True (filter P es) = filter_mset (\<lambda>k. k \<noteq> (rl, meta)) (keys_of True es)"
    "keys_of False (filter P es) = keys_of False es" "import_load (filter P es) = import_load es" for es
    unfolding P_def by (rule keys_of_filter)+
  have c1: "chunks1 = map (retain_entries P) chunks" unfolding chunks1_def P_def ..
  show "chunks_ok chunks \<Longrightarrow> chunks_ok chunks1"
    by (auto simp: chunks_ok_def chunk_ok_def c1 retain_entries_def all_less_2)
  show "map stable_slots chunks1 = map stable_slots chunks" by (simp add: c1 retain_entries_def)
  show "stable_total chunks1 = stable_total chunks"
    unfolding c1 by (induction chunks) (simp_all add: retain_entries_def)
  show "chunks_keys True chunks1 = filter_mset (\<lambda>k. k \<noteq> (rl, meta)) (chunks_keys True chunks)"
    unfolding c1 by (induction chunks) (simp_all add: chunks_keys_def chunk_entries_eq retain_entries_def F)
  show "chunks_keys False chunks1 = chunks_keys False chunks"
    unfolding c1 by (induction chunks) (simp_all add: chunks_keys_def chunk_entries_eq retain_entries_def F)
  show "same_load chunks chunks1"
    by (auto simp: same_load_def c1 part_load_def retain_entries_def F less_2_cases_iff)
  show "members_of chunks1 = members_of chunks"
    unfolding c1 by (induction chunks) (simp_all add: chunk_members_def retain_entries_def)
qed


subsection \<open>Settling the importing side\<close>

lemma take_out_Some:
  assumes "take_out P es = Some (rl, es')"
  obtains es1 e es2 where "es = es1 @ e # es2" "P e" "rl = mr_range_list e" "es' = es1 @ es2"
proof -
  from assms obtain i where i: "find_position P es = Some i" "rl = mr_range_list (es ! i)" "es' = take i es @ drop (Suc i) es"
    by (auto simp: take_out_def)
  from find_position_Some [OF i(1)] show thesis using that [OF id_take_nth_drop _ i(2,3)] by blast
qed

lemma take_out_None: "take_out P es = None \<longleftrightarrow> \<not> (\<exists>e \<in> set es. P e)"
  by (simp add: take_out_def find_position_None)

lemma settle_import_spec:
  assumes "\<exists>e \<in> set (all_entries chunks). P e"
  shows "\<exists>i j es1 e es2. i < length chunks \<and> j < 2 \<and> P e \<and> part j (migrating_slots (chunks ! i)) = es1 @ e # es2 \<and>
    settle_import P chunks = chunks[i := (chunks ! i)\<lparr>
      migrating_slots := arr2_modify j (\<lambda>_. es1 @ es2) (migrating_slots (chunks ! i)),
      stable_slots := arr2_modify j (put_stable (mr_range_list e)) (stable_slots (chunks ! i))\<rparr>]"
  using assms
proof (induction chunks)
  case (Cons chunk chunks)
  show ?case
  proof (cases "take_out P (fst (migrating_slots chunk))")
    case (Some x)
    then obtain rl es where t: "take_out P (fst (migrating_slots chunk)) = Some (rl, es)" by (cases x) auto
    then obtain es1 e es2 where "fst (migrating_slots chunk) = es1 @ e # es2" "P e" "rl = mr_range_list e" "es = es1 @ es2"
      by (rule take_out_Some)
    with t show ?thesis
      by (intro exI [of _ 0] exI [of _ es1] exI [of _ e] exI [of _ es2]) (simp add: arr2_modify_def)
  next
    case n0: None
    show ?thesis
    proof (cases "take_out P (snd (migrating_slots chunk))")
      case (Some x)
      then obtain rl es where t: "take_out P (snd (migrating_slots chunk)) = Some (rl, es)" by (cases x) auto
      then obtain es1 e es2 where "snd (migrating_slots chunk) = es1 @ e # es2" "P e" "rl = mr_range_list e" "es = es1 @ es2"
        by (rule take_out_Some)
      with t n0 show ?thesis
        by (intro exI [of _ 0] exI [of _ 1] exI [of _ es1] exI [of _ e] exI [of _ es2]) (simp add: arr2_modify_def)
    next
      case None
      with n0 have "\<not> (\<exists>e \<in> set (chunk_entries chunk). P e)"
        unfolding take_out_None chunk_entries_eq by auto
      with Cons.prems have "\<exists>e \<in> set (all_entries chunks). P e" by auto
      from Cons.IH [OF this] obtain i j es1 e es2 where "i < length chunks" "j < 2" "P e"
        "part j (migrating_slots (chunks ! i)) = es1 @ e # es2"
        "settle_import P chunks = chunks[i := (chunks ! i)\<lparr>
          migrating_slots := arr2_modify j (\<lambda>_. es1 @ es2) (migrating_slots (chunks ! i)),
          stable_slots := arr2_modify j (put_stable (mr_range_list e)) (stable_slots (chunks ! i))\<rparr>]" by blast
      with None n0 show ?thesis
        by (intro exI [of _ "Suc i"] exI [of _ j] exI [of _ es1] exI [of _ e] exI [of _ es2]) simp
    qed
  qed
qed simp


lemma put_stable_merge: "rl_inv rl \<Longrightarrow> put_stable rl s = stable_merge_slots rl s"
  by (cases s) (simp_all add: merge_another_def)

lemma arr2_modify_keys:
  assumes "j < 2" "part j p = es1 @ e # es2"
  shows "mset (fst p) + mset (snd p) = add_mset e (mset (fst (arr2_modify j (\<lambda>_. es1 @ es2) p)) + mset (snd (arr2_modify j (\<lambda>_. es1 @ es2) p)))"
  using assms by (auto simp: less_2_cases_iff arr2_modify_def part_def)

lemma settled:
  fixes chunks i j es1 es2 e
  defines "chunk' \<equiv> (chunks ! i)\<lparr>migrating_slots := arr2_modify j (\<lambda>_. es1 @ es2) (migrating_slots (chunks ! i)),
      stable_slots := arr2_modify j (put_stable (mr_range_list e)) (stable_slots (chunks ! i))\<rparr>"
  defines "chunks' \<equiv> chunks[i := chunk']"
  assumes ok: "chunks_ok chunks" and ij: "i < length chunks" "j < 2"
    and es: "part j (migrating_slots (chunks ! i)) = es1 @ e # es2" and e: "\<not> mr_is_migrating e"
    and dis: "set (rl_slots (mr_range_list e)) \<inter> set (opt_slots (part j (stable_slots (chunks ! i)))) = {}"
  shows "chunks_ok chunks'" "stable_total chunks' = stable_total chunks + mset (rl_slots (mr_range_list e))"
    "chunks_keys True chunks' = chunks_keys True chunks" "chunks_keys False chunks = add_mset (mr_key e) (chunks_keys False chunks')"
    "same_load chunks chunks'" "members_of chunks' = members_of chunks" "nonempty_stable chunks \<Longrightarrow> nonempty_stable chunks'"
    and "k < length chunks \<Longrightarrow> l < 2 \<Longrightarrow> mset (opt_slots (part l (stable_slots (chunks' ! k)))) =
      mset (opt_slots (part l (stable_slots (chunks ! k)))) + (if (k, l) = (i, j) then mset (rl_slots (mr_range_list e)) else {#})"
proof -
  let ?s = "part j (stable_slots (chunks ! i))" and ?rl = "mr_range_list e"
  have ci: "chunk_ok (length chunks) i (chunks ! i)" using ok ij by (simp add: chunks_ok_def)
  then have eo: "entry_ok (length chunks) i j e" and so: "stable_ok ?s" using ij es by (auto simp: chunk_ok_def)
  then have rl: "rl_inv ?rl" "?rl \<noteq> []" by (simp_all add: entry_ok_def)
  note put = put_stable_merge [OF rl(1)]
  have ms: "mset (opt_slots (put_stable ?rl ?s)) = mset (opt_slots ?s) + mset (rl_slots ?rl)"
    unfolding put by (rule stable_merge_mset [OF rl(1) so dis])
  have nth: "chunks' ! k = (if k = i then chunk' else chunks ! k)" if "k < length chunks" for k
    using that ij by (simp add: chunks'_def nth_list_update)
  have len: "length chunks' = length chunks" by (simp add: chunks'_def)
  have "chunk_ok (length chunks) i chunk'"
    using ci so es ij by (auto simp: chunk_ok_def chunk'_def part_arr2_modify put stable_merge_ok rl(1))
  then show "chunks_ok chunks'" using ok nth len by (auto simp: chunks_ok_def)
  have "stable_mset (stable_slots chunk') = stable_mset (stable_slots (chunks ! i)) + mset (rl_slots ?rl)"
    unfolding stable_mset_def chunk'_def using arr2_modify_other_sum [where g = "\<lambda>s. mset (opt_slots s)", OF ij(2)] ms by simp
  then show "stable_total chunks' = stable_total chunks + mset (rl_slots ?rl)"
    unfolding stable_total_def chunks'_def by (intro sum_list_map_update_add ij(1))
  have mm: "mset (chunk_entries (chunks ! i)) = add_mset e (mset (chunk_entries chunk'))"
    using arr2_modify_keys [OF ij(2) es] by (simp add: chunk_entries_eq chunk'_def)
  have "keys_of True (chunk_entries chunk') = keys_of True (chunk_entries (chunks ! i))"
    using e by (simp add: keys_of_mset mm)
  then show "chunks_keys True chunks' = chunks_keys True chunks"
    unfolding chunks_keys_def chunks'_def by (intro sum_list_map_update_same ij(1))
  have "keys_of False (chunk_entries (chunks ! i)) = keys_of False (chunk_entries chunk') + {#mr_key e#}"
    using e by (simp add: keys_of_mset mm)
  then show "chunks_keys False chunks = add_mset (mr_key e) (chunks_keys False chunks')"
    using sum_list_map_update [OF ij(1), of "\<lambda>chunk. keys_of False (chunk_entries chunk)" chunk']
    unfolding chunks_keys_def chunks'_def by simp
  show "k < length chunks \<Longrightarrow> l < 2 \<Longrightarrow> mset (opt_slots (part l (stable_slots (chunks' ! k)))) =
      mset (opt_slots (part l (stable_slots (chunks ! k)))) + (if (k, l) = (i, j) then mset (rl_slots ?rl) else {#})"
    using ms ij by (auto simp: nth chunk'_def part_arr2_modify)
  have "length (opt_slots (put_stable ?rl ?s)) = length (opt_slots ?s) + length (rl_slots ?rl)"
    using arg_cong [OF ms, of size] by simp
  then have "part_load chunks' k l = part_load chunks k l" if "k < length chunks" "l < 2" for k l
    using that es e ij by (auto simp: part_load_def nth chunk'_def part_arr2_modify)
  then show "same_load chunks chunks'" by (simp add: same_load_def len)
  have "map chunk_members chunks' = map chunk_members chunks"
    by (rule nth_equalityI) (simp_all add: len nth chunk'_def chunk_members_def)
  then show "members_of chunks' = members_of chunks" by (simp add: members_of_def)
  show "nonempty_stable chunks'" if "nonempty_stable chunks"
    using that ms rl_slots_nonempty [OF rl] ij unfolding nonempty_stable_def len
    by (auto simp: nth chunk'_def part_arr2_modify)
qed


subsection \<open>The commit\<close>

definition chunk_out_keys :: "chunk_store \<Rightarrow> migration_key list" where
  "chunk_out_keys chunk = map mr_key (filter mr_is_migrating (chunk_entries chunk))"

lemma out_keys_list_eq: "out_keys_list chunks = concat (map chunk_out_keys chunks)"
  by (induction chunks) (simp_all add: out_keys_list_def chunk_out_keys_def)

lemma out_keys_retain:
  "out_keys_list (map (retain_entries (\<lambda>e. \<not> (mr_is_migrating e \<and> mr_range_list e = rl \<and> mr_meta e = meta))) chunks)
    = filter (\<lambda>k. k \<noteq> (rl, meta)) (out_keys_list chunks)"
proof -
  define P :: "migration_slot_range_store \<Rightarrow> bool"
    where "P = (\<lambda>e. \<not> (mr_is_migrating e \<and> mr_range_list e = rl \<and> mr_meta e = meta))"
  have "map mr_key (filter mr_is_migrating (filter P es)) = filter (\<lambda>k. k \<noteq> (rl, meta)) (map mr_key (filter mr_is_migrating es))" for es
    by (induction es) (auto simp: mr_key_def P_def)
  then have "chunk_out_keys (retain_entries P chunk) = filter (\<lambda>k. k \<noteq> (rl, meta)) (chunk_out_keys chunk)" for chunk
    by (simp add: chunk_out_keys_def chunk_entries_eq retain_entries_def)
  then show ?thesis unfolding out_keys_list_eq P_def [symmetric]
    by (induction chunks) simp_all
qed

lemma slots_inv_distinct_out:
  assumes "slots_inv T chunks" "uniq T"
  shows "distinct (out_keys_list chunks)"
proof -
  have u: "chunks_ok chunks" "uniq (owned chunks)" using assms by (simp_all add: slots_inv_def)
  have "count (chunks_keys True chunks) k \<le> 1" for k
  proof (cases "k \<in># chunks_keys True chunks")
    case True
    from arg_cong [OF migrating_key_once(1) [OF u True], of "\<lambda>M. count M k"] show ?thesis by simp
  next
    case False
    then have "count (chunks_keys True chunks) k = 0" by (simp add: not_in_iff)
    then show ?thesis by simp
  qed
  then have "count (mset (out_keys_list chunks)) k \<le> 1" for k unfolding mset_out_keys_list .
  then have "count (mset (out_keys_list chunks)) k = (if k \<in> set (out_keys_list chunks) then 1 else 0)" for k
    by (metis One_nat_def count_mset_0_iff le_0_eq le_SucE)
  then show ?thesis by (simp add: distinct_count_atmost_1)
qed

lemma commit_chunks_correct:
  assumes inv: "slots_inv T chunks" and T: "uniq T" and k: "(rl, meta) \<in># chunks_keys True chunks"
    and chunks': "chunks' = commit_chunks rl meta chunks"
  shows "slots_inv T chunks'" "same_load chunks chunks'" "members_of chunks' = members_of chunks"
    "nonempty_stable chunks \<Longrightarrow> nonempty_stable chunks'"
    "chunks_keys b chunks = add_mset (rl, meta) (chunks_keys b chunks')"
    "out_keys_list chunks' = remove1 (rl, meta) (out_keys_list chunks)"
    and "i' < length chunks \<Longrightarrow> j' < 2 \<Longrightarrow> mset (opt_slots (part j' (stable_slots (chunks' ! i')))) =
      mset (opt_slots (part j' (stable_slots (chunks ! i')))) +
      (if (i', j') = (dst_chunk_index meta, dst_chunk_part meta) then mset (rl_slots rl) else {#})"
proof -
  let ?R = "\<lambda>e. \<not> (mr_is_migrating e \<and> mr_range_list e = rl \<and> mr_meta e = meta)"
  let ?P = "\<lambda>e. \<not> mr_is_migrating e \<and> mr_meta e = meta \<and> mr_range_list e = rl"
  define chunks1 where "chunks1 = map (retain_entries ?R) chunks"
  note r = retain_spec [where chunks = chunks and rl = rl and meta = meta, folded chunks1_def]
  have ok: "chunks_ok chunks" "mirrored chunks" "uniq (owned chunks)" "owned chunks = T" using inv T by (simp_all add: slots_inv_def)
  have kT: "chunks_keys True chunks1 = chunks_keys True chunks - {#(rl, meta)#}"
    using r(3) migrating_key_once(1) [OF ok(1,3) k] by simp
  have "(rl, meta) \<in># chunks_keys False chunks1" using k ok(2) r(4) by (simp add: mirrored_def)
  then have "\<exists>e \<in> set (all_entries chunks1). ?P e" by (auto simp: chunks_keys_all keys_of_def mr_key_def)
  from settle_import_spec [OF this] obtain i j es1 e es2 where
    s: "i < length chunks1" "j < 2" "?P e" "part j (migrating_slots (chunks1 ! i)) = es1 @ e # es2"
      "settle_import ?P chunks1 = chunks1[i := (chunks1 ! i)\<lparr>
        migrating_slots := arr2_modify j (\<lambda>_. es1 @ es2) (migrating_slots (chunks1 ! i)),
        stable_slots := arr2_modify j (put_stable (mr_range_list e)) (stable_slots (chunks1 ! i))\<rparr>]" by blast
  have e: "mr_key e = (rl, meta)" "mr_range_list e = rl" "\<not> mr_is_migrating e" using s(3) by (simp_all add: mr_key_def)
  have "owned chunks = stable_total chunks1 + (mset (rl_slots rl) + sum_mset (image_mset (\<lambda>k. mset (rl_slots (fst k))) (chunks_keys True chunks1)))"
  proof -
    obtain K where K: "chunks_keys True chunks = add_mset (rl, meta) K" using k by (meson multi_member_split)
    show ?thesis using K by (simp add: owned_keys [of chunks] kT r(2))
  qed
  note ow = this
  have "set (opt_slots (part j (stable_slots (chunks1 ! i)))) \<subseteq> set_mset (stable_total chunks1)"
  proof -
    obtain q where "stable_total chunks1 = stable_mset (stable_slots (chunks1 ! i)) + q"
      unfolding stable_total_def using sum_list_map_split [OF s(1), of "\<lambda>chunk. stable_mset (stable_slots chunk)"] by blast
    then show ?thesis using stable_part_subset [OF s(2), of "stable_slots (chunks1 ! i)"] by auto
  qed
  moreover have "x \<notin># stable_total chunks1" if "x \<in> set (rl_slots rl)" for x
    using uniq_disjoint [OF ok(3) [unfolded ow], of x] that by auto
  ultimately have dis: "set (rl_slots (mr_range_list e)) \<inter> set (opt_slots (part j (stable_slots (chunks1 ! i)))) = {}"
    using e(2) by blast
  note c = settled [OF r(1) [OF ok(1)] s(1,2,4) e(3) dis, folded s(5)]
  have ch: "chunks' = settle_import ?P chunks1"
    using compact_slots_id [OF c(1)] by (simp add: chunks' commit_chunks_def Let_def chunks1_def)
  have ij: "(i, j) = (dst_chunk_index meta, dst_chunk_part meta)"
  proof -
    have "e \<in> set (part j (migrating_slots (chunks1 ! i)))" using s(4) by simp
    then have "entry_ok (length chunks1) i j e" using r(1) [OF ok(1)] s(1,2) unfolding chunks_ok_def chunk_ok_def by blast
    with e(1,3) show ?thesis by (simp add: entry_ok_def mr_key_def)
  qed
  show "mset (opt_slots (part j' (stable_slots (chunks' ! i')))) = mset (opt_slots (part j' (stable_slots (chunks ! i')))) +
      (if (i', j') = (dst_chunk_index meta, dst_chunk_part meta) then mset (rl_slots rl) else {#})" if "i' < length chunks" "j' < 2"
  proof -
    have "stable_slots (chunks1 ! i') = stable_slots (chunks ! i')" using that by (simp add: chunks1_def retain_entries_def)
    moreover have "i' < length chunks1" using that by (simp add: chunks1_def)
    ultimately show ?thesis using c(8) [of i' j'] that e(2) ij by (simp add: ch)
  qed
  have "owned chunks' = T"
    using ow c(2,3) ok(4) e(2) by (simp add: ch owned_keys [of "settle_import _ _"] ac_simps)
  moreover have kb: "chunks_keys b chunks = add_mset (rl, meta) (chunks_keys b chunks')" for b
    using kT k c(3,4) e(1) r(4) by (cases b) (auto simp: ch)
  moreover have "mirrored chunks'" using kb [of True] kb [of False] ok(2) by (simp add: mirrored_def)
  ultimately show "slots_inv T chunks'" "chunks_keys b chunks = add_mset (rl, meta) (chunks_keys b chunks')"
    using c(1) by (simp_all add: slots_inv_def ch)
  show "same_load chunks chunks'" using r(5) c(5) by (simp add: same_load_def ch)
  show "members_of chunks' = members_of chunks" using r(6) c(6) by (simp add: ch)
  show "nonempty_stable chunks'" if ne: "nonempty_stable chunks"
  proof -
    have "stable_slots (chunks1 ! k) = stable_slots (chunks ! k)" if "k < length chunks" for k
      using that by (simp add: chunks1_def retain_entries_def)
    then have "nonempty_stable chunks1" using ne by (simp add: nonempty_stable_def chunks1_def)
    then show ?thesis using c(7) by (simp add: ch)
  qed
  have "out_keys_list chunks' = out_keys_list chunks1"
  proof -
    have "chunk_out_keys ((chunks1 ! i)\<lparr>migrating_slots := arr2_modify j (\<lambda>_. es1 @ es2) (migrating_slots (chunks1 ! i)),
        stable_slots := arr2_modify j (put_stable (mr_range_list e)) (stable_slots (chunks1 ! i))\<rparr>) = chunk_out_keys (chunks1 ! i)"
      using s(2,4) e(3) by (auto simp: chunk_out_keys_def chunk_entries_eq arr2_modify_def less_2_cases_iff)
    then have "map chunk_out_keys chunks' = map chunk_out_keys chunks1"
      unfolding ch s(5) map_update by (metis list_update_id map_update)
    then show ?thesis by (simp add: out_keys_list_eq)
  qed
  also have "\<dots> = filter (\<lambda>k. k \<noteq> (rl, meta)) (out_keys_list chunks)" unfolding chunks1_def by (rule out_keys_retain)
  also have "\<dots> = remove1 (rl, meta) (out_keys_list chunks)"
    using slots_inv_distinct_out [OF inv T] by (auto simp: distinct_remove1_removeAll removeAll_filter_not_eq intro!: filter_cong)
  finally show "out_keys_list chunks' = remove1 (rl, meta) (out_keys_list chunks)" .
qed

end
