(* ===== verification/UM_Broker.thy ===== *)
theory UM_Broker
  imports UM_Commit
begin

section \<open>The broker (src/broker/store.rs, storage.rs, resource.rs)\<close>

text \<open>
  The public operations of \<open>MetaStore\<close>, the \<open>MetaStorage\<close> interface the HTTP service
  uses, and its implementation \<open>MemoryStorage\<close>: every request takes the lock of the store,
  so a run of the broker is a sequence of requests. The states a run reaches satisfy the store's
  invariant: a consistent registry, and clusters whose slots are partitioned and balanced.
\<close>


subsection \<open>MetaStore\<close>

definition meta_store_new :: "bool \<Rightarrow> meta_store" where
  "meta_store_new ordered =
     \<lparr>version = UNDERMOON_MEM_BROKER_META_VERSION, global_epoch = 0, clusters = [], all_proxies = [],
      failed_proxies = [], failures = [], enable_ordered_proxy = ordered\<rparr>"

definition restore :: "meta_store \<Rightarrow> meta_store \<Rightarrow> unit result" where
  "restore other s =
     (if version s \<noteq> version other then (Err InvalidMetaVersion, s)
      else if global_epoch s > global_epoch other then (Err SmallEpoch, s)
      else (Ok (), other))"

definition meta_commit_migration :: "migration_task_meta \<Rightarrow> bool \<Rightarrow> meta_store \<Rightarrow> unit result" where
  "meta_commit_migration task clear_free_nodes s =
     (case commit_migration task s of
        (Ok _, s1) \<Rightarrow>
          if clear_free_nodes then auto_delete_free_nodes_if_exists (mt_cluster_name task) s1 else (Ok (), s1)
      | r \<Rightarrow> r)"

text \<open>The part of \<open>auto_change_node_number\<close> after the free nodes are gone.\<close>

definition change_node_number :: "string \<Rightarrow> cluster_name \<Rightarrow> usize \<Rightarrow> meta_store \<Rightarrow> (scale_op \<times> address list \<times> epoch) result" where
  "change_node_number cluster_name name expected_num s =
     (case hm_get (clusters s) name of
        None \<Rightarrow> (Err ClusterNotFound, s)
      | Some c \<Rightarrow>
          (let existing_node_num = length (cs_chunks c) * CHUNK_NODE_NUM;
               (res, s1) =
                 (if existing_node_num = expected_num then (Ok NoOp, s)
                  else if existing_node_num < expected_num
                  then (let (r, s') = auto_scale_up_nodes cluster_name expected_num s in (map_outcome (\<lambda>_. ScaleOut) r, s'))
                  else (let (r, s') = migrate_slots_to_scale_down cluster_name expected_num s in (map_outcome (\<lambda>_. ScaleDown) r, s')))
           in case res of
                Err e \<Rightarrow> (Err e, s1)
              | Panic \<Rightarrow> (Panic, s1)
              | Ok op \<Rightarrow>
                  (case hm_get (clusters s1) name of
                     None \<Rightarrow> (Err ClusterNotFound, s1)
                   | Some c' \<Rightarrow> (Ok (op, cs_get_proxy_addresses c', cs_epoch c'), s1))))"

definition auto_change_node_number :: "string \<Rightarrow> usize \<Rightarrow> meta_store \<Rightarrow> (scale_op \<times> address list \<times> epoch) result" where
  "auto_change_node_number cluster_name expected_num s =
     (case cluster_name_try_from cluster_name of
        None \<Rightarrow> (Err InvalidClusterName, s)
      | Some name \<Rightarrow>
          (case hm_get (clusters s) name of
             None \<Rightarrow> (Err ClusterNotFound, s)
           | Some c \<Rightarrow>
               if cs_is_migrating c then (Err MigrationRunning, s)
               else
                 (case auto_delete_free_nodes cluster_name s of
                    (Panic, s1) \<Rightarrow> (Panic, s1)
                  | (Err e, s1) \<Rightarrow>
                      if e \<noteq> FreeNodeNotFound then (Err e, s1) else change_node_number cluster_name name expected_num s1
                  | (Ok _, s1) \<Rightarrow> change_node_number cluster_name name expected_num s1)))"

definition auto_scale_out_node_number :: "string \<Rightarrow> usize \<Rightarrow> meta_store \<Rightarrow> unit result" where
  "auto_scale_out_node_number cluster_name expected_num s =
     (case cluster_name_try_from cluster_name of
        None \<Rightarrow> (Err InvalidClusterName, s)
      | Some name \<Rightarrow>
          (case hm_get (clusters s) name of
             None \<Rightarrow> (Err ClusterNotFound, s)
           | Some c \<Rightarrow>
               if cs_get_node_number_with_slots c \<ge> expected_num then (Ok (), s)
               else migrate_slots cluster_name s))"

definition get_failed_proxies :: "meta_store \<Rightarrow> address list" where
  "get_failed_proxies s = failed_proxies s"

definition set_all_epochs :: "epoch \<Rightarrow> meta_store \<Rightarrow> meta_store" where
  "set_all_epochs new_epoch s =
     s\<lparr>global_epoch := new_epoch, clusters := hm_map_values (\<lambda>c. c\<lparr>cs_epoch := new_epoch\<rparr>) (clusters s)\<rparr>"

definition force_bump_all_epoch :: "epoch \<Rightarrow> meta_store \<Rightarrow> unit result" where
  "force_bump_all_epoch new_epoch s =
     (if new_epoch \<le> global_epoch s then (Err SmallEpoch, s) else (Ok (), set_all_epochs new_epoch s))"

definition recover_epoch :: "epoch \<Rightarrow> meta_store \<Rightarrow> meta_store" where
  "recover_epoch existing_largest_epoch s = set_all_epochs (max existing_largest_epoch (global_epoch s + 1)) s"

definition meta_check :: "meta_store \<Rightarrow> meta_store option" where
  "meta_check s = (if check_metadata s then None else Some s)"


subsection \<open>MetaStorage and MemoryStorage\<close>

datatype storage_request =
    GetAllMetadata
  | RestoreMetadata meta_store
  | GetClusterNames "usize option" "usize option"
  | GetClusterByName string "64 word"
  | GetProxyAddresses "usize option" "usize option"
  | GetProxyByAddress address "64 word"
  | GetFailures "int \<Rightarrow> bool" "64 word"
  | AddFailure int address string
  | ReplaceFailedProxy address "64 word"
  | CommitMigration migration_task_meta bool
  | GetFailedProxies
  | GetClusterInfoByName string "64 word"
  | AddCluster string usize cluster_config
  | RemoveCluster string
  | AutoAddNodes string usize
  | AutoScaleUpNodes string usize
  | AutoDeleteFreeNodes string
  | MigrateSlotsToScaleDown string usize
  | MigrateSlots string
  | AutoChangeNodeNumber string usize
  | AutoScaleOutNodeNumber string usize
  | ChangeConfig string "(string \<times> string) list"
  | BalanceMasters string
  | AddProxy address "address arr2" "string option" "usize option"
  | RemoveProxy address
  | GetGlobalEpoch
  | RecoverEpoch epoch
  | ForceBumpAllEpoch epoch
  | CheckMetadata

datatype storage_reply =
    RUnit
  | RMeta meta_store
  | RNames "cluster_name list"
  | RCluster "cluster option"
  | RAddresses "address list"
  | RProxy "proxy option"
  | RInfo "cluster_info option"
  | RNodes "node list"
  | RScale scale_op "address list" epoch
  | REpoch epoch
  | RCheck "meta_store option"

definition reply :: "('a \<Rightarrow> storage_reply) \<Rightarrow> 'a result \<Rightarrow> storage_reply result" where
  "reply f r = (map_outcome f (fst r), snd r)"

text \<open>A query reads under the lock and changes nothing; None is a panic.\<close>

definition answer :: "storage_reply option \<Rightarrow> meta_store \<Rightarrow> storage_reply result" where
  "answer r s = (case r of None \<Rightarrow> (Panic, s) | Some x \<Rightarrow> (Ok x, s))"

fun memory_storage :: "storage_request \<Rightarrow> meta_store \<Rightarrow> storage_reply result" where
  "memory_storage GetAllMetadata s = (Ok (RMeta s), s)"
| "memory_storage (RestoreMetadata m) s = reply (\<lambda>_. RUnit) (restore m s)"
| "memory_storage (GetClusterNames offset limit) s = (Ok (RNames (get_cluster_names_with_pagination s offset limit)), s)"
| "memory_storage (GetClusterByName name limit) s = answer (map_option RCluster (get_cluster_by_name s name limit)) s"
| "memory_storage (GetProxyAddresses offset limit) s = (Ok (RAddresses (get_proxies_with_pagination s offset limit)), s)"
| "memory_storage (GetProxyByAddress address limit) s = answer (map_option RProxy (get_proxy_by_address s address limit)) s"
| "memory_storage (GetFailures within_ttl quorum) s = (let (failed, s') = get_failures within_ttl quorum s in (Ok (RAddresses failed), s'))"
| "memory_storage (AddFailure now address reporter_id) s = (Ok RUnit, snd (add_failure now address reporter_id s))"
| "memory_storage (ReplaceFailedProxy address limit) s = reply RProxy (replace_failed_proxy address limit s)"
| "memory_storage (CommitMigration task clear_free_nodes) s = reply (\<lambda>_. RUnit) (meta_commit_migration task clear_free_nodes s)"
| "memory_storage GetFailedProxies s = (Ok (RAddresses (get_failed_proxies s)), s)"
| "memory_storage (GetClusterInfoByName name limit) s = answer (map_option RInfo (get_cluster_info_by_name s name limit)) s"
| "memory_storage (AddCluster name node_num config) s = reply (\<lambda>_. RUnit) (add_cluster name node_num config s)"
| "memory_storage (RemoveCluster name) s = reply (\<lambda>_. RUnit) (remove_cluster name s)"
| "memory_storage (AutoAddNodes name num) s = reply RNodes (auto_add_nodes name num s)"
| "memory_storage (AutoScaleUpNodes name num) s = reply RNodes (auto_scale_up_nodes name num s)"
| "memory_storage (AutoDeleteFreeNodes name) s = reply (\<lambda>_. RUnit) (auto_delete_free_nodes name s)"
| "memory_storage (MigrateSlotsToScaleDown name num) s = reply (\<lambda>_. RUnit) (migrate_slots_to_scale_down name num s)"
| "memory_storage (MigrateSlots name) s = reply (\<lambda>_. RUnit) (migrate_slots name s)"
| "memory_storage (AutoChangeNodeNumber name num) s = reply (\<lambda>(op, addresses, epoch). RScale op addresses epoch) (auto_change_node_number name num s)"
| "memory_storage (AutoScaleOutNodeNumber name num) s = reply (\<lambda>_. RUnit) (auto_scale_out_node_number name num s)"
| "memory_storage (ChangeConfig name config) s = reply (\<lambda>_. RUnit) (change_config name config s)"
| "memory_storage (BalanceMasters name) s = reply (\<lambda>_. RUnit) (balance_masters name s)"
| "memory_storage (AddProxy address nodes host index) s = reply (\<lambda>_. RUnit) (add_proxy address nodes host index s)"
| "memory_storage (RemoveProxy address) s = reply (\<lambda>_. RUnit) (remove_proxy address s)"
| "memory_storage GetGlobalEpoch s = (Ok (REpoch (global_epoch s)), s)"
| "memory_storage (RecoverEpoch epoch) s = (Ok RUnit, recover_epoch (epoch + 1) s)"
| "memory_storage (ForceBumpAllEpoch epoch) s = reply (\<lambda>_. RUnit) (force_bump_all_epoch epoch s)"
| "memory_storage CheckMetadata s = (Ok (RCheck (meta_check s)), s)"


subsection \<open>ResourceChecker\<close>

text \<open>The proxies of every host, then: can all proxies of one host be replaced one after the other?\<close>

definition proxy_map :: "meta_store \<Rightarrow> (string, address list) hashmap" where
  "proxy_map s =
     fold (\<lambda>(a, pr) m. hm_modify (pr_host pr) (\<lambda>as. as @ [a]) (hm_or_insert (pr_host pr) [] m)) (all_proxies s) []"

fun check_failure_tolerance_for_one_host :: "address list \<Rightarrow> 64 word \<Rightarrow> meta_store \<Rightarrow> bool outcome" where
  "check_failure_tolerance_for_one_host [] limit s = Ok True"
| "check_failure_tolerance_for_one_host (a # as) limit s =
     (case replace_failed_proxy a limit s of
        (Ok _, s') \<Rightarrow> check_failure_tolerance_for_one_host as limit s'
      | (Panic, _) \<Rightarrow> Panic
      | (Err e, _) \<Rightarrow> if e = NoAvailableResource then Ok False else Err e)"

fun check_hosts :: "meta_store \<Rightarrow> 64 word \<Rightarrow> (string \<times> address list) list \<Rightarrow> string list outcome" where
  "check_hosts s limit [] = Ok []"
| "check_hosts s limit ((host, as) # rest) =
     (case check_failure_tolerance_for_one_host as limit s of
        Panic \<Rightarrow> Panic
      | Err e \<Rightarrow> Err e
      | Ok enough \<Rightarrow> map_outcome (\<lambda>hosts. if enough then hosts else host # hosts) (check_hosts s limit rest))"

definition check_failure_tolerance :: "64 word \<Rightarrow> meta_store \<Rightarrow> string list outcome" where
  "check_failure_tolerance migration_limit s = check_hosts s migration_limit (proxy_map s)"

end
