(* ===== verification/UM_Reach.thy ===== *)
theory UM_Reach
  imports UM_Broker
begin

section \<open>What every run of the broker keeps\<close>

text \<open>
  The abstract life of a cluster is a step relation on its chunks. Every request of the storage
  interface changes every cluster by steps of this relation only, keeps the registry consistent,
  and never panics; the invariant of the steps is that all slots are owned once and the load is
  balanced. Reachability closes the states under all requests, under restoring the snapshot of
  another reachable store, and under reordering the hash maps, whose iteration order the program
  does not control. The size bound (at most \<open>max_chunks\<close> chunks, 360 nodes, per cluster) is
  what the arithmetic of \<open>remove_slots_from_src_to_scale_down\<close> needs.
\<close>

definition max_chunks :: nat where
  "max_chunks = 90"


subsection \<open>The life of a cluster\<close>

definition free_chunk :: "chunk_store \<Rightarrow> bool" where
  "free_chunk chunk \<longleftrightarrow> stable_slots chunk = (None, None) \<and> migrating_slots chunk = ([], [])"

inductive chunks_step :: "chunk_store list \<Rightarrow> chunk_store list \<Rightarrow> bool" where
  step_relabel: "map slot_part ys = map slot_part xs \<Longrightarrow> chunks_step xs ys"
| step_reset: "chunks_step xs (map (map_entries (reset_epoch e P)) xs)"
| step_add_free: "\<forall>chunk \<in> set ys. free_chunk chunk \<Longrightarrow> chunks_step xs (xs @ ys)"
| step_drop_free: "idle xs \<Longrightarrow> length xs \<le> max_chunks \<Longrightarrow> chunks_step xs (filter chunk_has_slots xs)"
| step_scale_out: "idle xs \<Longrightarrow> \<exists>chunk \<in> set xs. fst (stable_slots chunk) = None \<or> snd (stable_slots chunk) = None \<Longrightarrow>
    length xs \<le> max_chunks \<Longrightarrow> remove_slots_from_src e xs = Some (ys, ms) \<Longrightarrow> assign_dst_slots ms ys = Some zs \<Longrightarrow>
    chunks_step xs zs"
| step_scale_down: "idle xs \<Longrightarrow> \<forall>chunk \<in> set xs. fst (stable_slots chunk) \<noteq> None \<and> snd (stable_slots chunk) \<noteq> None \<Longrightarrow>
    length xs \<le> max_chunks \<Longrightarrow> 0 < n \<Longrightarrow> n < length xs \<Longrightarrow>
    remove_slots_from_src_to_scale_down e n xs = Some (ys, ms) \<Longrightarrow> assign_dst_slots ms ys = Some zs \<Longrightarrow> chunks_step xs zs"
| step_commit: "(rl, meta) \<in># chunks_keys True xs \<Longrightarrow> chunks_step xs (commit_chunks rl meta xs)"

lemma part_load_slot_part:
  assumes "map slot_part ys = map slot_part xs" "k < length xs"
  shows "part_load ys k j = part_load xs k j" "stable_slots (ys ! k) = stable_slots (xs ! k)"
proof -
  have "length ys = length xs" using arg_cong [OF assms(1), of length] by simp
  moreover have "map slot_part ys ! k = map slot_part xs ! k" using assms(1) by simp
  ultimately have "slot_part (ys ! k) = slot_part (xs ! k)" using assms(2) by simp
  then show "part_load ys k j = part_load xs k j" "stable_slots (ys ! k) = stable_slots (xs ! k)"
    by (simp_all add: slot_part_def part_load_def)
qed

lemma steady_relabel:
  assumes "map slot_part ys = map slot_part xs" "steady n xs"
  shows "steady n ys"
proof -
  have "length ys = length xs" using arg_cong [OF assms(1), of length] by simp
  with assms slot_part_cong(4) [OF assms(1)] part_load_slot_part [OF assms(1)] show ?thesis
    by (auto simp: steady_def nonempty_stable_def balanced_def)
qed

lemma steady_reset: "steady n xs \<Longrightarrow> steady n (map (map_entries (reset_epoch e P)) xs)"
proof -
  assume s: "steady n xs"
  have im: "import_load (map (reset_epoch e P) es) = import_load es" for es by (induction es) simp_all
  have "part_load (map (map_entries (reset_epoch e P)) xs) k j = part_load xs k j" if "k < length xs" "j < 2" for k j
    using that by (auto simp: part_load_def map_entries_def im less_2_cases_iff)
  moreover have "stable_slots (map (map_entries (reset_epoch e P)) xs ! k) = stable_slots (xs ! k)" if "k < length xs" for k
    using that by (simp add: map_entries_def)
  ultimately show ?thesis
    using s reset_epochs_inv(1) by (auto simp: steady_def nonempty_stable_def balanced_def)
qed

lemma free_chunks_owned:
  assumes "\<forall>chunk \<in> set ys. free_chunk chunk"
  shows "owned ys = {#}" "chunks_keys b ys = {#}"
  using assms by (induction ys) (auto simp: owned_def chunk_owned_def chunks_keys_def chunk_entries_eq free_chunk_def stable_mset_def)

lemma owned_append [simp]: "owned (xs @ ys) = owned xs + owned ys" "chunks_keys b (xs @ ys) = chunks_keys b xs + chunks_keys b ys"
  by (simp_all add: owned_def chunks_keys_def)

lemma steady_add_free:
  assumes "\<forall>chunk \<in> set ys. free_chunk chunk" "steady n xs"
  shows "steady n (xs @ ys)"
proof -
  have f: "free_chunk (ys ! k)" if "k < length ys" for k using assms(1) that by simp
  have "chunks_ok (xs @ ys)"
    using assms by (intro chunks_ok_append_free) (auto simp: steady_def slots_inv_def free_chunk_def)
  then have "slots_inv all_slots (xs @ ys)"
    using assms free_chunks_owned [OF assms(1)] by (simp add: steady_def slots_inv_def mirrored_def)
  moreover have "part_load (xs @ ys) k j = (if k < length xs then part_load xs k j else 0)" if "k < length (xs @ ys)" "j < 2" for k j
    using that f [of "k - length xs"] by (auto simp: part_load_def nth_append free_chunk_def part_def)
  moreover have "nonempty_stable (xs @ ys)"
    using assms(2) f [of "_ - length xs"] by (auto simp: nonempty_stable_def nth_append steady_def free_chunk_def part_def)
  ultimately show ?thesis using assms(2) by (auto simp: steady_def balanced_def)
qed

lemma filter_prefix: "(\<And>k. k < length xs \<Longrightarrow> P (xs ! k) \<longleftrightarrow> k < n) \<Longrightarrow> filter P xs = take n xs"
proof (induction xs arbitrary: n)
  case (Cons x xs)
  show ?case
  proof (cases n)
    case 0
    then have "\<not> P y" if "y \<in> set (x # xs)" for y using that Cons.prems by (metis in_set_conv_nth not_less_zero)
    with 0 show ?thesis by (simp add: filter_empty_conv)
  next
    case (Suc m)
    have "P x" using Cons.prems [of 0] Suc by simp
    moreover have "filter P xs = take m xs" by (rule Cons.IH) (use Cons.prems [of "Suc _"] Suc in auto)
    ultimately show ?thesis by (simp add: Suc)
  qed
qed simp

lemma steady_small: "steady n xs \<Longrightarrow> length xs \<le> max_chunks \<Longrightarrow> 2 * n \<le> SLOT_NUM \<and> 2 * length xs \<le> SLOT_NUM"
  by (auto simp: steady_def balanced_def max_chunks_def SLOT_NUM_def)

lemma steady_drop_free:
  assumes st: "steady n xs" and idle: "idle xs" and small: "length xs \<le> max_chunks"
  shows "filter chunk_has_slots xs = take n xs" "steady n (take n xs)"
proof -
  have n: "0 < n" "n \<le> length xs" "2 * n \<le> SLOT_NUM" using st steady_small [OF st small] by (auto simp: steady_def balanced_def)
  note part = steady_idle_part [OF st idle n(3)]
  show "filter chunk_has_slots xs = take n xs"
  proof (rule filter_prefix)
    fix k assume k: "k < length xs"
    show "chunk_has_slots (xs ! k) \<longleftrightarrow> k < n"
      using part(2) [OF k, of 0] part(2) [OF k, of 1] idle k by (auto simp: chunk_has_slots_def arr2_list_def idle_def)
  qed
  have free: "\<forall>chunk \<in> set (drop n xs). free_chunk chunk"
  proof (intro ballI)
    fix chunk assume "chunk \<in> set (drop n xs)"
    then obtain k where k: "k < length xs" "n \<le> k" "chunk = xs ! k"
      by (auto simp: in_set_conv_nth) (metis add.commute le_add1 less_diff_conv nth_drop)
    then show "free_chunk chunk"
      using part(2) [OF k(1), of 0] part(2) [OF k(1), of 1] idle by (auto simp: free_chunk_def idle_def prod_eq_iff)
  qed
  have "owned xs = owned (take n xs)" "chunks_keys b xs = chunks_keys b (take n xs)" for b
    using owned_append [where xs = "take n xs" and ys = "drop n xs"] free_chunks_owned [OF free] by simp_all
  moreover have "chunks_ok (take n xs)"
    using st idle by (auto simp: steady_def slots_inv_def chunks_ok_def chunk_ok_def idle_def)
  ultimately have "slots_inv all_slots (take n xs)" using st by (simp add: steady_def slots_inv_def mirrored_def)
  moreover have "part_load (take n xs) k j = part_load xs k j" if "k < n" for k j using that by (simp add: part_load_def)
  moreover have "nonempty_stable (take n xs)" using st by (auto simp: steady_def nonempty_stable_def)
  ultimately show "steady n (take n xs)" using st n by (auto simp: steady_def balanced_def)
qed

lemma steady_scale_out:
  assumes "steady n xs" "idle xs" "\<exists>chunk \<in> set xs. fst (stable_slots chunk) = None \<or> snd (stable_slots chunk) = None"
    "length xs \<le> max_chunks"
  obtains ys ms zs where "remove_slots_from_src e xs = Some (ys, ms)" "assign_dst_slots ms ys = Some zs"
    "steady (length xs) zs" "length zs = length xs" "members_of zs = members_of xs" "print_migration_slot zs"
proof -
  note small = steady_small [OF assms(1,4)]
  from assms(3) obtain k where k: "k < length xs" "fst (stable_slots (xs ! k)) = None \<or> snd (stable_slots (xs ! k)) = None"
    by (auto simp: in_set_conv_nth)
  then have "n \<le> k"
    using steady_idle_part(2) [OF assms(1,2) _ k(1), of 0] steady_idle_part(2) [OF assms(1,2) _ k(1), of 1] small by auto
  with k(1) small show ?thesis using scale_out [OF assms(1,2), of e] that by fastforce
qed

lemma steady_scale_down:
  assumes "steady m xs" "idle xs" "\<forall>chunk \<in> set xs. fst (stable_slots chunk) \<noteq> None \<and> snd (stable_slots chunk) \<noteq> None"
    "length xs \<le> max_chunks" "0 < n" "n < length xs"
  obtains ys ms zs where "remove_slots_from_src_to_scale_down e n xs = Some (ys, ms)" "assign_dst_slots ms ys = Some zs"
    "steady n zs" "length zs = length xs" "members_of zs = members_of xs" "print_migration_slot zs"
proof -
  note small = steady_small [OF assms(1,4)]
  have m: "0 < m" "m \<le> length xs" using assms(1) by (auto simp: steady_def balanced_def)
  have "m = length xs"
  proof (rule ccontr)
    assume "m \<noteq> length xs"
    with m have "m < length xs" by simp
    with steady_idle_part(2) [OF assms(1,2) _ this, of 0] small assms(3) show False by (auto simp: nth_mem)
  qed
  with assms(1) have st: "steady (length xs) xs" by simp
  have "share (2 * length xs) d < share (2 * n) d" if "d < 2 * n" for d
    using share_grows [OF assms(5,6) _ that] assms(4) by (simp add: max_chunks_def)
  from scale_down [OF st assms(2,5,6) _ this, of e] small that show ?thesis by blast
qed

lemma steady_commit:
  assumes "steady n xs" "(rl, meta) \<in># chunks_keys True xs"
  shows "steady n (commit_chunks rl meta xs)"
proof -
  have inv: "slots_inv all_slots xs" using assms(1) by (simp add: steady_def)
  note c = commit_chunks_correct [OF inv uniq_all_slots assms(2) refl]
  from c(1,2,4) assms(1) show ?thesis by (auto simp: steady_def balanced_def same_load_def)
qed

text \<open>Every step keeps the invariant.\<close>

lemma chunks_step_steady:
  assumes "chunks_step xs ys" "\<exists>n. steady n xs"
  shows "\<exists>n. steady n ys"
proof -
  from assms(2) obtain n where st: "steady n xs" by blast
  from assms(1) show ?thesis
  proof cases
    case step_relabel
    with steady_relabel [OF _ st] show ?thesis by auto
  next
    case (step_reset e P)
    with steady_reset [OF st] show ?thesis by auto
  next
    case (step_add_free zs)
    with steady_add_free [OF _ st] show ?thesis by auto
  next
    case step_drop_free
    with steady_drop_free [OF st] show ?thesis by auto
  next
    case (step_scale_out e zs ms)
    with steady_scale_out [OF st, of e] show ?thesis by (metis option.inject prod.inject)
  next
    case (step_scale_down m e zs ms)
    with steady_scale_down [OF st, of m e] show ?thesis by (metis option.inject prod.inject)
  next
    case (step_commit rl meta)
    with steady_commit [OF st] show ?thesis by auto
  qed
qed

lemma chunks_steps_steady: "chunks_step\<^sup>*\<^sup>* xs ys \<Longrightarrow> \<exists>n. steady n xs \<Longrightarrow> \<exists>n. steady n ys"
  by (induction rule: rtranclp_induct) (auto dest: chunks_step_steady)

definition fresh :: "chunk_store list \<Rightarrow> bool" where
  "fresh chunks \<longleftrightarrow> (\<exists>ps. 0 < length ps \<and> length ps \<le> max_chunks \<and>
     chunks = chunk_stores_from (SLOT_NUM div (length ps * 2)) (SLOT_NUM - SLOT_NUM div (length ps * 2) * (length ps * 2)) True 0 0 ps)"

lemma fresh_steady:
  assumes "fresh chunks"
  shows "steady (length chunks) chunks"
proof -
  from assms obtain ps where ps: "0 < length ps" "length ps \<le> max_chunks" and
    ch: "chunks = chunk_stores_from (SLOT_NUM div (length ps * 2)) (SLOT_NUM - SLOT_NUM div (length ps * 2) * (length ps * 2)) True 0 0 ps"
    by (auto simp: fresh_def)
  let ?m = "length ps * 2"
  have m: "0 < ?m" "?m \<le> SLOT_NUM" using ps by (auto simp: max_chunks_def SLOT_NUM_def)
  note c = new_cluster_chunks [OF ps(1) m(2) ch]
  have l: "length (opt_slots (part j (stable_slots (chunks ! k)))) = share ?m (2 * k + j)" if "k < length ps" "j < 2" for k j
    using c(4) [OF that] share_range_slots(3) [OF m, of "2 * k + j"] that by simp
  then have "part_load chunks k j = share ?m (2 * k + j)" if "k < length ps" "j < 2" for k j
    using that c(5) [OF that(1)] by (simp add: part_load_def)
  then have "balanced (length chunks) chunks" using c(3) ps(1) by (auto simp: balanced_def mult.commute)
  moreover have "nonempty_stable chunks"
    unfolding nonempty_stable_def c(3) using l share_pos [OF m] by (metis length_greater_0_conv)
  ultimately show ?thesis using c(1) by (simp add: steady_def)
qed


subsection \<open>The life of a store\<close>

definition store_ok :: "meta_store \<Rightarrow> bool" where
  "store_ok s \<longleftrightarrow> registry_ok s \<and> (\<forall>name c. hm_get (clusters s) name = Some c \<longrightarrow> (\<exists>n. steady n (cs_chunks c)))"

definition sizes_ok :: "meta_store \<Rightarrow> bool" where
  "sizes_ok s \<longleftrightarrow> (\<forall>name c. hm_get (clusters s) name = Some c \<longrightarrow> length (cs_chunks c) \<le> max_chunks)"

definition evolves :: "meta_store \<Rightarrow> meta_store \<Rightarrow> bool" where
  "evolves s s' \<longleftrightarrow>
     (\<forall>name c'. hm_get (clusters s') name = Some c' \<longrightarrow>
        (\<exists>chunks. (fresh chunks \<or> (\<exists>c. hm_get (clusters s) name = Some c \<and> cs_chunks c = chunks)) \<and>
           chunks_step\<^sup>*\<^sup>* chunks (cs_chunks c')))"

definition sound :: "meta_store \<Rightarrow> 'a result \<Rightarrow> bool" where
  "sound s r \<longleftrightarrow> fst r \<noteq> Panic \<and> registry_ok (snd r) \<and> (sizes_ok (snd r) \<longrightarrow> evolves s (snd r))"

lemma store_ok_wf: "store_ok s \<Longrightarrow> clusters_wf s"
  by (auto simp: store_ok_def clusters_wf_def chunks_wf_def steady_def slots_inv_def)

lemma evolves_ok: "evolves s s' \<Longrightarrow> store_ok s \<Longrightarrow> registry_ok s' \<Longrightarrow> store_ok s'"
  unfolding store_ok_def
proof (intro conjI allI impI)
  fix name c' assume ev: "evolves s s'" and ok: "registry_ok s \<and> (\<forall>name c. hm_get (clusters s) name = Some c \<longrightarrow> (\<exists>n. steady n (cs_chunks c)))"
    and c': "hm_get (clusters s') name = Some c'"
  from ev c' obtain xs where xs: "fresh xs \<or> (\<exists>c. hm_get (clusters s) name = Some c \<and> cs_chunks c = xs)"
    "chunks_step\<^sup>*\<^sup>* xs (cs_chunks c')" unfolding evolves_def by blast
  from xs(1) ok fresh_steady have "\<exists>n. steady n xs" by blast
  with xs(2) show "\<exists>n. steady n (cs_chunks c')" by (rule chunks_steps_steady)
qed

lemma evolves_same: "clusters s' = clusters s \<Longrightarrow> evolves s s'"
  unfolding evolves_def by auto

lemma evolves_trans:
  assumes "evolves s s'" "evolves s' s''"
  shows "evolves s s''"
  unfolding evolves_def
proof (intro allI impI)
  fix name c'' assume "hm_get (clusters s'') name = Some c''"
  with assms(2) obtain xs where xs: "fresh xs \<or> (\<exists>c. hm_get (clusters s') name = Some c \<and> cs_chunks c = xs)"
    "chunks_step\<^sup>*\<^sup>* xs (cs_chunks c'')" unfolding evolves_def by blast
  from xs(1) show "\<exists>chunks. (fresh chunks \<or> (\<exists>c. hm_get (clusters s) name = Some c \<and> cs_chunks c = chunks)) \<and> chunks_step\<^sup>*\<^sup>* chunks (cs_chunks c'')"
  proof (elim disjE exE conjE)
    fix c assume "hm_get (clusters s') name = Some c" "cs_chunks c = xs"
    with assms(1) obtain ys where ys: "fresh ys \<or> (\<exists>c. hm_get (clusters s) name = Some c \<and> cs_chunks c = ys)" "chunks_step\<^sup>*\<^sup>* ys xs"
      unfolding evolves_def by blast
    from ys(2) xs(2) have "chunks_step\<^sup>*\<^sup>* ys (cs_chunks c'')" by (rule rtranclp_trans)
    with ys(1) show ?thesis by blast
  qed (use xs(2) in blast)
qed

lemma evolves_modify:
  assumes "hm_get (clusters s) name = Some c" "chunks_step\<^sup>*\<^sup>* (cs_chunks c) (cs_chunks c')" "clusters s' = hm_modify name (\<lambda>_. c') (clusters s)"
  shows "evolves s s'"
  using assms unfolding evolves_def by auto

lemma evolves_insert:
  assumes "fresh (cs_chunks c)" "clusters s' = hm_insert name c (clusters s)"
  shows "evolves s s'"
  using assms unfolding evolves_def by auto

lemma evolves_remove: "clusters s' = hm_remove name (clusters s) \<Longrightarrow> evolves s s'"
  unfolding evolves_def by auto

lemma sound_same: "registry_ok s' \<Longrightarrow> clusters s' = clusters s \<Longrightarrow> r \<noteq> Panic \<Longrightarrow> sound s (r, s')"
  by (simp add: sound_def evolves_same)

text \<open>An operation that replaces the chunks of one cluster, keeping its members.\<close>

lemma sound_modify:
  assumes "store_ok s" "hm_get (clusters s) name = Some c" "chunks_step\<^sup>=\<^sup>= (cs_chunks c) (cs_chunks c')"
    "members_of (cs_chunks c') = members_of (cs_chunks c)" "r \<noteq> Panic"
  shows "sound s (r, (bump_global_epoch s)\<lparr>clusters := hm_modify name (\<lambda>_. c') (clusters s)\<rparr>)"
proof -
  have "registry_ok ((bump_global_epoch s)\<lparr>clusters := hm_modify name (\<lambda>_. c') (clusters (bump_global_epoch s))\<rparr>)"
    using assms(1,2,4) by (intro registry_ok_modify_cluster) (auto simp: store_ok_def)
  moreover have "chunks_step\<^sup>*\<^sup>* (cs_chunks c) (cs_chunks c')" using assms(3) by auto
  ultimately show ?thesis using assms(5) evolves_modify [OF assms(2)] by (simp add: sound_def)
qed

lemma bump_clusters_commute: "bump_global_epoch (s\<lparr>clusters := cs\<rparr>) = (bump_global_epoch s)\<lparr>clusters := cs\<rparr>"
  by (simp add: bump_global_epoch_def)


subsection \<open>Every operation is sound\<close>

lemma add_failure_sound: "store_ok s \<Longrightarrow> sound s (Ok x, snd (add_failure now a r s))"
  by (intro sound_same) (auto simp: add_failure_registry store_ok_def, auto simp: add_failure_def split: option.split)

lemma get_failures_sound: "store_ok s \<Longrightarrow> sound s (Ok x, snd (get_failures w q s))"
  by (intro sound_same) (auto simp: get_failures_registry store_ok_def, auto simp: get_failures_def Let_def)

lemma add_proxy_sound: "store_ok s \<Longrightarrow> sound s (add_proxy a nodes h i s)"
  using add_proxy_registry [of s a nodes h i]
  by (auto simp: sound_def store_ok_def add_proxy_def Let_def intro!: evolves_same)

lemma remove_proxy_sound: "store_ok s \<Longrightarrow> sound s (remove_proxy a s)"
  using remove_proxy_registry [of s a]
  by (auto simp: sound_def store_ok_def remove_proxy_def split: option.split intro!: evolves_same)

lemma add_cluster_sound:
  assumes "store_ok s"
  shows "sound s (add_cluster cname num cfg s)"
proof -
  have reg: "registry_ok s" using assms by (simp add: store_ok_def)
  then show ?thesis
  proof (cases rule: add_cluster_cases [of s cname num cfg])
    case (ok name ps chunks proxies c)
    let ?s = "(bump_global_epoch s)\<lparr>clusters := hm_insert name c (clusters s), all_proxies := proxies\<rparr>"
    have len: "length ps = length chunks" by (simp add: ok(9))
    with ok(8) have num: "num div 2 = length ps * 2" by linarith
    have "evolves s ?s" if "sizes_ok ?s"
    proof (rule evolves_insert [where name = name and c = c])
      have "length chunks \<le> max_chunks" using that [unfolded sizes_ok_def, rule_format, of name c] ok(14) by simp
      with len ok(6,8) have "0 < length ps \<and> length ps \<le> max_chunks" by linarith
      with ok(9) [unfolded num] have "fresh chunks" unfolding fresh_def by blast
      then show "fresh (cs_chunks c)" by (simp only: ok(14) cluster_store.simps)
    qed simp
    with add_cluster_registry [OF reg, of cname num cfg] show ?thesis by (simp add: sound_def ok(1))
  qed (simp add: sound_same reg)
qed

lemma remove_cluster_sound:
  assumes "store_ok s"
  shows "sound s (remove_cluster cname s)"
proof -
  have "clusters (snd (remove_cluster cname s)) = clusters s \<or> clusters (snd (remove_cluster cname s)) = hm_remove cname (clusters s)"
    by (auto simp: remove_cluster_def cluster_name_try_from_if split: option.split)
  moreover have "fst (remove_cluster cname s) \<noteq> Panic"
    by (auto simp: remove_cluster_def cluster_name_try_from_if split: option.split)
  moreover have "evolves s (snd (remove_cluster cname s))" using calculation(1) evolves_same evolves_remove by blast
  ultimately show ?thesis using remove_cluster_registry [of s cname] assms by (simp add: sound_def store_ok_def)
qed

lemma free_chunk_stores: "\<forall>chunk \<in> set (chunk_stores_from av rm False i k ps). free_chunk chunk"
  using chunk_stores_free by (fastforce simp: free_chunk_def)

lemma auto_add_nodes_sound:
  assumes "store_ok s"
  shows "sound s (auto_add_nodes cname num s)"
proof -
  have reg: "registry_ok s" "clusters_wf s" using assms store_ok_wf by (auto simp: store_ok_def)
  then show ?thesis
  proof (cases rule: auto_add_nodes_cases [of s cname num])
    case (ok name ps chunks proxies c c' nodes)
    have "chunks_step (cs_chunks c) (cs_chunks c')"
      unfolding ok(15) ok(10) using free_chunk_stores by (simp add: step_add_free)
    then show ?thesis
      using auto_add_nodes_registry [OF reg, of cname num] evolves_modify [OF ok(4) r_into_rtranclp]
      by (simp add: sound_def ok(1))
  qed (simp add: sound_same reg)
qed

lemma auto_scale_up_nodes_sound: "store_ok s \<Longrightarrow> sound s (auto_scale_up_nodes cname num s)"
  using auto_add_nodes_sound [of s cname]
  by (auto simp: auto_scale_up_nodes_def Let_def cluster_name_try_from_if sound_same store_ok_def split: option.split)

lemma auto_delete_free_nodes_sound:
  assumes "store_ok s" "sizes_ok s"
  shows "sound s (auto_delete_free_nodes cname s)"
proof (cases rule: auto_delete_free_nodes_cases [of cname s])
  case (err e)
  with assms show ?thesis by (simp add: sound_same store_ok_def)
next
  case (ok c)
  have "chunks_step (cs_chunks c) (filter chunk_has_slots (cs_chunks c))"
    using ok(2,3) assms(2) by (intro step_drop_free) (auto simp: is_migrating_idle sizes_ok_def)
  then have "evolves s (snd (auto_delete_free_nodes cname s))"
    by (intro evolves_modify [OF ok(2)]) (auto simp: ok(4))
  with auto_delete_free_nodes_registry [of s cname] assms(1) show ?thesis by (simp add: sound_def ok(4) store_ok_def)
qed

lemma takeover_evolves: "evolves s (snd (takeover_master name a s))"
proof (cases rule: takeover_master_cases [of s name a])
  case (moved c chunks P c')
  let ?r = "map (map_entries (reset_epoch (global_epoch s + 1) P))"
  have "chunks_step (cs_chunks c) (?r (cs_chunks c))" by (rule step_reset)
  moreover have "chunks_step (?r (cs_chunks c)) (?r chunks)"
    by (rule step_relabel) (rule takeover_scan_slots [OF moved(2)])
  ultimately have "chunks_step\<^sup>*\<^sup>* (cs_chunks c) (cs_chunks c')"
    by (simp add: moved(3) converse_rtranclp_into_rtranclp r_into_rtranclp)
  then show ?thesis using moved(4) by (intro evolves_modify [OF moved(1)]) auto
qed (simp_all add: evolves_same)

lemma replace_failed_proxy_sound:
  assumes "store_ok s"
  shows "sound s (replace_failed_proxy a lim s)"
proof -
  have reg: "registry_ok s" "clusters_wf s" using assms store_ok_wf by (auto simp: store_ok_def)
  have t: "evolves s s1" if "takeover_master name a s = (Ok (), s1)" for name s1
    using takeover_evolves [of s name a] that by simp
  note keep = replace_failed_proxy_keeps [OF reg, of a lim]
  from reg have "evolves s (snd (replace_failed_proxy a lim s))"
  proof (cases rule: replace_failed_proxy_cases [of s a lim])
    case (ordered fpr name s1)
    have "evolves s1 (bump_global_epoch s1)" by (simp add: evolves_same)
    with t [OF ordered(3)] show ?thesis unfolding ordered(5) by (simp add: evolves_trans)
  next
    case (exhausted fpr name s1)
    have "evolves s1 (s1\<lparr>failed_proxies := hs_insert a (failed_proxies s1)\<rparr>)" by (simp add: evolves_same)
    with t [OF exhausted(3)] show ?thesis unfolding exhausted(4) by (simp add: evolves_trans)
  next
    case (replaced fpr name s1 s2 s3 pr c c' p)
    have "chunks_step (cs_chunks c) (cs_chunks c')"
      unfolding replaced(7) by (rule step_relabel) simp
    then have "evolves s1 s3" by (intro evolves_modify [OF replaced(6)]) (auto simp: replaced(9))
    with t [OF replaced(3)] show ?thesis unfolding replaced(8) by (simp add: evolves_trans)
  qed (simp_all add: evolves_same)
  with keep show ?thesis by (simp add: sound_def)
qed

lemma balance_masters_sound:
  assumes "store_ok s"
  shows "sound s (balance_masters cname s)"
proof (cases rule: balance_masters_cases [of cname s])
  case (ok c c')
  have "chunks_step\<^sup>=\<^sup>= (cs_chunks c) (cs_chunks c')" using step_relabel [OF ok(4)] by simp
  from sound_modify [OF assms ok(2) this ok(5), of "Ok ()"] show ?thesis
    by (simp add: ok(3) bump_clusters_commute)
qed (use assms in \<open>simp add: sound_same store_ok_def\<close>)

lemma change_config_sound:
  assumes "store_ok s"
  shows "sound s (change_config cname cfg s)"
proof (cases rule: change_config_cases [of cname cfg s])
  case (ok c config)
  let ?c = "c\<lparr>cs_config := config, cs_epoch := global_epoch s + 1\<rparr>"
  have "sound s (Ok (), (bump_global_epoch s)\<lparr>clusters := hm_modify cname (\<lambda>_. ?c) (clusters s)\<rparr>)"
    by (rule sound_modify [OF assms ok(2)]) simp_all
  then show ?thesis by (simp add: ok(5) bump_clusters_commute)
qed (use assms in \<open>simp add: sound_same store_ok_def\<close>)

lemma empty_exists_iff:
  "empty_exists c \<longleftrightarrow> (\<exists>chunk \<in> set (cs_chunks c). fst (stable_slots chunk) = None \<or> snd (stable_slots chunk) = None)"
  by (simp add: empty_exists_def list_ex_iff arr2_list_def eq_commute [of None])

lemma start_migration_ok:
  assumes "plan = Some (ys, ms)" "assign_dst_slots ms ys = Some zs" "print_migration_slot zs"
  shows "start_migration name c plan s =
    (Ok (), s\<lparr>clusters := hm_modify name (\<lambda>_. c\<lparr>cs_chunks := zs, cs_epoch := global_epoch s\<rparr>) (clusters s)\<rparr>)"
  using assms by (simp add: start_migration_def Let_def cs_set_epoch_def)

lemma migrate_slots_cases:
  assumes inv: "store_ok s" and size: "sizes_ok s"
  obtains (err) e s' where "migrate_slots cname s = (Err e, s')" "s' = s \<or> s' = bump_global_epoch s"
  | (ok) c c' n ys ms zs where "valid_cluster_name cname" "hm_get (clusters s) cname = Some c" "empty_exists c"
      "idle (cs_chunks c)" "steady n (cs_chunks c)"
      "remove_slots_from_src (global_epoch s + 1) (cs_chunks c) = Some (ys, ms)" "assign_dst_slots ms ys = Some zs"
      "steady (length (cs_chunks c)) zs" "members_of zs = members_of (cs_chunks c)" "length zs = length (cs_chunks c)"
      "c' = c\<lparr>cs_chunks := zs, cs_epoch := global_epoch s + 1\<rparr>"
      "migrate_slots cname s = (Ok (), (bump_global_epoch s)\<lparr>clusters := hm_modify cname (\<lambda>_. c') (clusters s)\<rparr>)"
proof (cases "valid_cluster_name cname \<and> hm_get (clusters s) cname \<noteq> None \<and>
    empty_exists (the (hm_get (clusters s) cname)) \<and> idle (cs_chunks (the (hm_get (clusters s) cname)))")
  case True
  then obtain c where c: "valid_cluster_name cname" "hm_get (clusters s) cname = Some c" "empty_exists c" "idle (cs_chunks c)" by auto
  from inv size c(2) obtain n where n: "steady n (cs_chunks c)" "length (cs_chunks c) \<le> max_chunks"
    unfolding store_ok_def sizes_ok_def by blast
  from steady_scale_out [OF n(1) c(4) c(3) [unfolded empty_exists_iff] n(2), of "global_epoch s + 1"]
  obtain ys ms zs where p: "remove_slots_from_src (global_epoch s + 1) (cs_chunks c) = Some (ys, ms)" "assign_dst_slots ms ys = Some zs"
    "steady (length (cs_chunks c)) zs" "length zs = length (cs_chunks c)" "members_of zs = members_of (cs_chunks c)" "print_migration_slot zs" .
  have "migrate_slots cname s = start_migration cname c (Some (ys, ms)) (bump_global_epoch s)"
    using c p(1) by (simp add: migrate_slots_def cluster_name_try_from_if check_running_tasks_idle)
  then have "migrate_slots cname s = (Ok (), (bump_global_epoch s)\<lparr>clusters :=
      hm_modify cname (\<lambda>_. c\<lparr>cs_chunks := zs, cs_epoch := global_epoch s + 1\<rparr>) (clusters s)\<rparr>)"
    using start_migration_ok [OF refl p(2,6), of cname c "bump_global_epoch s"] by simp
  from that(2) [OF c n(1) p(1-3,5,4) refl this] show ?thesis .
next
  case False
  then have "\<exists>e s'. migrate_slots cname s = (Err e, s') \<and> (s' = s \<or> s' = bump_global_epoch s)"
    by (cases "hm_get (clusters s) cname") (auto simp: migrate_slots_def cluster_name_try_from_if check_running_tasks_idle Let_def)
  with that(1) show ?thesis by blast
qed

lemma scale_down_cases:
  assumes inv: "store_ok s" and size: "sizes_ok s"
  obtains (err) e s' where "migrate_slots_to_scale_down cname num s = (Err e, s')" "s' = s \<or> s' = bump_global_epoch s"
  | (ok) c c' m ys ms zs where "valid_cluster_name cname" "hm_get (clusters s) cname = Some c" "\<not> empty_exists c"
      "idle (cs_chunks c)" "steady m (cs_chunks c)" "num mod 4 = 0" "0 < num div 4" "num div 4 < length (cs_chunks c)"
      "remove_slots_from_src_to_scale_down (global_epoch s + 1) (num div 4) (cs_chunks c) = Some (ys, ms)" "assign_dst_slots ms ys = Some zs"
      "steady (num div 4) zs" "members_of zs = members_of (cs_chunks c)" "length zs = length (cs_chunks c)"
      "c' = c\<lparr>cs_chunks := zs, cs_epoch := global_epoch s + 1\<rparr>"
      "migrate_slots_to_scale_down cname num s = (Ok (), (bump_global_epoch s)\<lparr>clusters := hm_modify cname (\<lambda>_. c') (clusters s)\<rparr>)"
proof (cases "valid_cluster_name cname \<and> hm_get (clusters s) cname \<noteq> None \<and>
    \<not> empty_exists (the (hm_get (clusters s) cname)) \<and> idle (cs_chunks (the (hm_get (clusters s) cname))) \<and>
    num \<noteq> 0 \<and> num mod 4 = 0 \<and> num < length (cs_chunks (the (hm_get (clusters s) cname))) * 4")
  case True
  then obtain c where c: "valid_cluster_name cname" "hm_get (clusters s) cname = Some c" "\<not> empty_exists c" "idle (cs_chunks c)"
    and num: "num \<noteq> 0" "num mod 4 = 0" "num < length (cs_chunks c) * 4" by auto
  have n4: "0 < num div 4" "num div 4 < length (cs_chunks c)" using num by auto
  from inv size c(2) obtain m where m: "steady m (cs_chunks c)" "length (cs_chunks c) \<le> max_chunks"
    unfolding store_ok_def sizes_ok_def by blast
  have full: "\<forall>chunk \<in> set (cs_chunks c). fst (stable_slots chunk) \<noteq> None \<and> snd (stable_slots chunk) \<noteq> None"
    using c(3) by (auto simp: empty_exists_iff)
  from steady_scale_down [OF m(1) c(4) full m(2) n4, of "global_epoch s + 1"]
  obtain ys ms zs where p: "remove_slots_from_src_to_scale_down (global_epoch s + 1) (num div 4) (cs_chunks c) = Some (ys, ms)"
    "assign_dst_slots ms ys = Some zs" "steady (num div 4) zs" "length zs = length (cs_chunks c)"
    "members_of zs = members_of (cs_chunks c)" "print_migration_slot zs" .
  have "migrate_slots_to_scale_down cname num s = start_migration cname c (Some (ys, ms)) (bump_global_epoch s)"
    using c p(1) num by (simp add: migrate_slots_to_scale_down_def cluster_name_try_from_if check_running_tasks_idle CHUNK_NODE_NUM_def)
  then have "migrate_slots_to_scale_down cname num s = (Ok (), (bump_global_epoch s)\<lparr>clusters :=
      hm_modify cname (\<lambda>_. c\<lparr>cs_chunks := zs, cs_epoch := global_epoch s + 1\<rparr>) (clusters s)\<rparr>)"
    using start_migration_ok [OF refl p(2,6), of cname c "bump_global_epoch s"] by simp
  from that(2) [OF c m(1) num(2) n4 p(1-3,5,4) refl this] show ?thesis .
next
  case False
  then have "\<exists>e s'. migrate_slots_to_scale_down cname num s = (Err e, s') \<and> (s' = s \<or> s' = bump_global_epoch s)"
    by (cases "hm_get (clusters s) cname")
      (auto simp: migrate_slots_to_scale_down_def cluster_name_try_from_if check_running_tasks_idle CHUNK_NODE_NUM_def Let_def)
  with that(1) show ?thesis by blast
qed

lemma sound_err_bump: "store_ok s \<Longrightarrow> s' = s \<or> s' = bump_global_epoch s \<Longrightarrow> sound s (Err e, s')"
  by (auto simp: store_ok_def intro!: sound_same)

lemma migrate_slots_sound:
  assumes "store_ok s" "sizes_ok s"
  shows "sound s (migrate_slots cname s)"
  using assms
proof (cases rule: migrate_slots_cases [of s cname])
  case (ok c c' n ys ms zs)
  have "length (cs_chunks c) \<le> max_chunks" using assms(2) ok(2) unfolding sizes_ok_def by blast
  then have "chunks_step (cs_chunks c) zs"
    by (rule step_scale_out [OF ok(4) ok(3) [unfolded empty_exists_iff] _ ok(6,7)])
  with ok(9,11) show ?thesis unfolding ok(12) by (intro sound_modify [OF assms(1) ok(2)]) simp_all
qed (use assms sound_err_bump in simp)

lemma scale_down_sound:
  assumes "store_ok s" "sizes_ok s"
  shows "sound s (migrate_slots_to_scale_down cname num s)"
  using assms
proof (cases rule: scale_down_cases [of s cname num])
  case (ok c c' m ys ms zs)
  have "length (cs_chunks c) \<le> max_chunks" using assms(2) ok(2) unfolding sizes_ok_def by blast
  moreover have "\<forall>chunk \<in> set (cs_chunks c). fst (stable_slots chunk) \<noteq> None \<and> snd (stable_slots chunk) \<noteq> None"
    using ok(3) by (auto simp: empty_exists_iff)
  ultimately have "chunks_step (cs_chunks c) zs"
    by (intro step_scale_down [OF ok(4) _ _ ok(7,8,9,10)])
  with ok(12,14) show ?thesis unfolding ok(15) by (intro sound_modify [OF assms(1) ok(2)]) simp_all
qed (use assms sound_err_bump in simp)

lemma commit_migration_cases:
  assumes wf: "clusters_wf s"
  obtains (err) e where "commit_migration task s = (Err e, s)"
  | (ok) c c' rl meta where "hm_get (clusters s) (mt_cluster_name task) = Some c" "rl = sr_range_list (mt_slot_range task)"
      "get_migration_meta (sr_tag (mt_slot_range task)) \<noteq> None"
      "ms_epoch meta = mm_epoch (the (get_migration_meta (sr_tag (mt_slot_range task))))"
      "(rl, meta) \<in># chunks_keys True (cs_chunks c)"
      "c' = c\<lparr>cs_chunks := commit_chunks rl meta (cs_chunks c), cs_epoch := global_epoch s + 1\<rparr>"
      "commit_migration task s = (Ok (), (bump_global_epoch s)\<lparr>clusters := hm_modify (mt_cluster_name task) (\<lambda>_. c') (clusters s)\<rparr>)"
proof -
  let ?name = "mt_cluster_name task" and ?rl = "sr_range_list (mt_slot_range task)"
  show ?thesis
  proof (cases "\<exists>e. commit_migration task s = (Err e, s)")
    case True
    with err show ?thesis by blast
  next
    case False
    then obtain c tm si sj di dj where c: "hm_get (clusters s) ?name = Some c"
        and tm: "get_migration_meta (sr_tag (mt_slot_range task)) = Some tm"
        and f: "find_entry True ?rl (mm_epoch tm) (cs_chunks c) = Some (si, sj)" "find_entry False ?rl (mm_epoch tm) (cs_chunks c) = Some (di, dj)"
      by (auto simp: commit_migration_def Let_def split: option.splits)
    let ?meta = "\<lparr>ms_epoch = mm_epoch tm, src_chunk_index = si, src_chunk_part = sj, dst_chunk_index = di, dst_chunk_part = dj\<rparr>"
    have wf': "chunks_ok (cs_chunks c)" "mirrored (cs_chunks c)" "uniq (owned (cs_chunks c))"
      using wf c by (auto simp: clusters_wf_def chunks_wf_def)
    have k: "(?rl, ?meta) \<in># chunks_keys True (cs_chunks c)" using commit_sides(1) [OF wf' f refl] .
    show ?thesis
      by (rule ok [OF c refl _ _ k refl])
        (use c tm f in \<open>simp_all add: commit_migration_def Let_def cs_set_epoch_def bump_clusters_commute\<close>)
  qed
qed

lemma commit_migration_sound:
  assumes "store_ok s"
  shows "sound s (commit_migration task s)"
  using store_ok_wf [OF assms]
proof (cases rule: commit_migration_cases [of s task])
  case (ok c c' rl meta)
  from assms ok(1) obtain n where n: "steady n (cs_chunks c)" unfolding store_ok_def by blast
  then have "slots_inv all_slots (cs_chunks c)" by (simp add: steady_def)
  from commit_chunks_correct(3) [OF this uniq_all_slots ok(5) refl] step_commit [OF ok(5)]
  show ?thesis unfolding ok(7) by (intro sound_modify [OF assms ok(1)]) (simp_all add: ok(6))
qed (use assms in \<open>simp add: sound_same store_ok_def\<close>)


subsection \<open>Composite operations\<close>

text \<open>What the second part of an operation needs of the first: a sound store that is not larger.\<close>

definition keeps :: "meta_store \<Rightarrow> meta_store \<Rightarrow> bool" where
  "keeps s s' \<longleftrightarrow> store_ok s' \<and> sizes_ok s' \<and> evolves s s'"

lemma keepsI: "store_ok s \<Longrightarrow> sizes_ok (snd r) \<Longrightarrow> sound s r \<Longrightarrow> keeps s (snd r)"
  by (auto simp: keeps_def sound_def intro: evolves_ok)

lemma sound_after:
  assumes "keeps s s1" "sound s1 r"
  shows "sound s r"
  using assms by (auto simp: sound_def keeps_def intro: evolves_trans)

lemma sizes_ok_modify:
  assumes "sizes_ok s" "hm_get (clusters s) name = Some c" "length (cs_chunks c') \<le> length (cs_chunks c)"
    "clusters s' = hm_modify name (\<lambda>_. c') (clusters s)"
  shows "sizes_ok s'"
proof -
  have "length (cs_chunks c) \<le> max_chunks" using assms(1,2) unfolding sizes_ok_def by blast
  with assms(1,3,4) show ?thesis by (auto simp: sizes_ok_def)
qed

lemma auto_delete_free_nodes_sizes: "sizes_ok s \<Longrightarrow> sizes_ok (snd (auto_delete_free_nodes cname s))"
  by (cases rule: auto_delete_free_nodes_cases [of cname s])
    (auto elim!: sizes_ok_modify [where c' = "_\<lparr>cs_chunks := filter chunk_has_slots _, cs_epoch := _\<rparr>"])

lemma commit_length: "length (commit_chunks rl meta chunks) = length chunks" if "slots_inv T chunks" "uniq T" "(rl, meta) \<in># chunks_keys True chunks"
  using commit_chunks_correct(2) [OF that refl] by (simp add: same_load_def)

lemma commit_migration_sizes:
  assumes "store_ok s" "sizes_ok s"
  shows "sizes_ok (snd (commit_migration task s))"
  using store_ok_wf [OF assms(1)]
proof (cases rule: commit_migration_cases [of s task])
  case (ok c c' rl meta)
  have "slots_inv (owned (cs_chunks c)) (cs_chunks c)" "uniq (owned (cs_chunks c))"
    using store_ok_wf [OF assms(1)] ok(1) by (auto simp: clusters_wf_def chunks_wf_def slots_inv_def)
  from commit_length [OF this ok(5)] show ?thesis
    by (intro sizes_ok_modify [OF assms(2) ok(1), where c' = c']) (simp_all add: ok(6,7))
qed (use assms in simp)

lemma auto_delete_if_exists_sound:
  assumes "store_ok s" "sizes_ok s"
  shows "sound s (auto_delete_free_nodes_if_exists cname s)"
  using auto_delete_free_nodes_sound [OF assms, of cname]
  by (cases rule: auto_delete_free_nodes_cases [of cname s]) (auto simp: auto_delete_free_nodes_if_exists_def sound_def)

lemma meta_commit_migration_sound:
  assumes "store_ok s" "sizes_ok s"
  shows "sound s (meta_commit_migration task clear s)"
proof -
  let ?r = "commit_migration task s"
  have k: "keeps s (snd ?r)" using keepsI [OF assms(1) commit_migration_sizes [OF assms] commit_migration_sound [OF assms(1)]] .
  have c: "sound s ?r" by (rule commit_migration_sound [OF assms(1)])
  obtain o1 s1 where r: "?r = (o1, s1)" by fastforce
  have "sound s1 (auto_delete_free_nodes_if_exists (mt_cluster_name task) s1)"
    using k auto_delete_if_exists_sound by (simp add: r keeps_def)
  then have "sound s (auto_delete_free_nodes_if_exists (mt_cluster_name task) s1)" using sound_after [OF k] by (simp add: r)
  with c show ?thesis by (auto simp: meta_commit_migration_def r sound_def split: outcome.split)
qed

lemma change_node_number_sound:
  assumes "store_ok s" "sizes_ok s"
  shows "sound s (change_node_number cname name num s)"
proof -
  note up = auto_scale_up_nodes_sound [OF assms(1), of cname num] and down = scale_down_sound [OF assms, of cname num]
  have reg: "registry_ok s" using assms(1) by (simp add: store_ok_def)
  obtain u us where u: "auto_scale_up_nodes cname num s = (u, us)" by fastforce
  obtain d ds where d: "migrate_slots_to_scale_down cname num s = (d, ds)" by fastforce
  let ?last = "\<lambda>(res, s1). case res of Err e \<Rightarrow> (Err e, s1) | Panic \<Rightarrow> (Panic, s1)
      | Ok op \<Rightarrow> (case hm_get (clusters s1) name of None \<Rightarrow> (Err ClusterNotFound, s1)
                   | Some c' \<Rightarrow> (Ok (op, cs_get_proxy_addresses c', cs_epoch c'), s1))"
  have last: "sound s (?last (map_outcome f r, s1))" if "sound s (r, s1)" for f r s1
    using that by (cases r) (auto simp: sound_def split: option.split)
  have same: "sound s (?last (Ok NoOp, s))" using reg by (auto simp: sound_def evolves_same split: option.split)
  show ?thesis
  proof (cases "hm_get (clusters s) name")
    case None
    then show ?thesis using reg by (simp add: change_node_number_def sound_same)
  next
    case (Some c)
    show ?thesis
      using Some same last [of u us "\<lambda>_. ScaleOut"] last [of d ds "\<lambda>_. ScaleDown"] up down
      by (simp add: change_node_number_def Let_def u d)
  qed
qed

lemma auto_change_node_number_sound:
  assumes "store_ok s" "sizes_ok s"
  shows "sound s (auto_change_node_number cname num s)"
proof -
  let ?r = "auto_delete_free_nodes cname s"
  have k: "keeps s (snd ?r)"
    by (rule keepsI [OF assms(1) auto_delete_free_nodes_sizes [OF assms(2)] auto_delete_free_nodes_sound [OF assms]])
  have c: "sound s ?r" by (rule auto_delete_free_nodes_sound [OF assms])
  obtain o1 s1 where r: "?r = (o1, s1)" by fastforce
  have "sound s1 (change_node_number cname name num s1)" for name
    using k change_node_number_sound by (simp add: r keeps_def)
  then have n: "sound s (change_node_number cname name num s1)" for name using sound_after [OF k [unfolded r snd_conv]] by blast
  have reg: "registry_ok s" using assms(1) by (simp add: store_ok_def)
  show ?thesis
    using c n reg evolves_same [of s s]
    by (auto simp: auto_change_node_number_def r sound_def split: option.split outcome.split)
qed

lemma auto_scale_out_sound: "store_ok s \<Longrightarrow> sizes_ok s \<Longrightarrow> sound s (auto_scale_out_node_number cname num s)"
  using migrate_slots_sound [of s cname]
  by (auto simp: auto_scale_out_node_number_def sound_same store_ok_def split: option.split)

lemma set_all_epochs_sound:
  assumes "store_ok s"
  shows "sound s (Ok x, set_all_epochs e s)"
proof -
  have g: "hm_get (clusters (set_all_epochs e s)) name = map_option (\<lambda>c. c\<lparr>cs_epoch := e\<rparr>) (hm_get (clusters s) name)" for name
    by (simp add: set_all_epochs_def)
  have "registry_of (set_all_epochs e s) = registry_of s" unfolding registry_of_def g
    by (auto simp: set_all_epochs_def fun_eq_iff option.map_comp comp_def)
  moreover have "keyed (set_all_epochs e s)" using assms g
    by (auto simp: store_ok_def registry_ok_def keyed_def set_all_epochs_def)
  moreover have "evolves s (set_all_epochs e s)" unfolding evolves_def g by auto
  ultimately show ?thesis using assms by (simp add: sound_def store_ok_def registry_ok_def)
qed


subsection \<open>Every request is sound\<close>

lemma get_cluster_store_total:
  assumes "clusters_wf s"
  obtains (none) "get_cluster_store (clusters s) name lim = Some None"
  | (some) c where "get_cluster_store (clusters s) name lim = Some (Some c)" "chunks_ok (cs_chunks c)"
proof (cases "hm_get (clusters s) name")
  case None
  with none show ?thesis by (simp add: get_cluster_store_def)
next
  case (Some c)
  then have "slots_inv (owned (cs_chunks c)) (cs_chunks c)" "uniq (owned (cs_chunks c))"
    using assms by (auto simp: clusters_wf_def chunks_wf_def slots_inv_def)
  from limit_migration_spec [OF this] obtain c' where "limit_migration lim c = Some c'" "chunks_ok (cs_chunks c')"
    by (auto simp: slots_inv_def)
  with some Some show ?thesis by (simp add: get_cluster_store_def)
qed

lemma queries_total:
  assumes "clusters_wf s"
  shows "get_cluster_by_name s name lim \<noteq> None" "get_cluster_info_by_name s name lim \<noteq> None"
    "get_proxy_by_address s a lim \<noteq> None"
proof -
  show "get_cluster_by_name s name lim \<noteq> None" "get_cluster_info_by_name s name lim \<noteq> None"
    by (cases rule: get_cluster_store_total [OF assms, of name lim];
        simp add: get_cluster_by_name_def get_cluster_info_by_name_def cluster_name_try_from_if cluster_store_to_cluster_shown)+
  show "get_proxy_by_address s a lim \<noteq> None"
    using get_proxy_view [OF assms, of a _ lim] by (cases "hm_get (all_proxies s) a") (auto simp: get_proxy_by_address_def)
qed

lemma sound_reply: "sound s r \<Longrightarrow> sound s (reply f r)"
  by (cases "fst r") (auto simp: sound_def reply_def)

lemma sound_answer: "store_ok s \<Longrightarrow> r \<noteq> None \<Longrightarrow> sound s (answer r s)"
  by (auto simp: answer_def sound_same store_ok_def)

lemma memory_storage_sound:
  assumes "store_ok s" "sizes_ok s" "\<And>m. req \<noteq> RestoreMetadata m"
  shows "sound s (memory_storage req s)"
proof -
  have q: "sound s (Ok x, s)" for x :: storage_reply using assms(1) by (simp add: sound_same store_ok_def)
  note total = queries_total [OF store_ok_wf [OF assms(1)]]
  note ops =
    add_failure_sound [OF assms(1)] add_proxy_sound [OF assms(1)] remove_proxy_sound [OF assms(1)]
    add_cluster_sound [OF assms(1)] remove_cluster_sound [OF assms(1)] auto_add_nodes_sound [OF assms(1)]
    auto_scale_up_nodes_sound [OF assms(1)] replace_failed_proxy_sound [OF assms(1)] balance_masters_sound [OF assms(1)]
    change_config_sound [OF assms(1)] set_all_epochs_sound [OF assms(1)]
    auto_delete_free_nodes_sound [OF assms(1,2)] migrate_slots_sound [OF assms(1,2)] scale_down_sound [OF assms(1,2)]
    meta_commit_migration_sound [OF assms(1,2)] auto_change_node_number_sound [OF assms(1,2)]
    auto_scale_out_sound [OF assms(1,2)]
  show ?thesis
  proof (cases req)
    case (GetFailures within_ttl quorum)
    then show ?thesis using get_failures_sound [OF assms(1), of _ within_ttl quorum] by (simp add: case_prod_beta)
  next
    case (ForceBumpAllEpoch e)
    then show ?thesis
      using set_all_epochs_sound [OF assms(1), of "()" e] assms(1)
      by (auto simp: force_bump_all_epoch_def store_ok_def intro!: sound_reply sound_same)
  next
    case (RestoreMetadata m)
    with assms(3) show ?thesis by blast
  qed (simp_all add: recover_epoch_def q total ops sound_reply sound_answer [OF assms(1)])
qed


subsection \<open>Reachable stores\<close>

text \<open>The same maps and sets, with another iteration order.\<close>

definition same_maps :: "meta_store \<Rightarrow> meta_store \<Rightarrow> bool" where
  "same_maps s s' \<longleftrightarrow>
     mset (clusters s') = mset (clusters s) \<and> mset (all_proxies s') = mset (all_proxies s) \<and>
     mset (failures s') = mset (failures s) \<and> mset (failed_proxies s') = mset (failed_proxies s) \<and>
     version s' = version s \<and> global_epoch s' = global_epoch s \<and> enable_ordered_proxy s' = enable_ordered_proxy s"

inductive reach :: "meta_store \<Rightarrow> bool" where
  reach_new: "reach (meta_store_new ordered)"
| reach_request: "reach s \<Longrightarrow> (\<forall>m. req \<noteq> RestoreMetadata m) \<Longrightarrow> sizes_ok (snd (memory_storage req s)) \<Longrightarrow>
    reach (snd (memory_storage req s))"
| reach_restore: "reach s \<Longrightarrow> reach m \<Longrightarrow> reach (snd (memory_storage (RestoreMetadata m) s))"
| reach_reorder: "reach s \<Longrightarrow> same_maps s s' \<Longrightarrow> reach s'"

lemma hm_get_mset:
  assumes "hm_inv m" "mset m' = mset m"
  shows "hm_inv m'" "hm_get m' = hm_get m"
proof -
  have "mset (map fst m') = mset (map fst m)" using assms(2) by simp
  with assms(1) show inv: "hm_inv m'" unfolding hm_inv_def hm_keys_def by (metis mset_eq_imp_distinct_iff)
  have "set m' = set m" using assms(2) by (metis set_mset_mset)
  show "hm_get m' = hm_get m"
  proof
    fix k show "hm_get m' k = hm_get m k"
      using hm_mem [OF assms(1), of k] hm_mem [OF inv, of k] \<open>set m' = set m\<close>
      by (cases "hm_get m' k"; cases "hm_get m k") auto
  qed
qed

lemma same_maps_ok:
  assumes "same_maps s s'" "store_ok s" "sizes_ok s"
  shows "store_ok s' \<and> sizes_ok s'"
proof -
  have inv: "hm_inv (clusters s)" "hm_inv (all_proxies s)" using assms(2) by (simp_all add: store_ok_def registry_ok_def keyed_def)
  have m: "mset (clusters s') = mset (clusters s)" "mset (all_proxies s') = mset (all_proxies s)"
    using assms(1) by (simp_all only: same_maps_def)
  note c = hm_get_mset [OF inv(1) m(1)] and p = hm_get_mset [OF inv(2) m(2)]
  have "registry_of s' = registry_of s" by (simp only: registry_of_def c(2) p(2))
  with assms(2,3) c p show ?thesis by (simp only: store_ok_def registry_ok_def keyed_def sizes_ok_def simp_thms) blast
qed

lemma new_store_ok: "store_ok (meta_store_new b)" "sizes_ok (meta_store_new b)"
  by (simp_all add: store_ok_def sizes_ok_def registry_ok_def keyed_def consistent_def registry_of_def meta_store_new_def)

lemma restore_cases: "snd (memory_storage (RestoreMetadata m) s) = s \<or> snd (memory_storage (RestoreMetadata m) s) = m"
  by (simp add: reply_def restore_def)

lemma reach_ok: "reach s \<Longrightarrow> store_ok s \<and> sizes_ok s"
proof (induction rule: reach.induct)
  case (reach_new ordered)
  show ?case by (simp add: new_store_ok)
next
  case (reach_request s req)
  then have "sound s (memory_storage req s)" by (intro memory_storage_sound) auto
  with reach_request show ?case using evolves_ok unfolding sound_def by blast
next
  case (reach_restore s m)
  with restore_cases [of m s] show ?case by metis
next
  case (reach_reorder s s')
  then show ?case using same_maps_ok by blast
qed

end
