(* ===== verification/UM_Safety.thy ===== *)
theory UM_Safety
  imports UM_Reach
begin

section \<open>Safety of the broker\<close>

text \<open>
  The properties of the runs of the broker: no request panics, the metadata stays consistent, the
  slots of every cluster stay partitioned and balanced, the epochs order the versions of a cluster,
  and started migrations can always be committed.
\<close>


subsection \<open>A run\<close>

text \<open>Four proxies, a cluster on two of them, the other two added, and the migration started.\<close>

definition example_nodes :: "address arr2" where
  "example_nodes = (''127.0.0.1:7001'', ''127.0.0.1:7002'')"

definition example_proxies_run :: "storage_request list" where
  "example_proxies_run =
     map (\<lambda>(a, h, i). AddProxy a example_nodes (Some h) (Some i))
       [(''a:1'', ''h1'', 0), (''b:1'', ''h2'', 1), (''c:1'', ''h1'', 2), (''d:1'', ''h2'', 3)]"

definition run :: "storage_request list \<Rightarrow> meta_store \<Rightarrow> meta_store" where
  "run reqs s = fold (\<lambda>req s. snd (memory_storage req s)) reqs s"

definition example_s0 :: meta_store where
  "example_s0 = run example_proxies_run (meta_store_new True)"

definition example_s1 :: meta_store where
  "example_s1 = run [AddCluster ''db'' 4 cluster_config_default] example_s0"

definition example_s2 :: meta_store where
  "example_s2 = run [AutoAddNodes ''db'' 4] example_s1"

definition example_s3 :: meta_store where
  "example_s3 = run [MigrateSlots ''db''] example_s2"

definition ex_pr :: "string \<Rightarrow> string \<Rightarrow> usize \<Rightarrow> string option \<Rightarrow> proxy_resource" where
  "ex_pr a h i c = \<lparr>pr_proxy_address = a, pr_node_addresses = example_nodes, pr_host = h, pr_index = i, pr_cluster = c\<rparr>"

lemma example_s0: "example_s0 =
  \<lparr>version = UNDERMOON_MEM_BROKER_META_VERSION, global_epoch = 4, clusters = [],
   all_proxies = [(''a:1'', ex_pr ''a:1'' ''h1'' 0 None), (''b:1'', ex_pr ''b:1'' ''h2'' 1 None),
     (''c:1'', ex_pr ''c:1'' ''h1'' 2 None), (''d:1'', ex_pr ''d:1'' ''h2'' 3 None)],
   failed_proxies = [], failures = [], enable_ordered_proxy = True\<rparr>"
  unfolding example_s0_def example_proxies_run_def
  by (simp add: run_def ex_pr_def meta_store_new_def add_proxy_def Let_def bump_global_epoch_def hm_defs reply_def)

lemma example_s1: "example_s1 =
  \<lparr>version = UNDERMOON_MEM_BROKER_META_VERSION, global_epoch = 5,
   clusters = [(''db'', \<lparr>cs_epoch = 5, cs_name = ''db'', cs_chunks =
     [\<lparr>role_position = Normal, stable_slots = (Some (share_range 2 0), Some (share_range 2 1)),
       migrating_slots = ([], []), proxy_addresses = (''a:1'', ''b:1''), hosts = (''h1'', ''h2''),
       node_addresses = (example_nodes, example_nodes)\<rparr>], cs_config = cluster_config_default\<rparr>)],
   all_proxies = [(''a:1'', ex_pr ''a:1'' ''h1'' 0 (Some ''db'')), (''b:1'', ex_pr ''b:1'' ''h2'' 1 (Some ''db'')),
     (''c:1'', ex_pr ''c:1'' ''h1'' 2 None), (''d:1'', ex_pr ''d:1'' ''h2'' 3 None)],
   failed_proxies = [], failures = [], enable_ordered_proxy = True\<rparr>"
  unfolding example_s1_def example_s0
  using valid_name_db
  by (simp add: run_def ex_pr_def add_cluster_def Let_def bump_global_epoch_def hm_defs reply_def cluster_name_try_from_if
      allocate_proxies_def generate_free_chunks_for_ordered_proxy_index_def get_free_proxy_resource_def usize_add_def
      proxy_resource_to_chunk_store_def create_slots_def SLOT_NUM_def from_single_range_def
      chunks_addresses_def new_chunk_def arr2_list_def usize_sub_def range_normalize_def set_owner_def share_range_def
      shares_eq share_def)

definition example_chunk :: "string \<Rightarrow> string \<Rightarrow> slot_range option arr2 \<Rightarrow> chunk_store" where
  "example_chunk a b slots =
     \<lparr>role_position = Normal, stable_slots = slots, migrating_slots = ([], []), proxy_addresses = (a, b),
      hosts = (''h1'', ''h2''), node_addresses = (example_nodes, example_nodes)\<rparr>"

lemma example_s2: "clusters example_s2 =
  [(''db'', \<lparr>cs_epoch = 6, cs_name = ''db'', cs_chunks =
     [example_chunk ''a:1'' ''b:1'' (Some (share_range 2 0), Some (share_range 2 1)),
      example_chunk ''c:1'' ''d:1'' (None, None)], cs_config = cluster_config_default\<rparr>)]"
  "global_epoch example_s2 = 6"
  unfolding example_s2_def example_s1
  using valid_name_db
  by (simp_all add: run_def ex_pr_def auto_add_nodes_def Let_def bump_global_epoch_def hm_defs reply_def cluster_name_try_from_if
      allocate_proxies_def generate_free_chunks_for_ordered_proxy_index_def get_free_proxy_resource_def usize_add_def
      proxy_resource_to_chunk_store_def create_slots_def SLOT_NUM_def from_single_range_def
      chunks_addresses_def new_chunk_def arr2_list_def usize_sub_def range_normalize_def set_owner_def share_range_def
      shares_eq share_def cs_is_migrating_def chunk_is_migrating_def CHUNK_PARTS_def example_chunk_def split: option.split)


lemma reach_run_step: "reach s \<Longrightarrow> \<forall>m. req \<noteq> RestoreMetadata m \<Longrightarrow> sizes_ok (run [req] s) \<Longrightarrow> reach (run [req] s)"
  by (simp add: run_def reach_request)

lemma sizes_ok_list: "(\<And>name c. (name, c) \<in> set (clusters s) \<Longrightarrow> length (cs_chunks c) \<le> max_chunks) \<Longrightarrow> sizes_ok s"
  unfolding sizes_ok_def by (metis hm_get_def map_of_SomeD)

lemma example_reach_s0: "reach example_s0"
proof -
  have step: "reach (run [AddProxy a example_nodes h i] s)" if "reach s" for a h i s
  proof (rule reach_run_step [OF that])
    have "clusters (run [AddProxy a example_nodes h i] s) = clusters s"
      by (simp add: run_def reply_def add_proxy_def Let_def)
    then show "sizes_ok (run [AddProxy a example_nodes h i] s)"
      using reach_ok [OF that] by (simp add: sizes_ok_def)
  qed simp
  have "example_s0 = run [AddProxy ''d:1'' example_nodes (Some ''h2'') (Some 3)] (run [AddProxy ''c:1'' example_nodes (Some ''h1'') (Some 2)]
      (run [AddProxy ''b:1'' example_nodes (Some ''h2'') (Some 1)] (run [AddProxy ''a:1'' example_nodes (Some ''h1'') (Some 0)] (meta_store_new True))))"
    by (simp only: example_s0_def example_proxies_run_def run_def list.map fold_simps prod.case)
  moreover have "reach \<dots>" by (intro step reach_new)
  ultimately show ?thesis by (simp only:)
qed

lemma example_reach_s1: "reach example_s1"
  unfolding example_s1_def
proof (rule reach_run_step [OF example_reach_s0])
  show "sizes_ok (run [AddCluster ''db'' 4 cluster_config_default] example_s0)"
    by (rule sizes_ok_list) (auto simp flip: example_s1_def simp: example_s1 max_chunks_def)
qed simp

lemma example_reach_s2: "reach example_s2"
  unfolding example_s2_def
proof (rule reach_run_step [OF example_reach_s1])
  show "sizes_ok (run [AutoAddNodes ''db'' 4] example_s1)"
    by (rule sizes_ok_list) (auto simp flip: example_s2_def simp: example_s2 max_chunks_def)
qed simp

lemma example_s2_cluster:
  obtains c where "hm_get (clusters example_s2) ''db'' = Some c" "length (cs_chunks c) = 2" "empty_exists c" "idle (cs_chunks c)"
    "cs_chunks c = [example_chunk ''a:1'' ''b:1'' (Some (share_range 2 0), Some (share_range 2 1)), example_chunk ''c:1'' ''d:1'' (None, None)]"
  by (rule that [of "snd (hd (clusters example_s2))"])
    (simp_all add: example_s2 hm_get_def empty_exists_iff idle_set example_chunk_def)

lemma compact_single: "a \<le> b \<Longrightarrow> compact [(a, b)] = [(a, b)]"
  by (simp add: compact_eq_merge_sorted range_normalize_def)

lemma example_plan:
  "remove_slots_from_src 7 [example_chunk ''a:1'' ''b:1'' (Some (share_range 2 0), Some (share_range 2 1)), example_chunk ''c:1'' ''d:1'' (None, None)]
   = Some ([example_chunk ''a:1'' ''b:1'' (Some \<lparr>sr_range_list = [(0, 4095)], sr_tag = TagNone\<rparr>, Some \<lparr>sr_range_list = [(8192, 12287)], sr_tag = TagNone\<rparr>),
       example_chunk ''c:1'' ''d:1'' (None, None)],
     [\<lparr>mg_ranges = [(4096, 8191)], mg_meta = \<lparr>ms_epoch = 7, src_chunk_index = 0, src_chunk_part = 0, dst_chunk_index = 1, dst_chunk_part = 0\<rparr>\<rparr>,
      \<lparr>mg_ranges = [(12288, 16383)], mg_meta = \<lparr>ms_epoch = 7, src_chunk_index = 0, src_chunk_part = 1, dst_chunk_index = 1, dst_chunk_part = 1\<rparr>\<rparr>])"
  by (simp add: remove_slots_from_src_def is_dst_chunk_def example_chunk_def SLOT_NUM_def remove_from_part_def share_range_def
      shares_eq share_def remove_loop.simps remove_start_def final_num_def usize_add_def usize_sub_def get_slots_num_def take_last_def
      range_num_def add_to_dst_def hand_over_def usize_sum_def rl_new_def compact_single)

lemma example_s3:
  "reach example_s3"
  "\<exists>c. hm_get (clusters example_s3) ''db'' = Some c \<and> size (chunks_keys True (cs_chunks c)) = 2"
proof -
  have ok: "store_ok example_s2" "sizes_ok example_s2" using reach_ok [OF example_reach_s2] by auto
  obtain c where c: "hm_get (clusters example_s2) ''db'' = Some c" "empty_exists c" "idle (cs_chunks c)"
    "cs_chunks c = [example_chunk ''a:1'' ''b:1'' (Some (share_range 2 0), Some (share_range 2 1)), example_chunk ''c:1'' ''d:1'' (None, None)]"
    by (rule example_s2_cluster)
  have s3: "example_s3 = snd (migrate_slots ''db'' example_s2)" by (simp add: example_s3_def run_def reply_def)
  from ok have "sizes_ok example_s3 \<and> (\<exists>c. hm_get (clusters example_s3) ''db'' = Some c \<and> size (chunks_keys True (cs_chunks c)) = 2)"
  proof (cases rule: migrate_slots_cases [of example_s2 "''db''"])
    case (err e s')
    have "migrate_slots ''db'' example_s2 = start_migration ''db'' c (remove_slots_from_src (global_epoch example_s2 + 1) (cs_chunks c)) (bump_global_epoch example_s2)"
      using c(1,2,3) valid_name_db by (simp add: migrate_slots_def cluster_name_try_from_if check_running_tasks_idle)
    with err(1) show ?thesis by (auto simp: start_migration_def Let_def split: option.splits if_splits)
  next
    case (ok d d' n ys ms zs)
    have d: "d = c" using ok(2) c(1) by simp
    have "sizes_ok example_s3"
      using sizes_ok_modify [OF \<open>sizes_ok example_s2\<close> ok(2), of d'] ok(10,11) by (simp add: s3 ok(12))
    moreover have p: "Some (ys, ms) = remove_slots_from_src 7 (cs_chunks c)" using ok(6) by (simp add: d example_s2(2))
    have "size (chunks_keys True zs) = 2"
      using ok(7) p unfolding c(4) example_plan
      by (auto simp: assign_dst_slots_def push_migrating_def example_chunk_def compact_slots_def arr2_modify_def chunks_keys_def
          chunk_entries_eq compact_entry_def keys_of_def Let_def)
    ultimately show ?thesis using ok(2,11) by (intro conjI exI [of _ d']) (simp_all add: s3 ok(12))
  qed
  then show "reach example_s3" "\<exists>c. hm_get (clusters example_s3) ''db'' = Some c \<and> size (chunks_keys True (cs_chunks c)) = 2"
    using reach_run_step [OF example_reach_s2, of "MigrateSlots ''db''"] by (auto simp: example_s3_def)
qed

text \<open>A cluster on all four proxies at once.\<close>

definition example_s4 :: meta_store where
  "example_s4 = run [AddCluster ''db'' 8 cluster_config_default] example_s0"

lemma example_s4: "clusters example_s4 =
  [(''db'', \<lparr>cs_epoch = 5, cs_name = ''db'', cs_chunks =
     [example_chunk ''a:1'' ''b:1'' (Some (share_range 4 0), Some (share_range 4 1)),
      example_chunk ''c:1'' ''d:1'' (Some (share_range 4 2), Some (share_range 4 3))], cs_config = cluster_config_default\<rparr>)]"
  unfolding example_s4_def example_s0
  using valid_name_db
  by (simp add: run_def ex_pr_def add_cluster_def Let_def bump_global_epoch_def hm_defs reply_def cluster_name_try_from_if
      allocate_proxies_def generate_free_chunks_for_ordered_proxy_index_def get_free_proxy_resource_def usize_add_def
      proxy_resource_to_chunk_store_def create_slots_def SLOT_NUM_def from_single_range_def
      chunks_addresses_def new_chunk_def arr2_list_def usize_sub_def range_normalize_def set_owner_def share_range_def
      shares_eq share_def example_chunk_def)

lemma example_reach_s4: "reach example_s4"
  unfolding example_s4_def
proof (rule reach_run_step [OF example_reach_s0])
  show "sizes_ok (run [AddCluster ''db'' 8 cluster_config_default] example_s0)"
    by (rule sizes_ok_list) (auto simp flip: example_s4_def simp: example_s4 max_chunks_def)
qed simp



subsection \<open>Epochs\<close>

definition epoch_step :: "meta_store \<Rightarrow> meta_store \<Rightarrow> bool" where
  "epoch_step s s' \<longleftrightarrow>
     global_epoch s \<le> global_epoch s' \<and>
     (\<forall>name c'. hm_get (clusters s') name = Some c' \<longrightarrow>
        hm_get (clusters s) name = Some c' \<or> global_epoch s < cs_epoch c' \<and> cs_epoch c' \<le> global_epoch s')"

definition epoch_bumps :: "nat \<Rightarrow> meta_store \<Rightarrow> meta_store \<Rightarrow> bool" where
  "epoch_bumps k s s' \<longleftrightarrow>
     (unat (global_epoch s) + k < 2 ^ 64 \<longrightarrow> unat (global_epoch s') \<le> unat (global_epoch s) + k \<and> epoch_step s s')"

lemma epoch_succ:
  fixes e :: epoch
  assumes "unat e + 1 < 2 ^ 64"
  shows "unat (e + 1) = unat e + 1" "e < e + 1" "e \<le> e + 1"
proof -
  show *: "unat (e + 1) = unat e + 1" using assms by (simp add: unat_word_ariths)
  then show "e < e + 1" "e \<le> e + 1" by (simp_all add: word_less_nat_alt word_le_nat_alt)
qed

lemma bumps_same: "clusters s' = clusters s \<Longrightarrow> global_epoch s' = global_epoch s \<Longrightarrow> epoch_bumps k s s'"
  by (simp add: epoch_bumps_def epoch_step_def)

lemma bumps_one:
  assumes "global_epoch s' = global_epoch s + 1"
    "\<And>name c'. hm_get (clusters s') name = Some c' \<Longrightarrow> hm_get (clusters s) name = Some c' \<or> cs_epoch c' = global_epoch s + 1"
  shows "epoch_bumps 1 s s'"
  unfolding epoch_bumps_def
proof
  assume "unat (global_epoch s) + 1 < 2 ^ 64"
  note e = epoch_succ [OF this]
  show "unat (global_epoch s') \<le> unat (global_epoch s) + 1 \<and> epoch_step s s'"
    unfolding assms(1) epoch_step_def using assms(2) e by (metis order_refl)
qed

lemma bumps_intro:
  assumes "global_epoch s' = global_epoch s \<and> clusters s' = clusters s \<or> global_epoch s' = global_epoch s + 1 \<and>
    (\<forall>name c'. hm_get (clusters s') name = Some c' \<longrightarrow> hm_get (clusters s) name = Some c' \<or> cs_epoch c' = global_epoch s + 1)"
  shows "epoch_bumps 1 s s'"
  using assms bumps_same bumps_one by blast

lemma bumps_modify:
  "global_epoch s' = global_epoch s + 1 \<Longrightarrow> clusters s' = hm_modify name (\<lambda>_. c') (clusters s) \<Longrightarrow> cs_epoch c' = global_epoch s + 1 \<Longrightarrow>
     epoch_bumps 1 s s'"
  by (rule bumps_one) (auto split: if_splits)

lemma bumps_mono: "epoch_bumps k s s' \<Longrightarrow> k \<le> l \<Longrightarrow> epoch_bumps l s s'"
  by (auto simp: epoch_bumps_def)

lemma bumps_trans:
  assumes "epoch_bumps k s s1" "epoch_bumps l s1 s2"
  shows "epoch_bumps (k + l) s s2"
  unfolding epoch_bumps_def
proof
  assume r: "unat (global_epoch s) + (k + l) < 2 ^ 64"
  then have 1: "unat (global_epoch s1) \<le> unat (global_epoch s) + k" "epoch_step s s1" using assms(1) by (auto simp: epoch_bumps_def)
  with r have 2: "unat (global_epoch s2) \<le> unat (global_epoch s1) + l" "epoch_step s1 s2" using assms(2) by (auto simp: epoch_bumps_def)
  have "epoch_step s s2" unfolding epoch_step_def
  proof (intro conjI allI impI)
    show "global_epoch s \<le> global_epoch s2" using 1(2) 2(2) unfolding epoch_step_def by force
    fix name c' assume c': "hm_get (clusters s2) name = Some c'"
    show "hm_get (clusters s) name = Some c' \<or> global_epoch s < cs_epoch c' \<and> cs_epoch c' \<le> global_epoch s2"
      using 1(2) 2(2) c' unfolding epoch_step_def by (meson order.trans order.strict_trans1)
  qed
  with 1 2 show "unat (global_epoch s2) \<le> unat (global_epoch s) + (k + l) \<and> epoch_step s s2" by simp
qed


lemma takeover_bumps: "epoch_bumps 1 s (snd (takeover_master name a s))"
  by (rule bumps_intro, cases rule: takeover_master_cases [of s name a]) (auto split: if_splits)

lemma replace_bumps:
  assumes "store_ok s"
  shows "epoch_bumps 2 s (snd (replace_failed_proxy a lim s))"
proof -
  have reg: "registry_ok s" "clusters_wf s" using assms store_ok_wf by (auto simp: store_ok_def)
  have t: "epoch_bumps 1 s s1" if "takeover_master name a s = (Ok (), s1)" for name s1
    using takeover_bumps [of s name a] that by simp
  have two: "epoch_bumps 2 s s2" if "epoch_bumps 1 s s1" "epoch_bumps 1 s1 s2" for s1 s2
    using bumps_trans [OF that] by (simp add: numeral_2_eq_2)
  from reg show ?thesis
  proof (cases rule: replace_failed_proxy_cases [of s a lim])
    case (ordered fpr name s1)
    have "epoch_bumps 1 s1 (bump_global_epoch s1)" by (rule bumps_one) simp_all
    from two [OF t [OF ordered(3)] this] show ?thesis by (simp add: ordered(5))
  next
    case (exhausted fpr name s1)
    have "epoch_bumps 1 s1 (s1\<lparr>failed_proxies := hs_insert a (failed_proxies s1)\<rparr>)" by (rule bumps_same) simp_all
    from two [OF t [OF exhausted(3)] this] show ?thesis by (simp add: exhausted(4))
  next
    case (replaced fpr name s1 s2 s3 pr c c' p)
    have "epoch_bumps 1 s1 s3" by (rule bumps_modify [where name = name and c' = c']) (simp_all add: replaced(4,7,9))
    from two [OF t [OF replaced(3)] this] show ?thesis by (simp add: replaced(8))
  qed (simp_all add: bumps_same)
qed

lemma add_failure_bumps: "epoch_bumps 1 s (snd (add_failure now a r s))"
  by (rule bumps_intro) (auto simp: add_failure_def split: option.split)

lemma add_proxy_bumps: "epoch_bumps 1 s (snd (add_proxy a nodes h i s))"
  by (rule bumps_intro) (auto simp: add_proxy_def Let_def)

lemma remove_proxy_bumps: "epoch_bumps 1 s (snd (remove_proxy a s))"
  by (rule bumps_intro) (auto simp: remove_proxy_def split: option.split)

lemma add_cluster_bumps:
  assumes "store_ok s"
  shows "epoch_bumps 1 s (snd (add_cluster cname num cfg s))"
proof -
  have "registry_ok s" using assms by (simp add: store_ok_def)
  then show ?thesis
    by (cases rule: add_cluster_cases [of s cname num cfg]; intro bumps_intro) (simp_all split: if_splits)
qed

lemma remove_cluster_bumps: "epoch_bumps 1 s (snd (remove_cluster cname s))"
  by (rule bumps_intro) (auto simp: remove_cluster_def cluster_name_try_from_if split: option.split if_splits)

lemma auto_add_nodes_bumps:
  assumes "store_ok s"
  shows "epoch_bumps 1 s (snd (auto_add_nodes cname num s))"
proof -
  have "registry_ok s" "clusters_wf s" using assms store_ok_wf by (auto simp: store_ok_def)
  then show ?thesis
  proof (cases rule: auto_add_nodes_cases [of s cname num])
    case (ok name ps chunks proxies c c' nodes)
    then show ?thesis by (intro bumps_modify [where name = name and c' = c']) simp_all
  qed (simp add: bumps_same)
qed

lemma auto_scale_up_bumps: "store_ok s \<Longrightarrow> epoch_bumps 1 s (snd (auto_scale_up_nodes cname num s))"
  using auto_add_nodes_bumps [of s cname]
  by (auto simp: auto_scale_up_nodes_def Let_def cluster_name_try_from_if bumps_same split: option.split)

lemma auto_delete_bumps: "epoch_bumps 1 s (snd (auto_delete_free_nodes cname s))"
  by (rule bumps_intro, cases rule: auto_delete_free_nodes_cases [of cname s]) (auto split: if_splits)

lemma auto_delete_if_exists_snd: "snd (auto_delete_free_nodes_if_exists cname s) = snd (auto_delete_free_nodes cname s)"
  by (auto simp: auto_delete_free_nodes_if_exists_def split: prod.split outcome.split)

lemma balance_masters_bumps: "epoch_bumps 1 s (snd (balance_masters cname s))"
  by (rule bumps_intro, cases rule: balance_masters_cases [of cname s]) (auto split: if_splits)

lemma change_config_bumps: "epoch_bumps 1 s (snd (change_config cname cfg s))"
  by (rule bumps_intro, cases rule: change_config_cases [of cname cfg s]) (auto split: if_splits)

lemma migrate_slots_bumps: "store_ok s \<Longrightarrow> sizes_ok s \<Longrightarrow> epoch_bumps 1 s (snd (migrate_slots cname s))"
  by (rule bumps_intro, cases rule: migrate_slots_cases [of s cname]) (auto split: if_splits)

lemma scale_down_bumps: "store_ok s \<Longrightarrow> sizes_ok s \<Longrightarrow> epoch_bumps 1 s (snd (migrate_slots_to_scale_down cname num s))"
  by (rule bumps_intro, cases rule: scale_down_cases [of s cname num]) (auto split: if_splits)

lemma commit_bumps: "clusters_wf s \<Longrightarrow> epoch_bumps 1 s (snd (commit_migration task s))"
  by (rule bumps_intro, cases rule: commit_migration_cases [of s task]) (auto split: if_splits)

lemma meta_commit_bumps:
  assumes "store_ok s"
  shows "epoch_bumps 2 s (snd (meta_commit_migration task clear s))"
proof -
  obtain o1 s1 where r: "commit_migration task s = (o1, s1)" by fastforce
  have 1: "epoch_bumps 1 s s1" using commit_bumps [OF store_ok_wf [OF assms], of task] by (simp add: r)
  have "epoch_bumps (1 + 1) s (snd (auto_delete_free_nodes_if_exists (mt_cluster_name task) s1))"
    by (rule bumps_trans [OF 1]) (simp only: auto_delete_if_exists_snd auto_delete_bumps)
  then have "epoch_bumps 2 s (snd (auto_delete_free_nodes_if_exists (mt_cluster_name task) s1))" by (simp only: one_add_one)
  moreover have "epoch_bumps 2 s s1" using bumps_mono [OF 1] by simp
  ultimately show ?thesis by (auto simp: meta_commit_migration_def r split: outcome.split)
qed

lemma change_node_number_bumps:
  assumes "store_ok s" "sizes_ok s"
  shows "epoch_bumps 1 s (snd (change_node_number cname name num s))"
proof -
  obtain u us where u: "auto_scale_up_nodes cname num s = (u, us)" by fastforce
  obtain d ds where d: "migrate_slots_to_scale_down cname num s = (d, ds)" by fastforce
  let ?s = "snd (change_node_number cname name num s)"
  have "?s = s \<or> ?s = us \<or> ?s = ds"
    unfolding change_node_number_def Let_def u d prod.case
    by (auto split: option.split outcome.split)
  moreover have "epoch_bumps 1 s us" "epoch_bumps 1 s ds"
    using auto_scale_up_bumps [OF assms(1), of cname num] scale_down_bumps [OF assms, of cname num] by (simp_all add: u d)
  moreover have "epoch_bumps 1 s s" by (simp add: bumps_same)
  ultimately show ?thesis by metis
qed

lemma auto_change_bumps:
  assumes "store_ok s" "sizes_ok s"
  shows "epoch_bumps 2 s (snd (auto_change_node_number cname num s))"
proof -
  let ?r = "auto_delete_free_nodes cname s"
  have k: "keeps s (snd ?r)"
    by (rule keepsI [OF assms(1) auto_delete_free_nodes_sizes [OF assms(2)] auto_delete_free_nodes_sound [OF assms]])
  obtain o1 s1 where r: "?r = (o1, s1)" by fastforce
  have 1: "epoch_bumps 1 s s1" using auto_delete_bumps [of s cname] by (simp add: r)
  have "epoch_bumps (1 + 1) s (snd (change_node_number cname name num s1))" for name
    by (rule bumps_trans [OF 1 change_node_number_bumps]) (use k in \<open>simp_all add: r keeps_def\<close>)
  then have 2: "epoch_bumps 2 s (snd (change_node_number cname name num s1))" for name by (simp only: one_add_one)
  have "epoch_bumps 2 s s1" "epoch_bumps 2 s s" using bumps_mono [OF 1] by (simp_all add: bumps_same)
  with 2 show ?thesis by (auto simp: auto_change_node_number_def r split: option.split outcome.split)
qed

lemma auto_scale_out_bumps: "store_ok s \<Longrightarrow> sizes_ok s \<Longrightarrow> epoch_bumps 1 s (snd (auto_scale_out_node_number cname num s))"
  using migrate_slots_bumps [of s cname]
  by (auto simp: auto_scale_out_node_number_def bumps_same split: option.split)

lemma set_all_epochs_step: "global_epoch s < e \<Longrightarrow> epoch_step s (set_all_epochs e s)"
  by (auto simp: epoch_step_def set_all_epochs_def)

lemma memory_storage_epoch:
  assumes ok: "store_ok s" "sizes_ok s" and req: "\<And>m. req \<noteq> RestoreMetadata m" and room: "unat (global_epoch s) + 2 < 2 ^ 64"
  shows "epoch_step s (snd (memory_storage req s))"
proof -
  have b: "epoch_step s s'" if "epoch_bumps k s s'" "k \<le> 2" for k s' using that room by (auto simp: epoch_bumps_def)
  note one = b [of 1, OF _ one_le_numeral] and two = b [of 2, OF _ order_refl]
  have same: "epoch_step s s" by (simp add: epoch_step_def)
  note ops = one [OF add_failure_bumps] one [OF add_proxy_bumps] one [OF remove_proxy_bumps] one [OF add_cluster_bumps [OF ok(1)]]
    one [OF remove_cluster_bumps] one [OF auto_add_nodes_bumps [OF ok(1)]] one [OF auto_scale_up_bumps [OF ok(1)]]
    one [OF auto_delete_bumps] one [OF balance_masters_bumps] one [OF change_config_bumps] one [OF migrate_slots_bumps [OF ok]]
    one [OF scale_down_bumps [OF ok]] one [OF auto_scale_out_bumps [OF ok]] two [OF replace_bumps [OF ok(1)]]
    two [OF meta_commit_bumps [OF ok(1)]] two [OF auto_change_bumps [OF ok]]
  show ?thesis
  proof (cases req)
    case (GetFailures within_ttl quorum)
    then show ?thesis by (simp add: case_prod_beta get_failures_def Let_def epoch_step_def)
  next
    case (RestoreMetadata m)
    with req show ?thesis by blast
  next
    case (RecoverEpoch e)
    have "global_epoch s < global_epoch s + 1" using room by (intro epoch_succ) simp
    then have "global_epoch s < max (e + 1) (global_epoch s + 1)" by (simp add: less_max_iff_disj)
    with RecoverEpoch show ?thesis by (simp add: recover_epoch_def set_all_epochs_step)
  next
    case (ForceBumpAllEpoch e)
    then show ?thesis using set_all_epochs_step [of s e] same by (auto simp: reply_def force_bump_all_epoch_def)
  qed (simp_all add: reply_def answer_def same ops split: option.split)
qed


subsection \<open>Committing the running migrations\<close>

lemma idle_iff_keys: "idle chunks \<longleftrightarrow> chunks_keys True chunks = {#} \<and> chunks_keys False chunks = {#}"
proof -
  have "(keys_of True es = {#} \<and> keys_of False es = {#}) = (es = [])" for es
    by (cases es) (auto simp: keys_of_def)
  then have "(keys_of True (chunk_entries chunk) = {#} \<and> keys_of False (chunk_entries chunk) = {#}) = (migrating_slots chunk = ([], []))" for chunk
    by (auto simp: chunk_entries_eq prod_eq_iff)
  moreover have "(sum_list (map f xs) = {#}) = (\<forall>x \<in> set xs. f x = {#})" for f :: "chunk_store \<Rightarrow> migration_key multiset" and xs
    by (induction xs) auto
  ultimately show ?thesis unfolding idle_set chunks_keys_def by (metis (no_types, lifting))
qed

lemma key_entry:
  assumes "(rl, meta) \<in># chunks_keys b chunks"
  obtains i j e where "i < length chunks" "j < 2" "e \<in> set (part j (migrating_slots (chunks ! i)))"
    "mr_range_list e = rl" "mr_meta e = meta" "mr_is_migrating e = b"
  using assms by (auto simp: chunks_keys_all keys_of_def in_all_entries mr_key_def)

definition task_of :: "cluster_name \<Rightarrow> migration_key \<Rightarrow> migration_task_meta" where
  "task_of name key =
     \<lparr>mt_cluster_name = name, mt_slot_range = \<lparr>sr_range_list = fst key, sr_tag = Migrating
        \<lparr>mm_epoch = ms_epoch (snd key), src_proxy_address = [], src_node_address = [], dst_proxy_address = [], dst_node_address = []\<rparr>\<rparr>\<rparr>"

lemma commit_available:
  assumes wf: "clusters_wf s" and c: "hm_get (clusters s) name = Some c" and k: "key \<in># chunks_keys True (cs_chunks c)"
  shows "commit_migration (task_of name key) s = (Ok (), (bump_global_epoch s)\<lparr>clusters := hm_modify name
    (\<lambda>_. c\<lparr>cs_chunks := commit_chunks (fst key) (snd key) (cs_chunks c), cs_epoch := global_epoch s + 1\<rparr>) (clusters s)\<rparr>)"
proof -
  obtain rl meta where key: "key = (rl, meta)" by fastforce
  have ok: "chunks_ok (cs_chunks c)" "mirrored (cs_chunks c)" "uniq (owned (cs_chunks c))"
    using wf c by (auto simp: clusters_wf_def chunks_wf_def)
  have kb: "(rl, meta) \<in># chunks_keys b (cs_chunks c)" for b using k ok(2) by (cases b) (auto simp: mirrored_def key)
  have found: "find_entry b rl (ms_epoch meta) (cs_chunks c) \<noteq> None" for b
  proof
    assume n: "find_entry b rl (ms_epoch meta) (cs_chunks c) = None"
    from kb [of b] obtain i j e where "i < length (cs_chunks c)" "j < 2" "e \<in> set (part j (migrating_slots (cs_chunks c ! i)))"
      "mr_range_list e = rl" "mr_meta e = meta" "mr_is_migrating e = b" by (rule key_entry)
    with find_entry_None [OF n] show False by blast
  qed
  then obtain si sj di dj where f: "find_entry True rl (ms_epoch meta) (cs_chunks c) = Some (si, sj)"
    "find_entry False rl (ms_epoch meta) (cs_chunks c) = Some (di, dj)" by fastforce
  let ?m = "\<lparr>ms_epoch = ms_epoch meta, src_chunk_index = si, src_chunk_part = sj, dst_chunk_index = di, dst_chunk_part = dj\<rparr>"
  have "(rl, ?m) = (rl, meta)"
    using migrating_key_once(2) [OF ok(1,3) kb [of True] commit_sides(1) [OF ok f refl]] by simp
  then have "?m = meta" by simp
  with c f show ?thesis
    by (simp add: commit_migration_def task_of_def key cs_set_epoch_def bump_clusters_commute)
qed

lemma commit_request:
  assumes r: "reach s" and c: "hm_get (clusters s) name = Some c" and k: "key \<in># chunks_keys True (cs_chunks c)"
  obtains s' c' where "memory_storage (CommitMigration (task_of name key) False) s = (Ok RUnit, s')" "reach s'"
    "hm_get (clusters s') name = Some c'" "chunks_keys True (cs_chunks c) = add_mset key (chunks_keys True (cs_chunks c'))"
proof -
  have ok: "store_ok s" "sizes_ok s" using reach_ok [OF r] by auto
  let ?req = "CommitMigration (task_of name key) False"
  note a = commit_available [OF store_ok_wf [OF ok(1)] c k]
  have m: "memory_storage ?req s = (Ok RUnit, snd (commit_migration (task_of name key) s))"
    by (simp add: meta_commit_migration_def a reply_def)
  have "sizes_ok (snd (memory_storage ?req s))" using commit_migration_sizes [OF ok, of "task_of name key"] by (simp only: m snd_conv)
  then have "reach (snd (memory_storage ?req s))" by (intro reach_request [OF r]) simp_all
  then have r': "reach (snd (commit_migration (task_of name key) s))" by (simp only: m snd_conv)
  from ok(1) c obtain n where "steady n (cs_chunks c)" unfolding store_ok_def by blast
  then have inv: "slots_inv all_slots (cs_chunks c)" by (simp add: steady_def)
  have "(fst key, snd key) \<in># chunks_keys True (cs_chunks c)" using k by simp
  note keys = commit_chunks_correct(5) [OF inv uniq_all_slots this refl, of True]
  show ?thesis
    by (rule that [OF m r', of "c\<lparr>cs_chunks := commit_chunks (fst key) (snd key) (cs_chunks c), cs_epoch := global_epoch s + 1\<rparr>"])
      (use c keys in \<open>simp_all add: a\<close>)
qed

lemma commit_all:
  "reach s \<Longrightarrow> hm_get (clusters s) name = Some c \<Longrightarrow> size (chunks_keys True (cs_chunks c)) = n \<Longrightarrow>
     \<exists>tasks c'. length tasks = n \<and> reach (run (map (\<lambda>task. CommitMigration task False) tasks) s) \<and>
       hm_get (clusters (run (map (\<lambda>task. CommitMigration task False) tasks) s)) name = Some c' \<and> idle (cs_chunks c')"
proof (induction n arbitrary: s c)
  case 0
  then have "clusters_wf s" using store_ok_wf reach_ok by blast
  with 0(2) have "mirrored (cs_chunks c)" by (auto simp: clusters_wf_def chunks_wf_def)
  with 0 show ?case by (intro exI [of _ "[]"] exI [of _ c]) (simp add: run_def idle_iff_keys mirrored_def)
next
  case (Suc n)
  then obtain key where "key \<in># chunks_keys True (cs_chunks c)" by (metis size_eq_Suc_imp_elem)
  from commit_request [OF Suc.prems(1,2) this] obtain s' c' where
    s': "memory_storage (CommitMigration (task_of name key) False) s = (Ok RUnit, s')" "reach s'"
    "hm_get (clusters s') name = Some c'" "chunks_keys True (cs_chunks c) = add_mset key (chunks_keys True (cs_chunks c'))" .
  have "size (chunks_keys True (cs_chunks c')) = n" using Suc.prems(3) s'(4) by simp
  from Suc.IH [OF s'(2,3) this] obtain tasks c'' where
    "length tasks = n" "reach (run (map (\<lambda>task. CommitMigration task False) tasks) s')"
    "hm_get (clusters (run (map (\<lambda>task. CommitMigration task False) tasks) s')) name = Some c''" "idle (cs_chunks c'')" by blast
  with s'(1) show ?case
    by (intro exI [of _ "task_of name key # tasks"] exI [of _ c'']) (simp add: run_def del: memory_storage.simps)
qed



subsection \<open>The balance check\<close>

lemma fold_min_in: "fold min xs (a::nat) \<in> insert a (set xs)"
  by (induction xs arbitrary: a) (auto simp: min_def split: if_splits)

lemma Bex_set_nth: "(\<exists>x \<in> set xs. P x) = (\<exists>k < length xs. P (xs ! k))"
  by (metis in_set_conv_nth)

lemma steady_stable_nums:
  assumes "steady n chunks" "idle chunks" "2 * n \<le> SLOT_NUM"
  shows "set (concat (map (\<lambda>chunk. map stable_num (arr2_list (stable_slots chunk))) chunks)) \<subseteq> {0, SLOT_NUM div (2 * n), SLOT_NUM div (2 * n) + 1}"
    and "SLOT_NUM div (2 * n) \<in> set (concat (map (\<lambda>chunk. map stable_num (arr2_list (stable_slots chunk))) chunks))
      \<or> SLOT_NUM div (2 * n) + 1 \<in> set (concat (map (\<lambda>chunk. map stable_num (arr2_list (stable_slots chunk))) chunks))"
proof -
  have num: "stable_num (part j (stable_slots (chunks ! k))) = (if k < n then share (2 * n) (2 * k + j) else 0)"
    if "k < length chunks" "j < 2" for k j
    using steady_idle_part(1,3) [OF assms that] by (simp add: stable_num_length)
  have in_set: "(x \<in> set (concat (map (\<lambda>chunk. map stable_num (arr2_list (stable_slots chunk))) chunks))) =
      (\<exists>k < length chunks. \<exists>j < 2. x = stable_num (part j (stable_slots (chunks ! k))))" for x
  proof -
    have "(x \<in> set (concat (map (\<lambda>chunk. map stable_num (arr2_list (stable_slots chunk))) chunks))) =
        (\<exists>chunk \<in> set chunks. \<exists>j < 2. x = stable_num (part j (stable_slots chunk)))"
      by (simp add: arr2_list_def Ex_less_2)
    then show ?thesis by (simp add: Bex_set_nth)
  qed
  show "set (concat (map (\<lambda>chunk. map stable_num (arr2_list (stable_slots chunk))) chunks)) \<subseteq> {0, SLOT_NUM div (2 * n), SLOT_NUM div (2 * n) + 1}"
    by (intro subsetI) (auto simp: in_set num share_def simp del: set_concat)
  have "0 < length chunks" "0 < n" using assms(1) by (auto simp: steady_def balanced_def)
  then show "SLOT_NUM div (2 * n) \<in> set (concat (map (\<lambda>chunk. map stable_num (arr2_list (stable_slots chunk))) chunks))
      \<or> SLOT_NUM div (2 * n) + 1 \<in> set (concat (map (\<lambda>chunk. map stable_num (arr2_list (stable_slots chunk))) chunks))"
    unfolding in_set using num [of 0 0] by (cases "0 < SLOT_NUM mod (2 * n)") (auto simp: share_def intro!: exI [of _ 0])
qed

lemma check_slots_balance_quiet:
  assumes "steady n (cs_chunks c)" "2 * n \<le> SLOT_NUM"
  shows "check_slots_balance c = []"
proof (cases "idle (cs_chunks c)")
  case False
  then show ?thesis by (auto simp: check_slots_balance_def idle_set list_ex_iff prod_eq_iff)
next
  case True
  let ?nums = "concat (map (\<lambda>chunk. map stable_num (arr2_list (stable_slots chunk))) (cs_chunks c))" and ?q = "SLOT_NUM div (2 * n)"
  have n: "0 < n" using assms(1) by (simp add: steady_def balanced_def)
  have q: "0 < ?q" using assms(2) n by (simp add: div_greater_zero_iff)
  note nums = steady_stable_nums [OF assms(1) True assms(2)]
  have scat: "\<not> (fst (stable_slots chunk) = None \<and> snd (stable_slots chunk) \<noteq> None)" if "chunk \<in> set (cs_chunks c)" for chunk
  proof -
    from that obtain k where k: "k < length (cs_chunks c)" "chunk = cs_chunks c ! k" by (auto simp: in_set_conv_nth)
    then show ?thesis
      using steady_idle_part(2) [OF assms(1) True assms(2) k(1), of 0] steady_idle_part(2) [OF assms(1) True assms(2) k(1), of 1] by simp
  qed
  have pos: "set (filter (\<lambda>n. n > 0) ?nums) \<subseteq> {?q, ?q + 1}" "filter (\<lambda>n. n > 0) ?nums \<noteq> []"
    using nums q by (auto simp: filter_empty_conv simp del: set_concat)
  then obtain x xs where x: "filter (\<lambda>n. n > 0) ?nums = x # xs" by (cases "filter (\<lambda>n. n > 0) ?nums") auto
  have "fold max xs x \<in> {?q, ?q + 1}" "fold min xs x \<in> {?q, ?q + 1}"
    using fold_max_in [of xs x] fold_min_in [of xs x] pos(1) unfolding x by auto
  moreover have "fold min xs x \<le> fold max xs x" 
    using fold_max_ge [of "fold min xs x" x xs] fold_min_in [of xs x] by blast
  ultimately have "\<not> usize_sub (fold max xs x) (fold min xs x) > 1" by (auto simp: usize_sub_in_range)
  moreover have "concat (map (\<lambda>chunk. if fst (stable_slots chunk) = None \<and> snd (stable_slots chunk) \<noteq> None then [ScatteredSlots] else [])
      (cs_chunks c)) = []" using scat by (simp only: concat_eq_Nil_conv set_map) fastforce
  ultimately show ?thesis using x True by (simp add: check_slots_balance_def idle_set list_ex_iff Let_def)
qed



subsection \<open>Errors\<close>

definition failed :: "meta_store \<Rightarrow> 'a result \<Rightarrow> bool" where
  "failed s r \<longleftrightarrow> (\<forall>e. fst r = Err e \<longrightarrow> clusters (snd r) = clusters s \<and> all_proxies (snd r) = all_proxies s)"

lemma failed_ok: "failed s (Ok x, s')"
  by (simp add: failed_def)

lemma failed_reply: "failed s r \<Longrightarrow> failed s (reply f r)"
  by (cases "fst r") (auto simp: failed_def reply_def)

lemma failed_answer: "failed s (answer r s)"
  by (auto simp: failed_def answer_def split: option.split)

lemma restore_failed: "failed s (restore m s)"
  by (auto simp: failed_def restore_def)

lemma add_cluster_failed:
  assumes "registry_ok s"
  shows "failed s (add_cluster name num cfg s)"
  using assms by (cases rule: add_cluster_cases [of s name num cfg]) (simp_all add: failed_def)

lemma remove_cluster_failed: "failed s (remove_cluster name s)"
  by (auto simp: failed_def remove_cluster_def cluster_name_try_from_if split: option.split)

lemma auto_add_failed:
  assumes "registry_ok s" "clusters_wf s"
  shows "failed s (auto_add_nodes name num s)"
  using assms by (cases rule: auto_add_nodes_cases [of s name num]) (simp_all add: failed_def)

lemma auto_scale_up_failed: "registry_ok s \<Longrightarrow> clusters_wf s \<Longrightarrow> failed s (auto_scale_up_nodes name num s)"
  using auto_add_failed [of s name]
  by (auto simp: auto_scale_up_nodes_def Let_def cluster_name_try_from_if failed_def split: option.split)

lemma auto_delete_failed: "failed s (auto_delete_free_nodes name s)"
  by (cases rule: auto_delete_free_nodes_cases [of name s]) (simp_all add: failed_def)

lemma migrate_failed:
  assumes "store_ok s" "sizes_ok s"
  shows "failed s (migrate_slots name s)"
  using assms by (cases rule: migrate_slots_cases [of s name]) (auto simp: failed_def)

lemma scale_down_failed:
  assumes "store_ok s" "sizes_ok s"
  shows "failed s (migrate_slots_to_scale_down name num s)"
  using assms by (cases rule: scale_down_cases [of s name num]) (auto simp: failed_def)

lemma scale_out_failed: "store_ok s \<Longrightarrow> sizes_ok s \<Longrightarrow> failed s (auto_scale_out_node_number name num s)"
  using migrate_failed [of s name] by (auto simp: auto_scale_out_node_number_def failed_def split: option.split)

lemma change_config_failed: "failed s (change_config name cfg s)"
  by (cases rule: change_config_cases [of name cfg s]) (simp_all add: failed_def)

lemma balance_failed: "failed s (balance_masters name s)"
  by (cases rule: balance_masters_cases [of name s]) (simp_all add: failed_def)

lemma add_proxy_failed: "failed s (add_proxy a nodes h i s)"
  by (auto simp: failed_def add_proxy_def Let_def hm_or_insert_def)

lemma remove_proxy_failed: "failed s (remove_proxy a s)"
  by (auto simp: failed_def remove_proxy_def split: option.split)

lemma force_failed: "failed s (force_bump_all_epoch e s)"
  by (simp add: failed_def force_bump_all_epoch_def)

lemma commit_failed:
  assumes "clusters_wf s"
  shows "failed s (commit_migration task s)"
  using assms by (cases rule: commit_migration_cases [of s task]) (simp_all add: failed_def)



subsection \<open>The properties\<close>

text \<open>
  (C2) No run of the broker panics: whatever requests a broker has served since it was new, restored
  snapshots of other runs included, the next request gives a reply or an error. (No cluster has
  grown beyond 90 chunks, that is 360 nodes.)
\<close>

theorem broker_never_panics:
  assumes "reach s"
  shows "fst (memory_storage req s) \<noteq> Panic"
proof (cases "\<exists>m. req = RestoreMetadata m")
  case True
  then show ?thesis by (auto simp: reply_def restore_def split: if_splits)
next
  case False
  with reach_ok [OF assms] memory_storage_sound [of s req] show ?thesis by (auto simp: sound_def)
qed

theorem broker_never_panics_witness:
  "reach example_s2 \<and> fst (memory_storage (MigrateSlots ''db'') example_s2) \<noteq> Panic"
  using broker_never_panics [OF example_reach_s2] example_reach_s2 by blast

text \<open>
  (C3) In every run the metadata is consistent: the proxies of the clusters are registered, are in one
  cluster each, and name that cluster; the broker's own check finds no fault.
\<close>

theorem reachable_metadata_is_consistent:
  assumes "reach s"
  shows "check_metadata s \<and> memory_storage CheckMetadata s = (Ok (RCheck None), s)"
  using reach_ok [OF assms] by (simp add: store_ok_def registry_ok_def check_metadata_iff meta_check_def)

theorem reachable_metadata_is_consistent_witness:
  "reach example_s2 \<and> check_metadata example_s2"
  using reachable_metadata_is_consistent [OF example_reach_s2] example_reach_s2 by blast

text \<open>
  (C1) In every run the slots of every cluster are partitioned: each of the 16384 slots is owned by
  exactly one part of a chunk, the two sides of every migration agree, and the load, counting the
  slots under way, is spread evenly over the first chunks of the cluster. The broker's own balance
  check reports nothing.
\<close>

theorem reachable_clusters_are_partitioned:
  assumes "reach s" "hm_get (clusters s) name = Some c"
  shows "slots_inv all_slots (cs_chunks c) \<and> (\<exists>n. balanced n (cs_chunks c)) \<and> check_slots_balance c = []"
proof -
  have ok: "store_ok s" "sizes_ok s" using reach_ok [OF assms(1)] by auto
  then obtain n where n: "steady n (cs_chunks c)" "length (cs_chunks c) \<le> max_chunks"
    using assms(2) unfolding store_ok_def sizes_ok_def by blast
  then have "check_slots_balance c = []" using check_slots_balance_quiet steady_small by blast
  with n(1) show ?thesis by (auto simp: steady_def)
qed

theorem reachable_clusters_are_partitioned_witness:
  "\<exists>c. hm_get (clusters example_s2) ''db'' = Some c \<and> slots_inv all_slots (cs_chunks c) \<and> (\<exists>n. balanced n (cs_chunks c))"
proof -
  obtain c where "hm_get (clusters example_s2) ''db'' = Some c" by (rule example_s2_cluster)
  with reachable_clusters_are_partitioned [OF example_reach_s2 this] show ?thesis by blast
qed



text \<open>
  (C5) Epochs order the versions of a cluster: as long as the global epoch has not come to its end, a
  request never lowers it, and a cluster that the request changes gets an epoch above every epoch
  the broker had issued before. (Restoring a snapshot replaces the store.)
\<close>

theorem changed_cluster_gets_newer_epoch:
  assumes "reach s" "\<And>m. req \<noteq> RestoreMetadata m" "unat (global_epoch s) + 2 < 2 ^ 64" "memory_storage req s = (reply', s')"
  shows "global_epoch s \<le> global_epoch s' \<and> (\<forall>name c'. hm_get (clusters s') name = Some c' \<longrightarrow>
    hm_get (clusters s) name = Some c' \<or> global_epoch s < cs_epoch c' \<and> cs_epoch c' \<le> global_epoch s')"
proof -
  have "epoch_step s (snd (memory_storage req s))"
    by (rule memory_storage_epoch) (use reach_ok [OF assms(1)] assms(2,3) in auto)
  then show ?thesis unfolding assms(4) epoch_step_def snd_conv .
qed

theorem changed_cluster_gets_newer_epoch_witness:
  "\<exists>c'. hm_get (clusters example_s2) ''db'' = Some c' \<and> global_epoch example_s1 < cs_epoch c'"
proof -
  obtain r where r: "memory_storage (AutoAddNodes ''db'' 4) example_s1 = (r, example_s2)"
    by (cases "memory_storage (AutoAddNodes ''db'' 4) example_s1") (simp add: example_s2_def run_def del: memory_storage.simps)
  obtain c' where c': "hm_get (clusters example_s2) ''db'' = Some c'" by (rule example_s2_cluster)
  have "hm_get (clusters example_s1) ''db'' \<noteq> Some c'"
    using c' by (auto simp: example_s1 example_s2 hm_get_def)
  moreover have "unat (global_epoch example_s1) + 2 < 2 ^ 64" by (simp add: example_s1)
  ultimately show ?thesis using changed_cluster_gets_newer_epoch [OF example_reach_s1 _ _ r] c' by blast
qed





text \<open>
  (C11) Migrations can always be finished: from every reachable store, committing the tasks of a
  cluster, as many as it has running, leads to a store where the cluster has none, and where it is
  still partitioned and balanced.
\<close>

theorem running_migrations_can_be_committed:
  assumes "reach s" "hm_get (clusters s) name = Some c"
  shows "\<exists>tasks s' c'. length tasks = size (chunks_keys True (cs_chunks c)) \<and>
    s' = fold (\<lambda>task s. snd (memory_storage (CommitMigration task False) s)) tasks s \<and>
    reach s' \<and> hm_get (clusters s') name = Some c' \<and> \<not> cs_is_migrating c' \<and>
    slots_inv all_slots (cs_chunks c') \<and> (\<exists>n. balanced n (cs_chunks c'))"
proof -
  from commit_all [OF assms refl] obtain tasks c' where t: "length tasks = size (chunks_keys True (cs_chunks c))"
    "reach (run (map (\<lambda>task. CommitMigration task False) tasks) s)"
    "hm_get (clusters (run (map (\<lambda>task. CommitMigration task False) tasks) s)) name = Some c'" "idle (cs_chunks c')" by blast
  have f: "run (map (\<lambda>task. CommitMigration task False) tasks) s = fold (\<lambda>task s. snd (memory_storage (CommitMigration task False) s)) tasks s"
    by (simp add: run_def fold_map comp_def del: memory_storage.simps)
  from reach_ok [OF t(2)] t(3) obtain n where "steady n (cs_chunks c')" unfolding store_ok_def by blast
  then have "slots_inv all_slots (cs_chunks c')" "balanced n (cs_chunks c')" by (simp_all add: steady_def)
  with t show ?thesis unfolding f is_migrating_idle not_not by blast
qed

theorem running_migrations_can_be_committed_witness:
  "\<exists>tasks s' c'. length tasks = 2 \<and> s' = fold (\<lambda>task s. snd (memory_storage (CommitMigration task False) s)) tasks example_s3 \<and>
     reach s' \<and> hm_get (clusters s') ''db'' = Some c' \<and> \<not> cs_is_migrating c'"
proof -
  obtain c where c: "hm_get (clusters example_s3) ''db'' = Some c" "size (chunks_keys True (cs_chunks c)) = 2"
    using example_s3(2) by blast
  from running_migrations_can_be_committed [OF example_s3(1) c(1)] show ?thesis unfolding c(2) by blast
qed

text \<open>
  (C14) A commit moves exactly the slots of its task: the part of the chunk that imports them owns them
  from then on, every other part keeps its slots, the task is no longer running, and every other
  migration still is. Both sides of the task must be recorded with its epoch.
\<close>

theorem commit_moves_exactly_the_task:
  assumes "reach s" "commit_migration task s = (Ok (), s')" "rl = sr_range_list (mt_slot_range task)"
  shows "\<exists>c c' meta. hm_get (clusters s) (mt_cluster_name task) = Some c \<and> hm_get (clusters s') (mt_cluster_name task) = Some c' \<and>
    (\<forall>b. chunks_keys b (cs_chunks c) = add_mset (rl, meta) (chunks_keys b (cs_chunks c'))) \<and>
    (\<forall>k < length (cs_chunks c). \<forall>j < 2. mset (opt_slots (part j (stable_slots (cs_chunks c' ! k)))) =
       mset (opt_slots (part j (stable_slots (cs_chunks c ! k)))) +
       (if (k, j) = (dst_chunk_index meta, dst_chunk_part meta) then mset (rl_slots rl) else {#}))"
proof -
  have ok: "store_ok s" using reach_ok [OF assms(1)] by blast
  from store_ok_wf [OF ok] show ?thesis
  proof (cases rule: commit_migration_cases [of s task])
    case (err e)
    with assms(2) show ?thesis by simp
  next
    case (ok c c' rl' meta)
    from \<open>store_ok s\<close> ok(1) obtain n where "steady n (cs_chunks c)" unfolding store_ok_def by blast
    then have inv: "slots_inv all_slots (cs_chunks c)" by (simp add: steady_def)
    have rl: "rl' = rl" using ok(2) assms(3) by simp
    note cc = commit_chunks_correct [OF inv uniq_all_slots ok(5) refl]
    have "hm_get (clusters s') (mt_cluster_name task) = Some c'" using assms(2) ok(1,7) by auto
    with ok(1,6) cc(5,7) show ?thesis unfolding rl by (intro exI [of _ c] exI [of _ c'] exI [of _ meta]) simp
  qed
qed

theorem commit_moves_exactly_the_task_witness:
  "\<exists>key s'. commit_migration (task_of ''db'' key) example_s3 = (Ok (), s') \<and>
     (\<exists>c c' meta. hm_get (clusters example_s3) ''db'' = Some c \<and> hm_get (clusters s') ''db'' = Some c' \<and>
       (\<forall>b. chunks_keys b (cs_chunks c) = add_mset (fst key, meta) (chunks_keys b (cs_chunks c'))))"
proof -
  obtain c where c: "hm_get (clusters example_s3) ''db'' = Some c" "size (chunks_keys True (cs_chunks c)) = 2"
    using example_s3(2) by blast
  then obtain key where k: "key \<in># chunks_keys True (cs_chunks c)" by (metis Suc_1 size_eq_Suc_imp_elem)
  have "clusters_wf example_s3" using store_ok_wf reach_ok [OF example_s3(1)] by blast
  from commit_available [OF this c(1) k] obtain s' where s': "commit_migration (task_of ''db'' key) example_s3 = (Ok (), s')" by blast
  from commit_moves_exactly_the_task [OF example_s3(1) s' refl] s' show ?thesis
    by (intro exI [of _ key] exI [of _ s']) (simp add: task_of_def, blast)
qed

text \<open>
  (C15) A request that reports an error has changed neither the clusters nor the registered proxies.
  The exceptions are the operations that go on after a first part succeeded: the failover, which
  takes over the masters before it looks for a new proxy, and the two that first delete the free
  nodes or commit the migration.
\<close>

theorem failed_request_changes_no_cluster:
  assumes "reach s" "memory_storage req s = (Err e, s')"
    and "\<And>a lim. req \<noteq> ReplaceFailedProxy a lim" "\<And>n num. req \<noteq> AutoChangeNodeNumber n num" "\<And>task. req \<noteq> CommitMigration task True"
  shows "clusters s' = clusters s \<and> all_proxies s' = all_proxies s"
proof -
  have ok: "store_ok s" "sizes_ok s" "registry_ok s" "clusters_wf s" using reach_ok [OF assms(1)] store_ok_wf by (auto simp: store_ok_def)
  have f: "failed s (memory_storage req s)"
  proof (cases req)
    case (GetFailures within_ttl quorum)
    then show ?thesis by (simp add: failed_def case_prod_beta)
  next
    case (CommitMigration task clear)
    with assms(5) have "clear = False" by (cases clear) auto
    with CommitMigration show ?thesis using commit_failed [OF ok(4), of task]
      by (auto simp: failed_def reply_def meta_commit_migration_def split: outcome.splits prod.splits)
  next
    case (ReplaceFailedProxy a lim)
    with assms(3) show ?thesis by blast
  next
    case (AutoChangeNodeNumber n num)
    with assms(4) show ?thesis by blast
  qed (simp_all add: failed_reply failed_answer failed_ok restore_failed add_cluster_failed [OF ok(3)] remove_cluster_failed auto_add_failed [OF ok(3,4)]
      auto_scale_up_failed [OF ok(3,4)] auto_delete_failed scale_down_failed [OF ok(1,2)] migrate_failed [OF ok(1,2)]
      scale_out_failed [OF ok(1,2)] change_config_failed balance_failed add_proxy_failed remove_proxy_failed force_failed)
  then show ?thesis using assms(2) by (simp add: failed_def)
qed

theorem failed_request_changes_no_cluster_witness:
  "\<exists>e s'. memory_storage (AddCluster ''db'' 4 cluster_config_default) example_s1 = (Err e, s') \<and> clusters s' = clusters example_s1"
proof -
  have e: "memory_storage (AddCluster ''db'' 4 cluster_config_default) example_s1 = (Err OneClusterAlreadyExisted, example_s1)"
    by (simp add: reply_def add_cluster_def example_s1)
  from failed_request_changes_no_cluster [OF example_reach_s1 e] e show ?thesis by blast
qed



subsection \<open>Beyond the bound\<close>

text \<open>
  With more than 90 chunks the shares of two neighbouring cluster sizes can agree, and then a
  destination needs no slot: the loop takes the range from \<open>start\<close> to \<open>start - 1\<close>, which
  the compaction turns into two slots that were not removed.
\<close>

lemma scale_down_loop_planned:
  assumes "remove_loop_to_scale_down e av rm ex dnum i j rl st = Some y"
  shows "\<exists>new. planned (snd y) = planned st @ new"
proof (rule remove_loop_to_scale_down.raw_induct
    [where P = "\<lambda>e av rm ex dnum i j rl st y. \<exists>new. planned (snd y) = planned st @ new", OF _ assms], goal_cases)
  case (1 loop e av rm ex dnum i j rl st y)
  have p: "planned (add_to_dst r n st) = planned st" "planned (hand_over m b st) = planned st @ [\<lparr>mg_ranges = rl_new (curr_dst_slots st), mg_meta = m\<rparr>]"
    for r n m b st by (simp_all add: add_to_dst_def hand_over_def Let_def)
  have step: "\<exists>new. planned (snd y) = planned st @ new" if "loop e av rm ex dnum i j rl' st' = Some y" "planned st' = planned st @ new'" for rl' st' new'
    using 1(1) [OF that(1)] that(2) by auto
  have steps: "loop e av rm ex dnum i j rl' (add_to_dst r n st) = Some y \<Longrightarrow> \<exists>new. planned (snd y) = planned st @ new"
    "loop e av rm ex dnum i j rl' (hand_over m b (add_to_dst r n st)) = Some y \<Longrightarrow> \<exists>new. planned (snd y) = planned st @ new" for rl' r n m b
    using step [of rl' "add_to_dst r n st" "[]"] step [of rl' "hand_over m b (add_to_dst r n st)"] by (simp_all add: p)
  from 1(2) show ?case
    by (auto simp: Let_def p split: if_splits option.splits dest: steps)
qed

lemma zero_need_loop:
  assumes "remove_loop_to_scale_down e 90 4 (map (share 184) [0 ..< 182]) 182 91 0 [(16206, 16294)] remove_start = Some y"
  shows "2 \<le> count (plan_slots (planned (snd y))) 16209"
proof -
  note defs = list_get_def share_def SLOT_NUM_def final_num_def usize_add_def usize_sub_def get_slots_num_def take_first_def
     range_num_def add_to_dst_def hand_over_def usize_sum_def rl_new_def compact_eq_merge_sorted range_normalize_def
  from assms have "\<exists>rl st. remove_loop_to_scale_down e 90 4 (map (share 184) [0 ..< 182]) 182 91 0 rl st = Some y \<and>
      map mg_ranges (planned st) = [[(16206, 16206)], [(16207, 16207)], [(16208, 16208)], [(16209, 16209)], [(16209, 16210)]]"
    unfolding remove_start_def
    apply (subst (asm) remove_loop_to_scale_down.simps)
    apply (subst (asm) remove_loop_to_scale_down.simps)
    apply (subst (asm) remove_loop_to_scale_down.simps)
    apply (subst (asm) remove_loop_to_scale_down.simps)
    apply (subst (asm) remove_loop_to_scale_down.simps)
    apply (simp add: defs)
    apply (intro exI conjI, assumption)
    apply simp
    done
  then obtain rl st where l: "remove_loop_to_scale_down e 90 4 (map (share 184) [0 ..< 182]) 182 91 0 rl st = Some y"
    and m: "map mg_ranges (planned st) = [[(16206, 16206)], [(16207, 16207)], [(16208, 16208)], [(16209, 16209)], [(16209, 16210)]]" by (elim exE conjE) (rule that)
  have "plan_slots (planned st) = sum_list (map (\<lambda>r. mset (rl_slots r)) (map mg_ranges (planned st)))"
    by (simp add: plan_slots_def comp_def)
  then have "2 \<le> count (plan_slots (planned st)) 16209" unfolding m by (simp add: range_slots_def upt_rec)
  with scale_down_loop_planned [OF l] show ?thesis by auto
qed

text \<open>
  (C30) Scaling a new cluster of 92 chunks (368 nodes) down to 91 chunks never gives a correct plan: the
  planned migrations hand over slot 16209 twice.
\<close>

theorem scale_down_of_large_cluster_duplicates_slot:
  assumes "length ps = 92" "proxy_resource_to_chunk_store ps True = Some chunks"
  shows "\<not> (\<exists>chunks' plan. remove_slots_from_src_to_scale_down e 91 chunks = Some (chunks', plan) \<and> uniq (plan_slots plan))"
proof
  assume "\<exists>chunks' plan. remove_slots_from_src_to_scale_down e 91 chunks = Some (chunks', plan) \<and> uniq (plan_slots plan)"
  then obtain chunks' plan where p: "remove_slots_from_src_to_scale_down e 91 chunks = Some (chunks', plan)" "uniq (plan_slots plan)" by blast
  have ch: "chunks = chunk_stores_from (SLOT_NUM div (length ps * 2)) (SLOT_NUM - SLOT_NUM div (length ps * 2) * (length ps * 2)) True 0 0 ps"
    using assms by (simp add: proxy_resource_to_chunk_store_def Let_def)
  have l: "0 < length ps" "length ps * 2 \<le> SLOT_NUM" using assms(1) by (simp_all add: SLOT_NUM_def)
  note c = new_cluster_chunks [OF l ch]
  have st: "part j (stable_slots (chunks ! k)) = Some (share_range 184 (2 * k + j))" if "k < 92" "j < 2" for k j
    using c(4) [of k j] that assms(1) by simp
  have len: "length chunks = 92" using c(3) assms(1) by simp
  have num: "stable_num (Some (share_range 184 i)) = share 184 i" if "i < 184" for i
    using share_range_slots [of 184 i] that by (simp add: stable_num_length SLOT_NUM_def)
  have "concat (map (\<lambda>chunk. map stable_num (arr2_list (stable_slots chunk))) (take n chunks)) = map (share 184) [0 ..< 2 * n]" if "n \<le> 91" for n
    using that
  proof (induction n)
    case (Suc n)
    then have "take (Suc n) chunks = take n chunks @ [chunks ! n]" using len by (simp add: take_Suc_conv_app_nth)
    moreover have "stable_num (fst (stable_slots (chunks ! n))) = share 184 (2 * n)" "stable_num (snd (stable_slots (chunks ! n))) = share 184 (Suc (2 * n))"
      using st [of n 0] st [of n 1] num Suc.prems by simp_all
    ultimately show ?case using Suc by (simp add: arr2_list_def)
  qed simp
  from this [of 91] have ex: "concat (map (\<lambda>chunk. map stable_num (arr2_list (stable_slots chunk))) (take 91 chunks)) = map (share 184) [0 ..< 182]"
    by simp
  have last: "drop 91 chunks = [chunks ! 91]" using len by (intro nth_equalityI) simp_all
  from p(1) obtain chunks1 st' where f: "for_parts (remove_from_part_to_scale_down e 90 4 (map (share 184) [0 ..< 182]) 182) 91 [chunks ! 91] remove_start = Some (chunks1, st')"
    "plan = planned st'"
    unfolding remove_slots_from_src_to_scale_down_def Let_def ex last by (auto simp: SLOT_NUM_def)
  have s0: "fst (stable_slots (chunks ! 91)) = Some \<lparr>sr_range_list = [(16206, 16294)], sr_tag = TagNone\<rparr>"
    using st [of 91 0] by (simp add: share_range_def shares_eq share_def SLOT_NUM_def)
  from f(1) obtain y st1 where y: "remove_loop_to_scale_down e 90 4 (map (share 184) [0 ..< 182]) 182 91 0 [(16206, 16294)] remove_start = Some y"
    "remove_from_part_to_scale_down e 90 4 (map (share 184) [0 ..< 182]) 182 91 1 (snd (stable_slots (chunks ! 91))) (snd y) = Some st1"
    "st' = snd st1"
    by (auto simp: s0 remove_from_part_to_scale_down_def split: option.splits)
  have "\<exists>new. planned st' = planned (snd y) @ new"
    using y(2,3) scale_down_loop_planned by (fastforce simp: remove_from_part_to_scale_down_def split: option.splits)
  with zero_need_loop [OF y(1)] have "2 \<le> count (plan_slots plan) 16209" by (auto simp: f(2))
  with p(2) show False unfolding uniq_def by (metis One_nat_def Suc_1 not_less_eq_eq)
qed

theorem scale_down_of_large_cluster_duplicates_slot_witness:
  "\<exists>chunks. proxy_resource_to_chunk_store (replicate 92 (ex_pr ''a:1'' ''h1'' 0 None, ex_pr ''b:1'' ''h2'' 1 None)) True = Some chunks \<and>
     \<not> (\<exists>chunks' plan. remove_slots_from_src_to_scale_down 1 91 chunks = Some (chunks', plan) \<and> uniq (plan_slots plan))"
proof -
  obtain chunks where c: "proxy_resource_to_chunk_store (replicate 92 (ex_pr ''a:1'' ''h1'' 0 None, ex_pr ''b:1'' ''h2'' 1 None)) True = Some chunks"
    by (simp add: proxy_resource_to_chunk_store_def Let_def)
  with scale_down_of_large_cluster_duplicates_slot [OF _ c, of 1] show ?thesis by auto
qed

end
