(* ===== verification/UM_Resp.thy ===== *)
theory UM_Resp
  imports UM_Prelude
begin

section \<open>The RESP protocol: packets, encoder and incremental parser\<close>

text \<open>
  Model of \<open>protocol/resp.rs\<close>, \<open>protocol/stateless.rs\<close> and
  \<open>protocol/encoder.rs\<close>: the data type of RESP packets and its functor, the
  encoder as the sequence of its \<open>write\<close> calls, and the parser, which returns for
  every string of the packet the index range it has in the buffer.

  The crates \<open>memchr\<close> and \<open>btoi\<close> and the size the compiler gives to an element
  of the index vector are the fields of \<open>resp_lib\<close>, an argument of the parser; what
  the code relies on is the predicate \<open>lib_ok\<close>. The lemmas show that every index is in
  range, that the outcome on a buffer never changes when more data arrives unless it was
  "not enough data", and that parsing undoes encoding.
\<close>


subsection \<open>Packets\<close>

datatype 'a bulk_str = Str 'a | BulkNil

datatype 'a resp = Error 'a | Simple 'a | Bulk "'a bulk_str" | Integer 'a | Arr "'a array"
and 'a array = ArrayOf "'a resp list" | ArrayNil

type_synonym resp_vec = "string resp"

text \<open>A range of the buffer: start and end.\<close>

type_synonym data_index = "usize \<times> usize"

type_synonym resp_index = "data_index resp"

record indexed_resp =
  ir_resp :: resp_index
  ir_data :: string

text \<open>\<open>VFunctor::map\<close> for the three types.\<close>

primrec bulk_map :: "('a \<Rightarrow> 'b) \<Rightarrow> 'a bulk_str \<Rightarrow> 'b bulk_str" where
  "bulk_map f (Str t) = Str (f t)"
| "bulk_map f BulkNil = BulkNil"

primrec resp_map :: "('a \<Rightarrow> 'b) \<Rightarrow> 'a resp \<Rightarrow> 'b resp"
  and array_map :: "('a \<Rightarrow> 'b) \<Rightarrow> 'a array \<Rightarrow> 'b array" where
  "resp_map f (Error t) = Error (f t)"
| "resp_map f (Simple t) = Simple (f t)"
| "resp_map f (Bulk b) = Bulk (bulk_map f b)"
| "resp_map f (Integer t) = Integer (f t)"
| "resp_map f (Arr a) = Arr (array_map f a)"
| "array_map f (ArrayOf rs) = ArrayOf (map (resp_map f) rs)"
| "array_map f ArrayNil = ArrayNil"

text \<open>The strings of a packet, from left to right.\<close>

primrec bulk_leaves :: "'a bulk_str \<Rightarrow> 'a list" where
  "bulk_leaves (Str t) = [t]"
| "bulk_leaves BulkNil = []"

primrec resp_leaves :: "'a resp \<Rightarrow> 'a list"
  and array_leaves :: "'a array \<Rightarrow> 'a list" where
  "resp_leaves (Error t) = [t]"
| "resp_leaves (Simple t) = [t]"
| "resp_leaves (Bulk b) = bulk_leaves b"
| "resp_leaves (Integer t) = [t]"
| "resp_leaves (Arr a) = array_leaves a"
| "array_leaves (ArrayOf rs) = concat (map resp_leaves rs)"
| "array_leaves ArrayNil = []"

text \<open>
  \<open>DataIndex::advance\<close>, and \<open>AdvanceIndex::advance\<close>, which applies it to every
  index through \<open>map_in_place\<close>.
\<close>

definition index_advance :: "usize \<Rightarrow> data_index \<Rightarrow> data_index" where
  "index_advance n i = (usize_add (fst i) n, usize_add (snd i) n)"

definition bulk_advance :: "usize \<Rightarrow> data_index bulk_str \<Rightarrow> data_index bulk_str" where
  "bulk_advance n b = bulk_map (index_advance n) b"

definition array_advance :: "usize \<Rightarrow> data_index array \<Rightarrow> data_index array" where
  "array_advance n a = array_map (index_advance n) a"

definition resp_advance :: "usize \<Rightarrow> resp_index \<Rightarrow> resp_index" where
  "resp_advance n r = resp_map (index_advance n) r"

text \<open>\<open><[u8]>::get(s..e)\<close> with the range of an index.\<close>

definition slice_get :: "string \<Rightarrow> data_index \<Rightarrow> string option" where
  "slice_get data i =
     (if fst i \<le> snd i \<and> snd i \<le> length data then Some (take (snd i - fst i) (drop (fst i) data)) else None)"

text \<open>
  \<open>IndexedResp::to_resp_vec\<close>: every index is replaced by its part of the data, and an index
  out of range is a panic (\<^const>\<open>None\<close>).
\<close>

definition to_resp_vec :: "indexed_resp \<Rightarrow> resp_vec option" where
  "to_resp_vec ir =
     (let slices = resp_map (slice_get (ir_data ir)) (ir_resp ir)
      in if None \<in> set (resp_leaves slices) then None else Some (resp_map the slices))"

text \<open>
  \<open>IndexedResp::get_array_element\<close> and \<open>get_array_len\<close>. The outer option is the
  panic of \<open>expect\<close>.
\<close>

definition ir_get_array_element :: "indexed_resp \<Rightarrow> usize \<Rightarrow> string option option" where
  "ir_get_array_element ir index =
     (case ir_resp ir of
        Arr (ArrayOf rs) \<Rightarrow>
          (if index < length rs
           then (case rs ! index of
                   Bulk (Str i) \<Rightarrow> (case slice_get (ir_data ir) i of None \<Rightarrow> None | Some s \<Rightarrow> Some (Some s))
                 | _ \<Rightarrow> Some None)
           else Some None)
      | _ \<Rightarrow> Some None)"

definition ir_get_array_len :: "indexed_resp \<Rightarrow> usize option" where
  "ir_get_array_len ir = (case ir_resp ir of Arr (ArrayOf rs) \<Rightarrow> Some (length rs) | _ \<Rightarrow> None)"


subsection \<open>Encoder\<close>

text \<open>
  \<open>encode_resp\<close> is generic in its writer. It is modelled by the sequence of the strings it
  writes: a \<open>Vec<u8>\<close> as writer is extended by all of them (\<open>resp_to_buf\<close>), and the
  writer of the size hint only adds up their lengths (\<open>get_resp_size_hint\<close>).
\<close>

definition CRLF :: string where
  "CRLF = [CHR 0x0D, CHR 0x0A]"

definition encode_simple_element :: "string \<Rightarrow> string \<Rightarrow> string list" where
  "encode_simple_element prefix b = [prefix, b, CRLF]"

primrec encode_bulk_str :: "string bulk_str \<Rightarrow> string list" where
  "encode_bulk_str BulkNil = [''$-1'' @ CRLF]"
| "encode_bulk_str (Str s) = encode_simple_element ''$'' (show_nat (length s)) @ [s, CRLF]"

primrec encode_resp :: "resp_vec \<Rightarrow> string list"
  and encode_array :: "string array \<Rightarrow> string list" where
  "encode_resp (Error s) = encode_simple_element ''-'' s"
| "encode_resp (Simple s) = encode_simple_element ''+'' s"
| "encode_resp (Integer s) = encode_simple_element '':'' s"
| "encode_resp (Bulk bulk) = encode_bulk_str bulk"
| "encode_resp (Arr array) = encode_array array"
| "encode_array ArrayNil = [''*-1'' @ CRLF]"
| "encode_array (ArrayOf arr) =
     encode_simple_element ''*'' (show_nat (length arr)) @ concat (map encode_resp arr)"

text \<open>The buffer after the call and the number of bytes the call reports.\<close>

definition resp_to_buf :: "string \<Rightarrow> resp_vec \<Rightarrow> string \<times> usize" where
  "resp_to_buf buf resp = (buf @ concat (encode_resp resp), usize_sum (map length (encode_resp resp)))"

definition command_to_buf :: "string \<Rightarrow> string list \<Rightarrow> string \<times> usize" where
  "command_to_buf buf command = resp_to_buf buf (Arr (ArrayOf (map (\<lambda>s. Bulk (Str s)) command)))"

definition get_resp_size_hint :: "resp_vec \<Rightarrow> usize" where
  "get_resp_size_hint resp = usize_sum (map length (encode_resp resp))"


subsection \<open>Parser\<close>

datatype parse_error = InvalidProtocol | NotEnoughData | UnexpectedErr

text \<open>What a parser can do: return a value, return an error, or panic.\<close>

datatype 'a parsed = Done 'a | Fail parse_error | Crash

definition pbind :: "'a parsed \<Rightarrow> ('a \<Rightarrow> 'b parsed) \<Rightarrow> 'b parsed" where
  "pbind p f = (case p of Done a \<Rightarrow> f a | Fail e \<Rightarrow> Fail e | Crash \<Rightarrow> Crash)"

record resp_lib =
  memchr :: "char \<Rightarrow> string \<Rightarrow> usize option"
  btoi :: "string \<Rightarrow> int option"
  index_size :: usize

definition LF :: char where
  "LF = CHR 0x0A"

definition parse_line :: "resp_lib \<Rightarrow> string \<Rightarrow> (data_index \<times> usize) parsed" where
  "parse_line x buf =
     (case memchr x LF buf of
        None \<Rightarrow> Fail NotEnoughData
      | Some lf_index \<Rightarrow>
          if lf_index = 0 then Fail InvalidProtocol
          else Done ((0, usize_sub (usize_add lf_index 1) 2), usize_add lf_index 1))"

definition parse_len :: "resp_lib \<Rightarrow> string \<Rightarrow> (int \<times> usize) parsed" where
  "parse_len x buf =
     pbind (parse_line x buf) (\<lambda>(data_index, consumed).
       case slice_get buf data_index of
         None \<Rightarrow> Fail UnexpectedErr
       | Some next_buf \<Rightarrow>
           (case btoi x next_buf of None \<Rightarrow> Fail InvalidProtocol | Some len \<Rightarrow> Done (len, consumed)))"

definition parse_bulk_str :: "resp_lib \<Rightarrow> string \<Rightarrow> (data_index bulk_str \<times> usize) parsed" where
  "parse_bulk_str x buf =
     pbind (parse_len x buf) (\<lambda>(len, consumed).
       if len < 0 then Done (BulkNil, consumed)
       else let content_size = nat len in
         if length buf < usize_add (usize_add consumed content_size) 2 then Fail NotEnoughData
         else Done (Str (consumed, usize_add consumed content_size),
                    usize_add (usize_add consumed content_size) 2))"

text \<open>
  \<open>Vec::with_capacity\<close> panics when the requested capacity is more than
  \<open>isize::MAX\<close> bytes.
\<close>

definition capacity_ok :: "resp_lib \<Rightarrow> usize \<Rightarrow> bool" where
  "capacity_ok x n \<longleftrightarrow> n * index_size x < 2 ^ 63"

lemma pbind_cong [fundef_cong]:
  "p = p' \<Longrightarrow> (\<And>a. p' = Done a \<Longrightarrow> f a = f' a) \<Longrightarrow> pbind p f = pbind p' f'"
  by (simp add: pbind_def split: parsed.splits)

text \<open>
  \<open>parse_resp\<close>, \<open>parse_array\<close> and the \<open>for\<close> loop of the latter, which
  returns the parsed elements and the final value of \<open>consumed\<close>.
\<close>

function parse_resp :: "resp_lib \<Rightarrow> string \<Rightarrow> (resp_index \<times> usize) parsed"
  and parse_array :: "resp_lib \<Rightarrow> string \<Rightarrow> (data_index array \<times> usize) parsed"
  and parse_elements :: "resp_lib \<Rightarrow> usize \<Rightarrow> string \<Rightarrow> usize \<Rightarrow> (resp_index list \<times> usize) parsed"
where
  "parse_resp x buf =
     (case buf of
        [] \<Rightarrow> Fail NotEnoughData
      | prefix # next_buf \<Rightarrow>
          if prefix = CHR ''$'' then
            pbind (parse_bulk_str x next_buf) (\<lambda>(v, consumed).
              Done (Bulk (bulk_advance 1 v), usize_add 1 consumed))
          else if prefix = CHR ''+'' then
            pbind (parse_line x next_buf) (\<lambda>(v, consumed).
              Done (Simple (index_advance 1 v), usize_add 1 consumed))
          else if prefix = CHR '':'' then
            pbind (parse_line x next_buf) (\<lambda>(v, consumed).
              Done (Integer (index_advance 1 v), usize_add 1 consumed))
          else if prefix = CHR ''-'' then
            pbind (parse_line x next_buf) (\<lambda>(v, consumed).
              Done (Error (index_advance 1 v), usize_add 1 consumed))
          else if prefix = CHR ''*'' then
            pbind (parse_array x next_buf) (\<lambda>(v, consumed).
              Done (Arr (array_advance 1 v), usize_add 1 consumed))
          else Fail InvalidProtocol)"
| "parse_array x buf =
     pbind (parse_len x buf) (\<lambda>(len, consumed).
       if len < 0 then Done (ArrayNil, consumed)
       else if \<not> capacity_ok x (nat len) then Crash
       else pbind (parse_elements x (nat len) buf consumed) (\<lambda>(array, consumed').
         Done (ArrayOf array, consumed')))"
| "parse_elements x n buf consumed =
     (if n = 0 then Done ([], consumed)
      else if length buf < consumed then Fail InvalidProtocol
      else pbind (parse_resp x (drop consumed buf)) (\<lambda>(v, element_consumed).
        pbind (parse_elements x (n - 1) buf (usize_add consumed element_consumed)) (\<lambda>(vs, consumed').
          Done (resp_advance consumed v # vs, consumed'))))"
  by pat_completeness auto
termination
  by (relation "measures
       [\<lambda>p. case p of Inl (x, buf) \<Rightarrow> 3 * length buf
                  | Inr (Inl (x, buf)) \<Rightarrow> 3 * length buf + 2
                  | Inr (Inr (x, n, buf, consumed)) \<Rightarrow> 3 * length buf + 1,
        \<lambda>p. case p of Inr (Inr (x, n, buf, consumed)) \<Rightarrow> n | _ \<Rightarrow> 0]") auto

declare parse_resp.simps [simp del] parse_array.simps [simp del] parse_elements.simps [simp del]

text \<open>\<open>parse_indexed_resp\<close>: \<open>BytesMut::split_to\<close> panics past the end of the buffer.\<close>

definition parse_indexed_resp :: "resp_lib \<Rightarrow> string \<Rightarrow> (indexed_resp \<times> string) parsed" where
  "parse_indexed_resp x buf =
     pbind (parse_resp x buf) (\<lambda>(resp, consumed).
       if length buf < consumed then Crash
       else Done (\<lparr>ir_resp = resp, ir_data = take consumed buf\<rparr>, drop consumed buf))"


subsection \<open>What the parser relies on\<close>

text \<open>
  The documented behaviour of the crates: \<open>memchr\<close> returns the index of the first
  occurrence of a byte; \<open>btoi\<close> reads the decimal notation of an \<open>i64\<close> and only
  returns values of that type. An element of the index vector is not empty.
\<close>

definition memchr_ok :: "(char \<Rightarrow> string \<Rightarrow> usize option) \<Rightarrow> bool" where
  "memchr_ok f \<longleftrightarrow>
     (\<forall>c s. (f c s = None \<longleftrightarrow> c \<notin> set s) \<and>
       (\<forall>i. f c s = Some i \<longrightarrow> i < length s \<and> s ! i = c \<and> c \<notin> set (take i s)))"

definition btoi_ok :: "(string \<Rightarrow> int option) \<Rightarrow> bool" where
  "btoi_ok f \<longleftrightarrow>
     (\<forall>n. n < 2 ^ 63 \<longrightarrow> f (show_nat n) = Some (int n)) \<and> f ''-1'' = Some (- 1) \<and>
     (\<forall>s n. f s = Some n \<longrightarrow> - (2 ^ 63) \<le> n \<and> n < 2 ^ 63)"

definition lib_ok :: "resp_lib \<Rightarrow> bool" where
  "lib_ok x \<longleftrightarrow> memchr_ok (memchr x) \<and> btoi_ok (btoi x) \<and> 0 < index_size x"

text \<open>Buffers the arithmetic of the parser does not wrap on; a Rust allocation is always smaller than \<open>2 ^ 63\<close> bytes.\<close>

abbreviation max_buf :: nat where
  "max_buf \<equiv> 2 ^ 62"


subsection \<open>Laws of packets and indices\<close>

lemma pbind_simps [simp]:
  "pbind (Done a) f = f a" "pbind (Fail e) f = Fail e" "pbind Crash f = Crash"
  by (simp_all add: pbind_def)

lemma pbind_Done: "pbind p f = Done b \<longleftrightarrow> (\<exists>a. p = Done a \<and> f a = Done b)"
  by (cases p) auto

lemma bulk_map_comp [simp]: "bulk_map f (bulk_map g b) = bulk_map (\<lambda>a. f (g a)) b"
  by (cases b) auto

lemma resp_map_comp [simp]:
  "resp_map f (resp_map g r) = resp_map (\<lambda>a. f (g a)) r"
  "array_map f (array_map g a) = array_map (\<lambda>a. f (g a)) a"
  by (induction r and a) auto

lemma bulk_map_cong: "(\<And>a. a \<in> set (bulk_leaves b) \<Longrightarrow> f a = g a) \<Longrightarrow> bulk_map f b = bulk_map g b"
  by (cases b) auto

lemma resp_map_cong:
  "(\<And>a. a \<in> set (resp_leaves r) \<Longrightarrow> f a = g a) \<Longrightarrow> resp_map f r = resp_map g r"
  "(\<And>a. a \<in> set (array_leaves ar) \<Longrightarrow> f a = g a) \<Longrightarrow> array_map f ar = array_map g ar"
  by (induction r and ar) (auto intro!: bulk_map_cong)

lemma bulk_leaves_map [simp]: "bulk_leaves (bulk_map f b) = map f (bulk_leaves b)"
  by (cases b) auto

lemma resp_leaves_map [simp]:
  "resp_leaves (resp_map f r) = map f (resp_leaves r)"
  "array_leaves (array_map f a) = map f (array_leaves a)"
  by (induction r and a) (auto simp: map_concat intro!: arg_cong [where f = concat])

lemma resp_map_id [simp]:
  fixes r :: "'a resp" and ar :: "'a array"
  shows "resp_map (\<lambda>a. a) r = r" and "array_map (\<lambda>a. a) ar = ar"
proof (induction r and ar)
  case (Bulk b)
  then show ?case by (cases b) auto
qed (auto simp: map_idI)


subsection \<open>Indices stay in range\<close>

definition index_ok :: "usize \<Rightarrow> data_index \<Rightarrow> bool" where
  "index_ok c i \<longleftrightarrow> fst i \<le> snd i \<and> snd i \<le> c"

lemma index_ok_mono: "index_ok c i \<Longrightarrow> c \<le> c' \<Longrightarrow> index_ok c' i"
  by (simp add: index_ok_def)

lemma index_ok_advance: "index_ok c i \<Longrightarrow> c + n < 2 ^ 64 \<Longrightarrow> index_ok (c + n) (index_advance n i)"
  by (simp add: index_ok_def index_advance_def usize_simps)

lemma index_ok_slice: "index_ok (length data) i \<longleftrightarrow> slice_get data i \<noteq> None"
  by (simp add: index_ok_def slice_get_def)

lemma usize_add_small: "a + b \<le> l \<Longrightarrow> l < max_buf \<Longrightarrow> usize_add a b = a + b"
  by (simp add: usize_add_def)

lemma memchr_Some:
  assumes "lib_ok x" "memchr x c s = Some i"
  shows "i < length s" "s ! i = c" "c \<notin> set (take i s)"
  using assms unfolding lib_ok_def memchr_ok_def by blast+

lemma memchr_first:
  assumes "lib_ok x" "c \<notin> set u"
  shows "memchr x c (u @ c # v) = Some (length u)"
proof -
  from assms(1) have "memchr x c (u @ c # v) \<noteq> None"
    unfolding lib_ok_def memchr_ok_def by (metis in_set_conv_decomp)
  then obtain i where i: "memchr x c (u @ c # v) = Some i" by blast
  note found = memchr_Some [OF assms(1) i]
  have "\<not> i < length u" using found(2) assms(2) by (auto simp: nth_append)
  moreover have "\<not> length u < i"
  proof
    assume "length u < i"
    then have "c \<in> set (take i (u @ c # v))" by (cases "i - length u") auto
    with found(3) show False by blast
  qed
  ultimately show ?thesis using i by simp
qed

lemma memchr_append:
  assumes "lib_ok x" "memchr x c s = Some i"
  shows "memchr x c (s @ t) = Some i"
proof -
  note found = memchr_Some [OF assms]
  have "s = take i s @ c # drop (Suc i) s" using found(1,2) by (metis id_take_nth_drop)
  then have eq: "s @ t = take i s @ c # (drop (Suc i) s @ t)" by (metis append_Cons append_assoc)
  show ?thesis unfolding eq using memchr_first [OF assms(1) found(3)] found(1) by simp
qed

lemma btoi_bounds:
  "lib_ok x \<Longrightarrow> btoi x s = Some n \<Longrightarrow> n < 2 ^ 63"
  unfolding lib_ok_def btoi_ok_def by blast

lemma parse_line_Done:
  assumes "lib_ok x" "length buf < max_buf" "parse_line x buf = Done (i, c)"
  shows "i = (0, c - 2) \<and> 2 \<le> c \<and> c \<le> length buf"
proof -
  from assms(3) obtain lf where lf: "memchr x LF buf = Some lf"
    by (cases "memchr x LF buf") (simp_all add: parse_line_def)
  have "lf < length buf" using memchr_Some(1) [OF assms(1) lf] .
  then have "lf + 1 \<le> length buf" by simp
  from usize_add_small [OF this assms(2)] this assms(3) lf show ?thesis
    by (cases "lf = 0") (auto simp: parse_line_def usize_simps)
qed

lemma parse_len_Done:
  assumes "lib_ok x" "length buf < max_buf" "parse_len x buf = Done (n, c)"
  shows "n < 2 ^ 63 \<and> 2 \<le> c \<and> c \<le> length buf"
proof -
  from assms(3) obtain i s where i: "parse_line x buf = Done (i, c)" and s: "btoi x s = Some n"
    by (auto simp: parse_len_def pbind_Done split: option.splits)
  show ?thesis using parse_line_Done [OF assms(1,2) i] btoi_bounds [OF assms(1) s] by simp
qed

lemma parse_bulk_str_Done:
  assumes "lib_ok x" "length buf < max_buf" "parse_bulk_str x buf = Done (b, c)"
  shows "2 \<le> c \<and> c \<le> length buf \<and> list_all (index_ok c) (bulk_leaves b)"
proof -
  from assms(3) obtain n k where n: "parse_len x buf = Done (n, k)"
    and rest: "if n < 0 then b = BulkNil \<and> c = k
      else usize_add (usize_add k (nat n)) 2 \<le> length buf \<and> b = Str (k, usize_add k (nat n)) \<and>
        c = usize_add (usize_add k (nat n)) 2"
    by (auto simp: parse_bulk_str_def pbind_Done Let_def split: if_splits)
  note k = parse_len_Done [OF assms(1,2) n]
  then have "nat n < 2 ^ 63" by (simp only: nat_less_numeral_power_cancel_iff)
  then have "k + nat n + 2 < 2 ^ 64" using k assms(2) by simp
  then have "usize_add k (nat n) = k + nat n" "usize_add (k + nat n) 2 = k + nat n + 2"
    by (simp_all add: usize_simps)
  with rest k show ?thesis by (auto simp: index_ok_def split: if_splits)
qed


text \<open>The packet as a whole: every index lies in the bytes that were consumed.\<close>

definition resp_ok :: "usize \<Rightarrow> resp_index \<Rightarrow> bool" where
  "resp_ok c r \<longleftrightarrow> list_all (index_ok c) (resp_leaves r)"

lemma list_all_index_mono:
  "list_all (index_ok c) is \<Longrightarrow> c \<le> c' \<Longrightarrow> list_all (index_ok c') is"
  by (auto simp: list_all_iff intro: index_ok_mono)

lemma list_all_index_advance:
  "list_all (index_ok c) is \<Longrightarrow> c + n < 2 ^ 64 \<Longrightarrow> list_all (index_ok (c + n)) (map (index_advance n) is)"
  by (auto simp: list_all_iff intro: index_ok_advance)

lemma parse_Done:
  shows "length buf < max_buf \<Longrightarrow> lib_ok x \<Longrightarrow> parse_resp x buf = Done (r, c) \<Longrightarrow>
      0 < c \<and> c \<le> length buf \<and> resp_ok c r"
    and "length buf < max_buf \<Longrightarrow> lib_ok x \<Longrightarrow> parse_array x buf = Done (a, c) \<Longrightarrow>
      2 \<le> c \<and> c \<le> length buf \<and> list_all (index_ok c) (array_leaves a)"
    and "length buf < max_buf \<Longrightarrow> lib_ok x \<Longrightarrow> k \<le> length buf \<Longrightarrow> parse_elements x n buf k = Done (rs, c) \<Longrightarrow>
      k \<le> c \<and> c \<le> length buf \<and> list_all (resp_ok c) rs"
proof (induction x buf and x buf and x n buf k arbitrary: r c and a c and rs c
       rule: parse_resp_parse_array_parse_elements.induct)
  case (1 x buf)
  from "1.prems"(3) obtain p next_buf where buf: "buf = p # next_buf"
    by (cases buf) (auto simp: parse_resp.simps)
  have len: "length next_buf < max_buf" using "1.prems"(1) buf by simp
  note lib = "1.prems"(2)
  have step: "0 < usize_add 1 k \<and> usize_add 1 k \<le> length buf \<and>
      list_all (index_ok (usize_add 1 k)) (map (index_advance 1) is)"
    if "k \<le> length next_buf" "list_all (index_ok k) is" for k "is"
    using list_all_index_advance [OF that(2), of 1] that(1) len buf by (simp add: usize_simps)
  consider (bulk) b k where "parse_bulk_str x next_buf = Done (b, k)" "r = Bulk (bulk_advance 1 b)" "c = usize_add 1 k"
    | (line) i k where "parse_line x next_buf = Done (i, k)" "resp_leaves r = [index_advance 1 i]" "c = usize_add 1 k"
    | (array) a k where "p = CHR ''*''" "parse_array x next_buf = Done (a, k)" "r = Arr (array_advance 1 a)" "c = usize_add 1 k"
    using "1.prems"(3) unfolding buf parse_resp.simps [of x "p # next_buf"] list.case pbind_Done
    by (auto simp: pbind_Done split: if_splits)
  then show ?case
  proof cases
    case bulk
    from parse_bulk_str_Done [OF lib len bulk(1)] have "k \<le> length next_buf" "list_all (index_ok k) (bulk_leaves b)" by simp_all
    from step [OF this] show ?thesis by (simp add: bulk resp_ok_def bulk_advance_def)
  next
    case line
    from parse_line_Done [OF lib len line(1)] have "k \<le> length next_buf" "list_all (index_ok k) [i]"
      by (simp_all add: index_ok_def)
    from step [OF this] show ?thesis by (simp add: line resp_ok_def)
  next
    case array
    from "1.IH" [OF buf _ _ _ _ array(1) len lib array(2)] array(1)
    have "k \<le> length next_buf" "list_all (index_ok k) (array_leaves a)" by simp_all
    from step [OF this] show ?thesis by (simp add: array resp_ok_def array_advance_def)
  qed
next
  case (2 x buf)
  from "2.prems"(3) obtain n k where n: "parse_len x buf = Done (n, k)"
    and rest: "if n < 0 then a = ArrayNil \<and> c = k
      else capacity_ok x (nat n) \<and> (\<exists>rs. parse_elements x (nat n) buf k = Done (rs, c) \<and> a = ArrayOf rs)"
    by (auto simp: parse_array.simps [of x buf] pbind_Done split: if_splits)
  note k = parse_len_Done [OF "2.prems"(2,1) n]
  show ?case
  proof (cases "n < 0")
    case True
    with rest k show ?thesis by simp
  next
    case False
    with rest obtain rs where rs: "capacity_ok x (nat n)" "parse_elements x (nat n) buf k = Done (rs, c)"
      "a = ArrayOf rs" by auto
    have "k \<le> c \<and> c \<le> length buf \<and> list_all (resp_ok c) rs"
      using "2.IH" [OF n refl False _ "2.prems"(1,2) _ rs(2)] rs(1) k by simp
    with rs k show ?thesis by (auto simp: resp_ok_def list_all_iff)
  qed
next
  case (3 x n buf k)
  show ?case
  proof (cases "n = 0")
    case True
    with "3.prems" show ?thesis by (simp add: parse_elements.simps [of x 0])
  next
    case False
    with "3.prems" obtain v e vs where v: "parse_resp x (drop k buf) = Done (v, e)"
      and vs: "parse_elements x (n - 1) buf (usize_add k e) = Done (vs, c)" "rs = resp_advance k v # vs"
      by (auto simp: parse_elements.simps [of x n] pbind_Done)
    have ok: "\<not> length buf < k" using "3.prems"(3) by simp
    have e: "0 < e \<and> e \<le> length buf - k \<and> resp_ok e v"
      using "3.IH"(1) [OF False ok _ "3.prems"(2) v] "3.prems"(1) by simp
    then have add: "usize_add k e = k + e" using "3.prems"(1,3) by (intro usize_add_small [of k e "length buf"]) linarith+
    have "usize_add k e \<le> length buf" using e add "3.prems"(3) by linarith
    from "3.IH"(2) [OF False ok v refl "3.prems"(1,2) this vs(1)] add
    have "k + e \<le> c \<and> c \<le> length buf \<and> list_all (resp_ok c) vs" by simp
    moreover from this have "resp_ok c (resp_advance k v)"
      using list_all_index_advance [of e "resp_leaves v" k] e "3.prems"(1,3)
      by (auto simp: resp_ok_def resp_advance_def add.commute elim!: list_all_index_mono)
    ultimately show ?thesis using vs(2) by simp
  qed
qed


subsection \<open>More data never changes an outcome\<close>

lemma pbind_stable:
  assumes "pbind p f \<noteq> Fail NotEnoughData"
    and "p \<noteq> Fail NotEnoughData \<Longrightarrow> p' = p"
    and "\<And>a. p = Done a \<Longrightarrow> f a \<noteq> Fail NotEnoughData \<Longrightarrow> f' a = f a"
  shows "pbind p' f' = pbind p f"
  using assms by (cases p) auto

lemma slice_get_append: "slice_get buf i = Some s \<Longrightarrow> slice_get (buf @ ext) i = Some s"
  by (auto simp: slice_get_def split: if_splits)

lemma parse_line_stable:
  "lib_ok x \<Longrightarrow> parse_line x buf \<noteq> Fail NotEnoughData \<Longrightarrow> parse_line x (buf @ ext) = parse_line x buf"
  by (cases "memchr x LF buf") (simp_all add: parse_line_def memchr_append)

lemma parse_len_stable:
  assumes "lib_ok x" "length buf < max_buf" "parse_len x buf \<noteq> Fail NotEnoughData"
  shows "parse_len x (buf @ ext) = parse_len x buf"
  unfolding parse_len_def
proof (rule pbind_stable)
  fix a :: "data_index \<times> usize" assume a: "parse_line x buf = Done a"
  obtain i c where ic: "a = (i, c)" by (cases a)
  from parse_line_Done [OF assms(1,2)] a ic have "slice_get buf i \<noteq> None" by (fastforce simp: slice_get_def)
  then obtain s where "slice_get buf i = Some s" by blast
  with slice_get_append [OF this, of ext] show
    "(case a of (i, c) \<Rightarrow> case slice_get (buf @ ext) i of None \<Rightarrow> Fail UnexpectedErr
        | Some s \<Rightarrow> (case btoi x s of None \<Rightarrow> Fail InvalidProtocol | Some n \<Rightarrow> Done (n, c))) =
     (case a of (i, c) \<Rightarrow> case slice_get buf i of None \<Rightarrow> Fail UnexpectedErr
        | Some s \<Rightarrow> (case btoi x s of None \<Rightarrow> Fail InvalidProtocol | Some n \<Rightarrow> Done (n, c)))"
    by (simp add: ic)
qed (use assms in \<open>simp_all add: parse_len_def parse_line_stable\<close>)

lemma parse_bulk_str_stable:
  assumes "lib_ok x" "length buf < max_buf" "parse_bulk_str x buf \<noteq> Fail NotEnoughData"
  shows "parse_bulk_str x (buf @ ext) = parse_bulk_str x buf"
  using assms(3) unfolding parse_bulk_str_def
  by (rule pbind_stable) (auto simp: parse_len_stable [OF assms(1,2)] Let_def split: if_splits)

lemma parse_stable:
  shows "length buf < max_buf \<Longrightarrow> lib_ok x \<Longrightarrow> parse_resp x buf \<noteq> Fail NotEnoughData \<Longrightarrow>
      parse_resp x (buf @ ext) = parse_resp x buf"
    and "length buf < max_buf \<Longrightarrow> lib_ok x \<Longrightarrow> parse_array x buf \<noteq> Fail NotEnoughData \<Longrightarrow>
      parse_array x (buf @ ext) = parse_array x buf"
    and "length buf < max_buf \<Longrightarrow> lib_ok x \<Longrightarrow> k \<le> length buf \<Longrightarrow>
      parse_elements x n buf k \<noteq> Fail NotEnoughData \<Longrightarrow>
      parse_elements x n (buf @ ext) k = parse_elements x n buf k"
proof (induction x buf and x buf and x n buf k rule: parse_resp_parse_array_parse_elements.induct)
  case (1 x buf)
  from "1.prems"(3) obtain p next_buf where buf: "buf = p # next_buf"
    by (cases buf) (auto simp: parse_resp.simps)
  have len: "length next_buf < max_buf" using "1.prems"(1) buf by simp
  note lib = "1.prems"(2)
  have bind: "pbind q' f = pbind q f" if "pbind q f \<noteq> Fail NotEnoughData" "q \<noteq> Fail NotEnoughData \<Longrightarrow> q' = q"
    for q q' :: "'c parsed" and f :: "'c \<Rightarrow> (resp_index \<times> usize) parsed"
    by (rule pbind_stable [OF that]) auto
  have array: "parse_array x (next_buf @ ext) = parse_array x next_buf"
    if "p = CHR ''*''" "parse_array x next_buf \<noteq> Fail NotEnoughData"
    using "1.IH" [OF buf _ _ _ _ that(1) len lib that(2)] that(1) by simp
  from "1.prems"(3) show ?case
    unfolding buf append_Cons parse_resp.simps [of x "p # next_buf"] parse_resp.simps [of x "p # next_buf @ ext"] list.case
    using parse_bulk_str_stable [OF lib len] parse_line_stable [OF lib] array
    by (auto split: if_splits intro!: bind)
next
  case (2 x buf)
  note len = "2.prems"(1) and lib = "2.prems"(2)
  from "2.prems"(3) show ?case
    unfolding parse_array.simps [of x buf] parse_array.simps [of x "buf @ ext"]
  proof (rule pbind_stable, goal_cases)
    case 1
    then show ?case by (rule parse_len_stable [OF lib len])
  next
    case (2 nk)
    obtain n k where nk: "nk = (n, k)" by (cases nk)
    have k: "k \<le> length buf" using parse_len_Done [OF lib len] 2(1) nk by simp
    show ?case
    proof (cases "n < 0 \<or> \<not> capacity_ok x (nat n)")
      case True
      then show ?thesis by (auto simp: nk)
    next
      case False
      then have "pbind (parse_elements x (nat n) (buf @ ext) k) (\<lambda>(array, c). Done (ArrayOf array, c)) =
          pbind (parse_elements x (nat n) buf k) (\<lambda>(array, c). Done (ArrayOf array, c))"
        using "2.IH" [OF 2(1) nk [symmetric] _ _ len lib k] 2(2) by (intro pbind_stable) (auto simp: nk)
      with False show ?thesis by (simp add: nk)
    qed
  qed
next
  case (3 x n buf k)
  note len = "3.prems"(1) and lib = "3.prems"(2) and k = "3.prems"(3)
  show ?case
  proof (cases "n = 0")
    case True
    then show ?thesis by (simp add: parse_elements.simps [of x 0])
  next
    case False
    have ok: "\<not> length buf < k" using k by simp
    have sub: "length (drop k buf) < max_buf" using len by simp
    have "parse_elements x n (buf @ ext) k =
        pbind (parse_resp x (drop k buf @ ext)) (\<lambda>(v, e).
          pbind (parse_elements x (n - 1) (buf @ ext) (usize_add k e)) (\<lambda>(vs, c). Done (resp_advance k v # vs, c)))"
      using False k by (simp add: parse_elements.simps [of x n])
    also have "\<dots> = pbind (parse_resp x (drop k buf)) (\<lambda>(v, e).
          pbind (parse_elements x (n - 1) buf (usize_add k e)) (\<lambda>(vs, c). Done (resp_advance k v # vs, c)))"
    proof (rule pbind_stable, goal_cases)
      case 1
      from "3.prems"(4) show ?case using False ok by (simp add: parse_elements.simps [of x n])
    next
      case 2
      then show ?case by (rule "3.IH"(1) [OF False ok sub lib])
    next
      case (3 ve)
      obtain v e where ve: "ve = (v, e)" by (cases ve)
      have e: "e \<le> length (drop k buf)" using parse_Done(1) [OF sub lib] 3(1) ve by simp
      then have "k + e \<le> length buf" using k by simp
      with usize_add_small [OF this len] have "usize_add k e \<le> length buf" by simp
      then show ?case using "3.IH"(2) [OF False ok 3(1) ve [symmetric] len lib] 3(2) by (auto simp: ve intro!: pbind_stable)
    qed
    also have "\<dots> = parse_elements x n buf k"
      using False ok by (simp add: parse_elements.simps [of x n])
    finally show ?thesis .
  qed
qed


subsection \<open>Parsing what was encoded\<close>

text \<open>
  A packet is printable when its simple strings have no line feed; a bulk string may hold
  any bytes. The length of a bulk string is a number of the type \<open>i64\<close>.
\<close>

primrec resp_wf :: "resp_vec \<Rightarrow> bool" and array_wf :: "string array \<Rightarrow> bool" where
  "resp_wf (Error s) \<longleftrightarrow> LF \<notin> set s"
| "resp_wf (Simple s) \<longleftrightarrow> LF \<notin> set s"
| "resp_wf (Bulk b) \<longleftrightarrow> True"
| "resp_wf (Integer s) \<longleftrightarrow> LF \<notin> set s"
| "resp_wf (Arr a) \<longleftrightarrow> array_wf a"
| "array_wf (ArrayOf rs) \<longleftrightarrow> list_all resp_wf rs"
| "array_wf ArrayNil \<longleftrightarrow> True"

definition resp_bytes :: "resp_vec \<Rightarrow> string" where
  "resp_bytes r = concat (encode_resp r)"

text \<open>The index vector of a packet of this many bytes can be allocated.\<close>

definition fits :: "resp_lib \<Rightarrow> string \<Rightarrow> bool" where
  "fits x buf \<longleftrightarrow> length buf < max_buf \<and> length buf * index_size x < 2 ^ 63"

definition reads :: "string \<Rightarrow> resp_index \<Rightarrow> resp_vec \<Rightarrow> bool" where
  "reads data i r \<longleftrightarrow> resp_map (slice_get data) i = resp_map Some r"

lemma resp_bytes_simps:
  "resp_bytes (Error s) = ''-'' @ s @ CRLF"
  "resp_bytes (Simple s) = ''+'' @ s @ CRLF"
  "resp_bytes (Integer s) = '':'' @ s @ CRLF"
  "resp_bytes (Bulk BulkNil) = ''$'' @ ''-1'' @ CRLF"
  "resp_bytes (Bulk (Str s)) = ''$'' @ show_nat (length s) @ CRLF @ s @ CRLF"
  "resp_bytes (Arr ArrayNil) = ''*'' @ ''-1'' @ CRLF"
  "resp_bytes (Arr (ArrayOf rs)) = ''*'' @ show_nat (length rs) @ CRLF @ concat (map resp_bytes rs)"
proof -
  have "concat (concat (map encode_resp rs)) = concat (map (\<lambda>r. concat (encode_resp r)) rs)"
    by (induction rs) auto
  then show "resp_bytes (Arr (ArrayOf rs)) = ''*'' @ show_nat (length rs) @ CRLF @ concat (map resp_bytes rs)"
    unfolding resp_bytes_def by (simp add: encode_simple_element_def)
qed (simp_all add: resp_bytes_def encode_simple_element_def)

lemma length_CRLF [simp]: "length CRLF = 2"
  by (simp add: CRLF_def)

lemma resp_bytes_pos: "0 < length (resp_bytes r)"
proof (cases r)
  case (Bulk b)
  then show ?thesis by (cases b) (simp_all add: resp_bytes_simps)
next
  case (Arr a)
  then show ?thesis by (cases a) (simp_all add: resp_bytes_simps)
qed (simp_all add: resp_bytes_simps)

lemma length_le_bytes: "length rs \<le> length (concat (map resp_bytes rs))"
proof (induction rs)
  case (Cons r rs)
  then show ?case using resp_bytes_pos [of r] unfolding list.map concat.simps length_append list.size by linarith
qed simp

lemma reads_mono:
  assumes "reads data i r"
    and "\<And>a s. slice_get data a = Some s \<Longrightarrow> slice_get data' (f a) = Some s"
  shows "reads data' (resp_map f i) r"
proof -
  from assms(1) have "resp_leaves (resp_map (slice_get data) i) = resp_leaves (resp_map Some r)"
    by (simp add: reads_def)
  then have leaves: "map (slice_get data) (resp_leaves i) = map Some (resp_leaves r)" by simp
  have "slice_get data' (f a) = slice_get data a" if a: "a \<in> set (resp_leaves i)" for a
  proof -
    from a have "slice_get data a \<in> set (map (slice_get data) (resp_leaves i))" by simp
    then obtain s where "slice_get data a = Some s" unfolding leaves by auto
    with assms(2) show ?thesis by simp
  qed
  then have "resp_map (\<lambda>a. slice_get data' (f a)) i = resp_map (slice_get data) i" by (rule resp_map_cong(1))
  with assms(1) show ?thesis by (simp add: reads_def)
qed

lemma reads_append: "reads data i r \<Longrightarrow> reads (data @ ext) i r"
  using reads_mono [of data i r "data @ ext" "\<lambda>a. a"] by (simp add: slice_get_append)

lemma slice_get_advance:
  "slice_get data a = Some s \<Longrightarrow> length (pre @ data) < max_buf \<Longrightarrow>
     slice_get (pre @ data) (index_advance (length pre) a) = Some s"
  by (auto simp: slice_get_def index_advance_def usize_simps split: if_splits)

lemma reads_advance:
  "reads data i r \<Longrightarrow> length (pre @ data) < max_buf \<Longrightarrow> reads (pre @ data) (resp_advance (length pre) i) r"
  unfolding resp_advance_def by (erule reads_mono) (rule slice_get_advance)

text \<open>Lines and lengths.\<close>

lemma parse_line_CRLF:
  assumes "lib_ok x" "LF \<notin> set s" "length (s @ CRLF @ rest) < max_buf"
  shows "parse_line x (s @ CRLF @ rest) = Done ((0, length s), length s + 2)"
proof -
  have "memchr x LF ((s @ [CHR 0x0D]) @ LF # rest) = Some (length (s @ [CHR 0x0D]))"
    by (rule memchr_first [OF assms(1)]) (use assms(2) in \<open>simp add: LF_def\<close>)
  then have "memchr x LF (s @ CRLF @ rest) = Some (length s + 1)" by (simp add: CRLF_def LF_def)
  moreover have "usize_add (length s + 1) 1 = length s + 2"
    using assms(3) by (subst usize_add_small [of _ _ "length (s @ CRLF @ rest)"]) simp_all
  ultimately show ?thesis by (simp add: parse_line_def usize_simps)
qed

lemma parse_len_CRLF:
  assumes "lib_ok x" "LF \<notin> set s" "length (s @ CRLF @ rest) < max_buf" "btoi x s = Some n"
  shows "parse_len x (s @ CRLF @ rest) = Done (n, length s + 2)"
  using parse_line_CRLF [OF assms(1-3)] assms(4) by (simp add: parse_len_def slice_get_def)

lemma show_nat_no_LF: "LF \<notin> set (show_nat n)"
  using show_nat_digits [of LF n] by (auto simp: LF_def)

lemma parse_len_show:
  assumes "lib_ok x" "length (show_nat n @ CRLF @ rest) < max_buf" "n < 2 ^ 63"
  shows "parse_len x (show_nat n @ CRLF @ rest) = Done (int n, length (show_nat n) + 2)"
  by (rule parse_len_CRLF [OF assms(1) show_nat_no_LF assms(2)])
     (use assms(1,3) in \<open>simp only: lib_ok_def btoi_ok_def simp_thms\<close>)

lemma parse_len_nil:
  assumes "lib_ok x" "length (''-1'' @ CRLF @ rest) < max_buf"
  shows "parse_len x (''-1'' @ CRLF @ rest) = Done (- 1, 4)"
  using parse_len_CRLF [OF assms(1) _ assms(2)] assms(1)
  by (simp add: lib_ok_def btoi_ok_def LF_def del: append.simps)


lemma parse_elements_concat:
  assumes "\<And>r rest. r \<in> set rs \<Longrightarrow> length (resp_bytes r @ rest) < max_buf \<Longrightarrow>
      \<exists>i. parse_resp x (resp_bytes r @ rest) = Done (i, length (resp_bytes r)) \<and> reads (resp_bytes r) i r"
    and "length (pre @ concat (map resp_bytes rs) @ rest) < max_buf"
  shows "\<exists>is. parse_elements x (length rs) (pre @ concat (map resp_bytes rs) @ rest) (length pre) =
      Done (is, length (pre @ concat (map resp_bytes rs))) \<and>
    list_all2 (reads (pre @ concat (map resp_bytes rs))) is rs"
  using assms
proof (induction rs arbitrary: pre)
  case Nil
  then show ?case by (simp add: parse_elements.simps [of x 0])
next
  case (Cons r rs)
  define tail where "tail = concat (map resp_bytes rs) @ rest"
  have len: "length (pre @ resp_bytes r @ tail) < max_buf" using Cons.prems(2) by (simp add: tail_def)
  then have "length (resp_bytes r @ tail) < max_buf" by simp
  with Cons.prems(1) obtain i where i: "parse_resp x (resp_bytes r @ tail) = Done (i, length (resp_bytes r))"
    "reads (resp_bytes r) i r" by (meson list.set_intros(1))
  have "length (pre @ resp_bytes r) < max_buf" using len by simp
  from reads_advance [OF i(2) this] have first: "reads ((pre @ resp_bytes r) @ concat (map resp_bytes rs)) (resp_advance (length pre) i) r"
    by (rule reads_append)
  have "length ((pre @ resp_bytes r) @ concat (map resp_bytes rs) @ rest) < max_buf" using len by (simp add: tail_def)
  from Cons.IH [OF _ this] Cons.prems(1) obtain "is" where rest:
    "parse_elements x (length rs) ((pre @ resp_bytes r) @ tail) (length (pre @ resp_bytes r)) =
       Done (is, length ((pre @ resp_bytes r) @ concat (map resp_bytes rs)))"
    "list_all2 (reads ((pre @ resp_bytes r) @ concat (map resp_bytes rs))) is rs"
    unfolding tail_def by (meson list.set_intros(2))
  have "usize_add (length pre) (length (resp_bytes r)) = length (pre @ resp_bytes r)"
    using len by (subst usize_add_small [of _ _ "length (pre @ resp_bytes r @ tail)"]) simp_all
  with i(1) rest(1) have "parse_elements x (Suc (length rs)) (pre @ resp_bytes r @ tail) (length pre) =
      Done (resp_advance (length pre) i # is, length ((pre @ resp_bytes r) @ concat (map resp_bytes rs)))"
    by (simp add: parse_elements.simps [of x "Suc (length rs)"])
  with first rest(2) show ?case unfolding tail_def
    by (intro exI [of _ "resp_advance (length pre) i # is"]) simp
qed

lemma fits_mono: "fits x buf \<Longrightarrow> length buf' \<le> length buf \<Longrightarrow> fits x buf'"
  unfolding fits_def by (meson le_less_trans mult_le_mono1)

lemma fits_elements:
  assumes "fits x (resp_bytes (Arr (ArrayOf rs)))"
  shows "capacity_ok x (length rs)" "r \<in> set rs \<Longrightarrow> fits x (resp_bytes r)"
proof -
  have "length rs \<le> length (resp_bytes (Arr (ArrayOf rs)))"
    using length_le_bytes [of rs] by (simp add: resp_bytes_simps)
  then have "length rs * index_size x \<le> length (resp_bytes (Arr (ArrayOf rs))) * index_size x" by (rule mult_le_mono1)
  with assms show "capacity_ok x (length rs)" unfolding fits_def capacity_ok_def by linarith
  assume "r \<in> set rs"
  then have "length (resp_bytes r) \<le> length (concat (map resp_bytes rs))"
    by (auto simp: length_concat intro: member_le_sum_list)
  then show "fits x (resp_bytes r)" by (intro fits_mono [OF assms]) (simp add: resp_bytes_simps)
qed

lemma parse_prefixed:
  "parse_resp x (''$'' @ s) = pbind (parse_bulk_str x s) (\<lambda>(v, c). Done (Bulk (bulk_advance 1 v), usize_add 1 c))"
  "parse_resp x (''+'' @ s) = pbind (parse_line x s) (\<lambda>(v, c). Done (Simple (index_advance 1 v), usize_add 1 c))"
  "parse_resp x ('':'' @ s) = pbind (parse_line x s) (\<lambda>(v, c). Done (Integer (index_advance 1 v), usize_add 1 c))"
  "parse_resp x (''-'' @ s) = pbind (parse_line x s) (\<lambda>(v, c). Done (Error (index_advance 1 v), usize_add 1 c))"
  "parse_resp x (''*'' @ s) = pbind (parse_array x s) (\<lambda>(v, c). Done (Arr (array_advance 1 v), usize_add 1 c))"
  by (simp_all add: parse_resp.simps)

lemma parse_encode_bulk:
  assumes "lib_ok x" "length (resp_bytes (Bulk b) @ rest) < max_buf"
  shows "\<exists>i. parse_resp x (resp_bytes (Bulk b) @ rest) = Done (i, length (resp_bytes (Bulk b))) \<and>
    reads (resp_bytes (Bulk b)) i (Bulk b)"
proof (cases b)
  case BulkNil
  have "length (''-1'' @ CRLF @ rest) < max_buf" using assms(2) by (simp add: BulkNil resp_bytes_simps)
  then show ?thesis unfolding BulkNil resp_bytes_simps append_assoc parse_prefixed
    by (simp add: parse_bulk_str_def parse_len_nil [OF assms(1)] bulk_advance_def reads_def usize_simps del: append.simps)
next
  case (Str s)
  define k where "k = length (show_nat (length s)) + 2"
  have len: "length (show_nat (length s) @ CRLF @ s @ CRLF @ rest) < max_buf" "k + length s + 2 < max_buf"
    using assms(2) by (simp_all add: Str resp_bytes_simps k_def)
  then have n: "parse_len x (show_nat (length s) @ CRLF @ s @ CRLF @ rest) = Done (int (length s), k)"
    unfolding k_def by (intro parse_len_show [OF assms(1)]) simp_all
  have add: "usize_add k (length s) = k + length s" "usize_add (k + length s) 2 = k + length s + 2"
    "usize_add 1 (k + length s + 2) = 1 + k + length s + 2" "usize_add k 1 = k + 1" "usize_add (k + length s) 1 = k + length s + 1"
    using len(2) by (simp_all add: usize_simps)
  have "parse_bulk_str x (show_nat (length s) @ CRLF @ s @ CRLF @ rest) = Done (Str (k, k + length s), k + length s + 2)"
    using n add by (simp add: parse_bulk_str_def k_def Let_def)
  moreover have "slice_get (resp_bytes (Bulk (Str s))) (k + 1, k + length s + 1) = Some s"
    by (simp add: slice_get_def resp_bytes_simps k_def)
  then have "reads (resp_bytes (Bulk (Str s))) (Bulk (Str (k + 1, k + length s + 1))) (Bulk (Str s))"
    by (simp add: reads_def)
  moreover have "index_advance 1 (k, k + length s) = (k + 1, k + length s + 1)"
    unfolding index_advance_def using add(4,5) by simp
  moreover have "length (resp_bytes (Bulk (Str s))) = 1 + k + length s + 2" by (simp add: resp_bytes_simps k_def)
  ultimately show ?thesis unfolding Str using add(3)
    unfolding resp_bytes_simps append_assoc parse_prefixed by (simp add: bulk_advance_def)
qed


lemma parse_encode_line:
  assumes "lib_ok x" "LF \<notin> set s" "length (''+'' @ s @ CRLF @ rest) < max_buf"
  shows "parse_line x (s @ CRLF @ rest) = Done ((0, length s), length s + 2)"
    "usize_add 1 (length s + 2) = 1 + length s + 2" "index_advance 1 (0, length s) = (1, 1 + length s)"
    "slice_get (c # s @ CRLF) (1, 1 + length s) = Some s"
  using assms(3) parse_line_CRLF [OF assms(1,2)] by (simp_all add: usize_simps index_advance_def slice_get_def)

lemma parse_encode:
  assumes "lib_ok x"
  shows "resp_wf r \<Longrightarrow> fits x (resp_bytes r) \<Longrightarrow> length (resp_bytes r @ rest) < max_buf \<Longrightarrow>
      \<exists>i. parse_resp x (resp_bytes r @ rest) = Done (i, length (resp_bytes r)) \<and> reads (resp_bytes r) i r"
    and "array_wf a \<Longrightarrow> fits x (resp_bytes (Arr a)) \<Longrightarrow> length (resp_bytes (Arr a) @ rest) < max_buf \<Longrightarrow>
      \<exists>i. parse_resp x (resp_bytes (Arr a) @ rest) = Done (i, length (resp_bytes (Arr a))) \<and>
        reads (resp_bytes (Arr a)) i (Arr a)"
proof (induction r and a arbitrary: rest and rest)
  case (Error s)
  then show ?case unfolding resp_bytes_simps append_assoc parse_prefixed
    using parse_encode_line [OF assms, of s rest] by (simp add: reads_def resp_bytes_simps)
next
  case (Simple s)
  then show ?case unfolding resp_bytes_simps append_assoc parse_prefixed
    using parse_encode_line [OF assms, of s rest] by (simp add: reads_def resp_bytes_simps)
next
  case (Integer s)
  then show ?case unfolding resp_bytes_simps append_assoc parse_prefixed
    using parse_encode_line [OF assms, of s rest] by (simp add: reads_def resp_bytes_simps)
next
  case (Bulk b)
  then show ?case by (intro parse_encode_bulk [OF assms])
next
  case (Arr a)
  then show ?case by simp
next
  case (ArrayOf rs)
  define pre where "pre = show_nat (length rs) @ CRLF"
  define body where "body = concat (map resp_bytes rs)"
  note capacity = fits_elements [OF ArrayOf.prems(2)]
  have len: "length (pre @ body @ rest) + 1 < max_buf" and len': "length (pre @ body) + 1 < max_buf"
    using ArrayOf.prems(3) by (simp_all add: resp_bytes_simps pre_def body_def)
  have "length rs < 2 ^ 63"
    using length_le_bytes [of rs] len' by (simp add: body_def)
  with len have n: "parse_len x (pre @ body @ rest) = Done (int (length rs), length pre)"
    unfolding pre_def append_assoc length_append length_CRLF by (intro parse_len_show [OF assms]) simp_all
  have elem: "\<exists>i. parse_resp x (resp_bytes r @ rest) = Done (i, length (resp_bytes r)) \<and> reads (resp_bytes r) i r"
    if "r \<in> set rs" "length (resp_bytes r @ rest) < max_buf" for r rest
    using ArrayOf.IH [OF that(1) _ capacity(2) [OF that(1)] that(2)] ArrayOf.prems(1) that(1) by (simp add: list_all_iff)
  obtain "is" where "is": "parse_elements x (length rs) (pre @ body @ rest) (length pre) = Done (is, length (pre @ body))"
    "list_all2 (reads (pre @ body)) is rs"
    using parse_elements_concat [of rs x pre rest, OF elem] len unfolding body_def by fastforce
  have "reads (''*'' @ pre @ body) (resp_advance 1 i) r" if "reads (pre @ body) i r" for i r
    using reads_advance [OF that, of "''*''"] len' by simp
  with "is"(2) have all: "list_all2 (reads (''*'' @ pre @ body)) (map (resp_advance 1) is) rs"
    by (simp add: list_all2_conv_all_nth)
  have "map (resp_map (slice_get (''*'' @ pre @ body))) (map (resp_advance 1) is) = map (resp_map Some) rs"
    using all by (intro nth_equalityI) (auto simp: list_all2_conv_all_nth reads_def)
  then have "reads (''*'' @ pre @ body) (Arr (array_advance 1 (ArrayOf is))) (Arr (ArrayOf rs))"
    by (simp add: reads_def array_advance_def resp_advance_def comp_def)
  moreover have "parse_array x (pre @ body @ rest) = Done (ArrayOf is, length (pre @ body))"
    using n "is"(1) capacity(1) by (simp add: parse_array.simps)
  moreover have "usize_add 1 (length (pre @ body)) = length (''*'' @ pre @ body)"
    using len' by (simp add: usize_simps)
  moreover have bytes: "resp_bytes (Arr (ArrayOf rs)) = ''*'' @ pre @ body"
    by (simp add: resp_bytes_simps pre_def body_def)
  ultimately show ?case unfolding bytes append_assoc parse_prefixed by simp
next
  case ArrayNil
  have "length (''-1'' @ CRLF @ rest) < max_buf" using ArrayNil.prems(3) by (simp add: resp_bytes_simps)
  then show ?case unfolding resp_bytes_simps append_assoc parse_prefixed
    by (simp add: parse_array.simps parse_len_nil [OF assms] array_advance_def reads_def usize_simps del: append.simps)
qed

lemma to_resp_vec_reads:
  assumes "reads data i r"
  shows "to_resp_vec \<lparr>ir_resp = i, ir_data = data\<rparr> = Some r"
proof -
  have "None \<notin> set (resp_leaves (resp_map Some r))" by auto
  with assms show ?thesis by (simp add: to_resp_vec_def reads_def)
qed

end
