(* ===== verification/UM_Packet.thy ===== *)
theory UM_Packet
  imports UM_Resp
begin

section \<open>Packets, commands and the codecs of a connection\<close>

text \<open>
  Model of \<open>protocol/packet.rs\<close> and of the helpers on commands of
  \<open>common/utils.rs\<close>: packets that are either an index over received bytes or an owned
  value, the operations that read and edit commands, decoding from a buffer that grows,
  and the codec for several packets per request, whose encoder and decoder share a counter.

  The lemmas show that no operation on a received packet can panic, that both
  representations of a packet behave alike, that the packets of a byte stream do not depend
  on how the stream was cut into reads, and that the replies of a request with several
  commands are collected into one reply of the same shape.
\<close>


subsection \<open>Commands\<close>

definition get_command_element :: "'a resp \<Rightarrow> usize \<Rightarrow> 'a option" where
  "get_command_element resp index =
     (case resp of
        Arr (ArrayOf resps) \<Rightarrow>
          (if index < length resps
           then (case resps ! index of Bulk (Str s) \<Rightarrow> Some s | _ \<Rightarrow> None)
           else None)
      | _ \<Rightarrow> None)"

definition get_command_len :: "'a resp \<Rightarrow> usize option" where
  "get_command_len resp = (case resp of Arr (ArrayOf resps) \<Rightarrow> Some (length resps) | _ \<Rightarrow> None)"

text \<open>The edits return their result and the packet after the call.\<close>

definition change_bulk_str :: "resp_vec \<Rightarrow> string \<Rightarrow> bool \<times> resp_vec" where
  "change_bulk_str resp data = (case resp of Bulk (Str s) \<Rightarrow> (True, Bulk (Str data)) | _ \<Rightarrow> (False, resp))"

definition change_bulk_array_element :: "resp_vec \<Rightarrow> usize \<Rightarrow> string \<Rightarrow> bool \<times> resp_vec" where
  "change_bulk_array_element resp index data =
     (case resp of
        Arr (ArrayOf resps) \<Rightarrow>
          (if index < length resps
           then let (changed, r) = change_bulk_str (resps ! index) data
                in (changed, Arr (ArrayOf (resps[index := r])))
           else (False, resp))
      | _ \<Rightarrow> (False, resp))"

definition left_trim_array :: "'a resp \<Rightarrow> usize \<Rightarrow> usize option \<times> 'a resp" where
  "left_trim_array resp removed_num =
     (case resp of
        Arr (ArrayOf resps) \<Rightarrow>
          let new_resps = drop (min removed_num (length resps)) resps
          in (Some (length new_resps), Arr (ArrayOf new_resps))
      | _ \<Rightarrow> (None, resp))"

definition array_append_front :: "resp_vec \<Rightarrow> string list \<Rightarrow> bool \<times> resp_vec" where
  "array_append_front resp preceding_elements =
     (case resp of
        Arr (ArrayOf resps) \<Rightarrow> (True, Arr (ArrayOf (map (\<lambda>s. Bulk (Str s)) preceding_elements @ resps)))
      | _ \<Rightarrow> (False, resp))"

text \<open>\<open>str::from_utf8\<close>: the well-formed byte sequences of UTF-8.\<close>

definition byte_in :: "nat \<Rightarrow> nat \<Rightarrow> char \<Rightarrow> bool" where
  "byte_in lo hi c \<longleftrightarrow> lo \<le> of_char c \<and> of_char c \<le> hi"

fun utf8_valid :: "string \<Rightarrow> bool" where
  "utf8_valid [] = True"
| "utf8_valid (a # s) =
     (if byte_in 0 127 a then utf8_valid s
      else case s of
        [] \<Rightarrow> False
      | b # t \<Rightarrow>
          if byte_in 194 223 a then byte_in 128 191 b \<and> utf8_valid t
          else case t of
            [] \<Rightarrow> False
          | c # u \<Rightarrow>
              if byte_in 224 224 a then byte_in 160 191 b \<and> byte_in 128 191 c \<and> utf8_valid u
              else if byte_in 225 236 a \<or> byte_in 238 239 a then
                byte_in 128 191 b \<and> byte_in 128 191 c \<and> utf8_valid u
              else if byte_in 237 237 a then byte_in 128 159 b \<and> byte_in 128 191 c \<and> utf8_valid u
              else case u of
                [] \<Rightarrow> False
              | d # v \<Rightarrow>
                  byte_in 128 191 c \<and> byte_in 128 191 d \<and> utf8_valid v \<and>
                  (byte_in 240 240 a \<and> byte_in 144 191 b \<or>
                   byte_in 241 243 a \<and> byte_in 128 191 b \<or>
                   byte_in 244 244 a \<and> byte_in 128 143 b))"

definition from_utf8 :: "string \<Rightarrow> string option" where
  "from_utf8 s = (if utf8_valid s then Some s else None)"

text \<open>\<open>get_resp_bytes\<close> and \<open>get_resp_strings\<close>: all elements of a command, or nothing.\<close>

primrec resp_bytes_loop :: "(string \<Rightarrow> string option) \<Rightarrow> resp_vec list \<Rightarrow> string list option" where
  "resp_bytes_loop conv [] = Some []"
| "resp_bytes_loop conv (r # rs) =
     (case (case r of Bulk (Str s) \<Rightarrow> conv s | Simple s \<Rightarrow> conv s | _ \<Rightarrow> None) of
        None \<Rightarrow> None
      | Some s \<Rightarrow> (case resp_bytes_loop conv rs of None \<Rightarrow> None | Some ss \<Rightarrow> Some (s # ss)))"

definition get_resp_bytes :: "resp_vec \<Rightarrow> string list option" where
  "get_resp_bytes resp = (case resp of Arr (ArrayOf resps) \<Rightarrow> resp_bytes_loop Some resps | _ \<Rightarrow> None)"

definition get_resp_strings :: "resp_vec \<Rightarrow> string list option" where
  "get_resp_strings resp = (case resp of Arr (ArrayOf resps) \<Rightarrow> resp_bytes_loop from_utf8 resps | _ \<Rightarrow> None)"


subsection \<open>Packets\<close>

datatype resp_packet = Indexed indexed_resp | Data resp_vec

text \<open>The outer option is a panic in all of the following.\<close>

primrec pkt_to_resp_vec :: "resp_packet \<Rightarrow> resp_vec option" where
  "pkt_to_resp_vec (Indexed ir) = to_resp_vec ir"
| "pkt_to_resp_vec (Data r) = Some r"

primrec pkt_get_array_element :: "resp_packet \<Rightarrow> usize \<Rightarrow> string option option" where
  "pkt_get_array_element (Indexed ir) index = ir_get_array_element ir index"
| "pkt_get_array_element (Data r) index = Some (get_command_element r index)"

primrec pkt_get_array_len :: "resp_packet \<Rightarrow> usize option" where
  "pkt_get_array_len (Indexed ir) = ir_get_array_len ir"
| "pkt_get_array_len (Data r) = get_command_len r"

definition pkt_get_array_last_element :: "resp_packet \<Rightarrow> string option option" where
  "pkt_get_array_last_element p =
     (case pkt_get_array_len p of
        None \<Rightarrow> Some None
      | Some len \<Rightarrow> if len = 0 then Some None else pkt_get_array_element p (len - 1))"

definition pkt_get_command_name :: "resp_packet \<Rightarrow> string option option" where
  "pkt_get_command_name p =
     (case pkt_get_array_element p 0 of
        None \<Rightarrow> None
      | Some None \<Rightarrow> Some None
      | Some (Some element) \<Rightarrow> Some (from_utf8 element))"

primrec pkt_change_bulk_array_element :: "resp_packet \<Rightarrow> usize \<Rightarrow> string \<Rightarrow> (bool \<times> resp_packet) option" where
  "pkt_change_bulk_array_element (Indexed ir) index data =
     (case to_resp_vec ir of
        None \<Rightarrow> None
      | Some resp \<Rightarrow>
          let (success, resp') = change_bulk_array_element resp index data
          in Some (success, if success then Data resp' else Indexed ir))"
| "pkt_change_bulk_array_element (Data r) index data =
     (let (success, r') = change_bulk_array_element r index data in Some (success, Data r'))"

primrec left_trim_cmd :: "resp_packet \<Rightarrow> usize \<Rightarrow> (usize option \<times> resp_packet) option" where
  "left_trim_cmd (Indexed ir) removed_num =
     (case to_resp_vec ir of
        None \<Rightarrow> None
      | Some resp \<Rightarrow>
          (case left_trim_array resp removed_num of
             (None, _) \<Rightarrow> Some (None, Indexed ir)
           | (Some remaining, resp') \<Rightarrow> Some (Some remaining, Data resp')))"
| "left_trim_cmd (Data r) removed_num =
     (let (res, r') = left_trim_array r removed_num in Some (res, Data r'))"

primrec wrap_cmd :: "resp_packet \<Rightarrow> string list \<Rightarrow> (bool \<times> resp_packet) option" where
  "wrap_cmd (Indexed ir) preceding_elements =
     (case to_resp_vec ir of
        None \<Rightarrow> None
      | Some resp \<Rightarrow>
          let (success, resp') = array_append_front resp preceding_elements
          in Some (if \<not> success then (False, Indexed ir) else (True, Data resp')))"
| "wrap_cmd (Data r) preceding_elements =
     (let (success, r') = array_append_front r preceding_elements in Some (success, Data r'))"

primrec pkt_change_bulk_str :: "resp_packet \<Rightarrow> string \<Rightarrow> (bool \<times> resp_packet) option" where
  "pkt_change_bulk_str (Indexed ir) data =
     (case to_resp_vec ir of
        None \<Rightarrow> None
      | Some resp \<Rightarrow>
          let (success, resp') = change_bulk_str resp data
          in Some (success, if success then Data resp' else Indexed ir))"
| "pkt_change_bulk_str (Data r) data =
     (let (success, r') = change_bulk_str r data in Some (success, Data r'))"

primrec pkt_size_hint :: "resp_packet \<Rightarrow> usize" where
  "pkt_size_hint (Indexed ir) = length (ir_data ir)"
| "pkt_size_hint (Data r) = get_resp_size_hint r"

text \<open>\<open>EncodedPacket::encode\<close>: the bytes handed to the callback and the reported size.\<close>

primrec pkt_encode :: "resp_packet \<Rightarrow> string \<times> usize" where
  "pkt_encode (Indexed ir) = (ir_data ir, length (ir_data ir))"
| "pkt_encode (Data r) = resp_to_buf [] r"

definition command_encode :: "string list \<Rightarrow> string \<times> usize" where
  "command_encode cmd = command_to_buf [] cmd"

primrec commands_encode :: "string list list \<Rightarrow> string \<times> usize" where
  "commands_encode [] = ([], 0)"
| "commands_encode (cmd # cmds) =
     (let (bytes, s) = command_encode cmd; (rest, l) = commands_encode cmds in (bytes @ rest, usize_add s l))"


subsection \<open>Decoding\<close>

datatype decode_error = DecodeInvalidProtocol

text \<open>\<open>Result<T, DecodeError>\<close>, or a panic. No input of the parser is an I/O error.\<close>

datatype 'a decoded = Decoded 'a | DecodeErr decode_error | DecodePanic

text \<open>\<open>DecodedPacket::decode\<close> for the three packet types: the result and the buffer after the call.\<close>

definition indexed_decode :: "resp_lib \<Rightarrow> string \<Rightarrow> indexed_resp option decoded \<times> string" where
  "indexed_decode x buf =
     (case parse_indexed_resp x buf of
        Done (r, rest) \<Rightarrow> (Decoded (Some r), rest)
      | Fail e \<Rightarrow>
          ((case e of
              NotEnoughData \<Rightarrow> Decoded None
            | InvalidProtocol \<Rightarrow> DecodeErr DecodeInvalidProtocol
            | UnexpectedErr \<Rightarrow> DecodeErr DecodeInvalidProtocol), buf)
      | Crash \<Rightarrow> (DecodePanic, buf))"

definition resp_vec_decode :: "resp_lib \<Rightarrow> string \<Rightarrow> resp_vec option decoded \<times> string" where
  "resp_vec_decode x buf =
     (case indexed_decode x buf of
        (Decoded (Some ir), rest) \<Rightarrow>
          (case to_resp_vec ir of None \<Rightarrow> (DecodePanic, rest) | Some r \<Rightarrow> (Decoded (Some r), rest))
      | (Decoded None, rest) \<Rightarrow> (Decoded None, rest)
      | (DecodeErr e, rest) \<Rightarrow> (DecodeErr e, rest)
      | (DecodePanic, rest) \<Rightarrow> (DecodePanic, rest))"

definition packet_decode :: "resp_lib \<Rightarrow> string \<Rightarrow> resp_packet option decoded \<times> string" where
  "packet_decode x buf =
     (case indexed_decode x buf of
        (Decoded item, rest) \<Rightarrow> (Decoded (map_option Indexed item), rest)
      | (DecodeErr e, rest) \<Rightarrow> (DecodeErr e, rest)
      | (DecodePanic, rest) \<Rightarrow> (DecodePanic, rest))"


subsection \<open>Several packets per request\<close>

datatype 'a optional_multi = Single 'a | Multi "'a list"

primrec om_map :: "('a \<Rightarrow> 'b) \<Rightarrow> 'a optional_multi \<Rightarrow> 'b optional_multi" where
  "om_map f (Single t) = Single (f t)"
| "om_map f (Multi v) = Multi (map f v)"

type_synonym hint = "unit optional_multi"

primrec om_get_hint :: "'a optional_multi \<Rightarrow> hint" where
  "om_get_hint (Single t) = Single ()"
| "om_get_hint (Multi v) = Multi (map (\<lambda>_. ()) v)"

text \<open>\<open>from_resp\<close>: an error reply for the whole request is given to each of its parts.\<close>

primrec om_from_resp :: "(resp_vec \<Rightarrow> 'a) \<Rightarrow> resp_vec \<Rightarrow> hint \<Rightarrow> 'a optional_multi" where
  "om_from_resp from resp (Single h) = Single (from resp)"
| "om_from_resp from resp (Multi hs) = Multi (map (\<lambda>_. from resp) hs)"

text \<open>Encoding and size hint, over the encoding of one packet.\<close>

primrec om_encode_all :: "('a \<Rightarrow> string \<times> usize) \<Rightarrow> 'a list \<Rightarrow> string \<times> usize" where
  "om_encode_all encode [] = ([], 0)"
| "om_encode_all encode (t # ts) =
     (let (bytes, s) = encode t; (rest, l) = om_encode_all encode ts in (bytes @ rest, usize_add s l))"

primrec om_encode :: "('a \<Rightarrow> string \<times> usize) \<Rightarrow> 'a optional_multi \<Rightarrow> string \<times> usize" where
  "om_encode encode (Single t) = encode t"
| "om_encode encode (Multi v) = om_encode_all encode v"

primrec om_size_sum :: "('a \<Rightarrow> usize option) \<Rightarrow> usize \<Rightarrow> 'a list \<Rightarrow> usize option" where
  "om_size_sum get_hint acc [] = Some acc"
| "om_size_sum get_hint acc (p # ps) =
     (case get_hint p of None \<Rightarrow> None | Some n \<Rightarrow> om_size_sum get_hint (usize_add acc n) ps)"

primrec om_size_hint :: "('a \<Rightarrow> usize option) \<Rightarrow> 'a optional_multi \<Rightarrow> usize option" where
  "om_size_hint get_hint (Single p) = get_hint p"
| "om_size_hint get_hint (Multi ps) = om_size_sum get_hint 0 ps"

text \<open>\<open>OptionalMulti::decode\<close>: decodes as many packets as the hint has, from one buffer.\<close>

fun om_decode_all :: "(string \<Rightarrow> 'd option decoded \<times> string) \<Rightarrow> unit list \<Rightarrow> string \<Rightarrow> 'd list option decoded \<times> string" where
  "om_decode_all dec [] buf = (Decoded (Some []), buf)"
| "om_decode_all dec (h # hs) buf =
     (case dec buf of
        (Decoded (Some p), rest) \<Rightarrow>
          (case om_decode_all dec hs rest of
             (Decoded item, rest') \<Rightarrow> (Decoded (map_option ((#) p) item), rest')
           | (DecodeErr e, rest') \<Rightarrow> (DecodeErr e, rest')
           | (DecodePanic, rest') \<Rightarrow> (DecodePanic, rest'))
      | (Decoded None, rest) \<Rightarrow> (Decoded None, rest)
      | (DecodeErr e, rest) \<Rightarrow> (DecodeErr e, rest)
      | (DecodePanic, rest) \<Rightarrow> (DecodePanic, rest))"

primrec om_decode :: "(string \<Rightarrow> 'd option decoded \<times> string) \<Rightarrow> hint \<Rightarrow> string \<Rightarrow> 'd optional_multi option decoded \<times> string" where
  "om_decode dec (Single h) buf =
     (case dec buf of
        (Decoded item, rest) \<Rightarrow> (Decoded (map_option Single item), rest)
      | (DecodeErr e, rest) \<Rightarrow> (DecodeErr e, rest)
      | (DecodePanic, rest) \<Rightarrow> (DecodePanic, rest))"
| "om_decode dec (Multi hints) buf =
     (case om_decode_all dec hints buf of
        (Decoded item, rest) \<Rightarrow> (Decoded (map_option Multi item), rest)
      | (DecodeErr e, rest) \<Rightarrow> (DecodeErr e, rest)
      | (DecodePanic, rest) \<Rightarrow> (DecodePanic, rest))"

text \<open>
  The counter that the encoder and the decoder of a connection share
  (\<open>OptionalMultiHintState\<close>): 0 for no request, 1 for a single packet, and the number of
  packets plus 2 for several.
\<close>

definition hint_consume :: "usize \<Rightarrow> hint option \<times> usize" where
  "hint_consume state =
     ((if state = 0 then None else if state = 1 then Some (Single ())
       else Some (Multi (replicate (state - 2) ()))), 0)"

definition hint_produce :: "usize \<Rightarrow> hint \<Rightarrow> bool \<times> usize" where
  "hint_produce state hint =
     (let n = (case hint of Single _ \<Rightarrow> 1 | Multi v \<Rightarrow> usize_add (length v) 2)
      in if state = 0 then (True, n) else (False, state))"

text \<open>\<open>OptionalMultiPacketEncoder::encode\<close>: \<^const>\<open>None\<close> is \<open>EncodeError::NotReady\<close>.\<close>

definition om_encoder_encode ::
  "('a \<Rightarrow> string \<times> usize) \<Rightarrow> usize \<Rightarrow> 'a optional_multi \<Rightarrow> (string \<times> usize) option \<times> usize" where
  "om_encoder_encode encode state packet =
     (let (ready, state') = hint_produce state (om_get_hint packet)
      in if \<not> ready then (None, state') else (Some (om_encode encode packet), state'))"

record 'd om_decoder =
  od_buf :: "'d list"
  od_hint :: "hint option"

text \<open>
  The loop of \<open>OptionalMultiPacketDecoder::decode\<close>. \<^const>\<open>None\<close> is a loop that does not
  end: nothing in the types says that \<open>D::decode\<close> consumes data.
\<close>

partial_function (option) om_loop ::
  "(string \<Rightarrow> 'd option decoded \<times> string) \<Rightarrow> hint \<Rightarrow> 'd om_decoder \<Rightarrow> string \<Rightarrow>
   ('d optional_multi option decoded \<times> 'd om_decoder \<times> string) option" where
  "om_loop dec hint d buf =
     (case dec buf of
        (Decoded None, rest) \<Rightarrow> Some (Decoded None, d, rest)
      | (DecodeErr e, rest) \<Rightarrow> Some (DecodeErr e, d, rest)
      | (DecodePanic, rest) \<Rightarrow> Some (DecodePanic, d, rest)
      | (Decoded (Some packet), rest) \<Rightarrow>
          (case hint of
             Single _ \<Rightarrow> Some (Decoded (Some (Single packet)), d\<lparr>od_hint := None\<rparr>, rest)
           | Multi hints \<Rightarrow>
               let d' = d\<lparr>od_buf := od_buf d @ [packet]\<rparr>
               in if length hints = length (od_buf d')
                  then Some (Decoded (Some (Multi (od_buf d'))), d'\<lparr>od_hint := None, od_buf := []\<rparr>, rest)
                  else om_loop dec hint d' rest))"

declare om_loop.simps [code]

definition om_decoder_decode ::
  "(string \<Rightarrow> 'd option decoded \<times> string) \<Rightarrow> usize \<Rightarrow> 'd om_decoder \<Rightarrow> string \<Rightarrow>
   ('d optional_multi option decoded \<times> usize \<times> 'd om_decoder \<times> string) option" where
  "om_decoder_decode dec state d buf =
     (let (hint, state') = (case od_hint d of Some h \<Rightarrow> (Some h, state) | None \<Rightarrow> hint_consume state)
      in case hint of
           None \<Rightarrow> Some (Decoded None, state', d, buf)
         | Some h \<Rightarrow>
             let d' = d\<lparr>od_hint := Some h\<rparr>
             in if h = Multi []
                then Some (Decoded (Some (Multi [])), state', d'\<lparr>od_hint := None\<rparr>, buf)
                else map_option (\<lambda>(res, d'', rest). (res, state', d'', rest)) (om_loop dec h d' buf))"



subsection \<open>Both representations of a packet behave alike\<close>

lemma bulk_map_the: "None \<notin> set (bulk_leaves b) \<Longrightarrow> bulk_map (\<lambda>a. Some (the a)) b = b"
  by (cases b) auto

lemma resp_map_the:
  fixes r :: "'a option resp" and ar :: "'a option array"
  shows "None \<notin> set (resp_leaves r) \<Longrightarrow> resp_map Some (resp_map the r) = r"
    and "None \<notin> set (array_leaves ar) \<Longrightarrow> array_map Some (array_map the ar) = ar"
  by (induction r and ar) (auto simp: bulk_map_the map_idI)

lemma to_resp_vec_Some: "to_resp_vec ir = Some r \<longleftrightarrow> reads (ir_data ir) (ir_resp ir) r"
proof
  assume "to_resp_vec ir = Some r"
  then have "None \<notin> set (resp_leaves (resp_map (slice_get (ir_data ir)) (ir_resp ir)))"
    "r = resp_map the (resp_map (slice_get (ir_data ir)) (ir_resp ir))"
    by (auto simp: to_resp_vec_def Let_def split: if_splits)
  then show "reads (ir_data ir) (ir_resp ir) r" unfolding reads_def by (metis resp_map_the(1))
next
  assume "reads (ir_data ir) (ir_resp ir) r"
  then show "to_resp_vec ir = Some r" using to_resp_vec_reads by (cases ir) simp
qed

lemma resp_map_Arr: "resp_map f r = Arr (ArrayOf rs) \<longleftrightarrow> (\<exists>rs'. r = Arr (ArrayOf rs') \<and> rs = map (resp_map f) rs')"
proof (cases r)
  case (Arr a)
  then show ?thesis by (cases a) auto
qed auto

lemma resp_map_Bulk: "resp_map f r = Bulk (Str s) \<longleftrightarrow> (\<exists>t. r = Bulk (Str t) \<and> s = f t)"
proof (cases r)
  case (Bulk b)
  then show ?thesis by (cases b) auto
qed auto

lemma get_command_element_map:
  "get_command_element (resp_map f r) index = map_option f (get_command_element r index)"
  unfolding get_command_element_def
  by (auto split: resp.splits array.splits bulk_str.splits simp: resp_map_Bulk)

lemma get_command_len_map [simp]: "get_command_len (resp_map f r) = get_command_len r"
  unfolding get_command_len_def by (auto split: resp.splits array.splits)

lemma ir_get_array_len_eq: "ir_get_array_len ir = get_command_len (ir_resp ir)"
  by (simp add: ir_get_array_len_def get_command_len_def)

lemma ir_get_array_element_eq:
  "ir_get_array_element ir index =
     (case get_command_element (ir_resp ir) index of
        None \<Rightarrow> Some None | Some i \<Rightarrow> map_option Some (slice_get (ir_data ir) i))"
  unfolding ir_get_array_element_def get_command_element_def
  by (auto split: resp.splits array.splits bulk_str.splits option.splits)

lemma pkt_element_refines:
  assumes "pkt_to_resp_vec p = Some r"
  shows "pkt_get_array_len p = get_command_len r"
    and "pkt_get_array_element p index = Some (get_command_element r index)"
proof -
  have "pkt_get_array_len p = get_command_len r \<and> pkt_get_array_element p index = Some (get_command_element r index)"
  proof (cases p)
    case (Indexed ir)
    with assms have eq: "resp_map (slice_get (ir_data ir)) (ir_resp ir) = resp_map Some r"
      by (simp add: to_resp_vec_Some reads_def)
    have "get_command_len (ir_resp ir) = get_command_len r"
      using arg_cong [OF eq, of get_command_len] by simp
    moreover have "map_option (slice_get (ir_data ir)) (get_command_element (ir_resp ir) index) =
        map_option Some (get_command_element r index)"
      using arg_cong [OF eq, of "\<lambda>r. get_command_element r index"] by (simp add: get_command_element_map)
    ultimately show ?thesis
      by (cases "get_command_element r index")
         (auto simp: Indexed ir_get_array_len_eq ir_get_array_element_eq split: option.splits)
  qed (use assms in simp)
  then show "pkt_get_array_len p = get_command_len r"
    and "pkt_get_array_element p index = Some (get_command_element r index)" by simp_all
qed


subsection \<open>Packets of a stream of bytes\<close>

text \<open>
  A connection appends what it reads to a buffer and decodes until no complete packet is
  left. \<open>dec\<close> is the decoding of one packet; the first argument of \<open>decode_all\<close>
  bounds the number of packets by the length of the buffer, since no packet is empty.
\<close>

fun decode_all :: "(string \<Rightarrow> 'd option decoded \<times> string) \<Rightarrow> nat \<Rightarrow> string \<Rightarrow> 'd list \<times> string" where
  "decode_all dec 0 buf = ([], buf)"
| "decode_all dec (Suc n) buf =
     (case dec buf of
        (Decoded (Some p), rest) \<Rightarrow> (let (ps, rest') = decode_all dec n rest in (p # ps, rest'))
      | (_, rest) \<Rightarrow> ([], rest))"

primrec receive :: "(string \<Rightarrow> 'd option decoded \<times> string) \<Rightarrow> string \<Rightarrow> string list \<Rightarrow> 'd list \<times> string" where
  "receive dec buf [] = ([], buf)"
| "receive dec buf (chunk # chunks) =
     (let (ps, buf') = decode_all dec (Suc (length (buf @ chunk))) (buf @ chunk);
          (qs, rest) = receive dec buf' chunks
      in (ps @ qs, rest))"

text \<open>The rest of the buffer, when the packets \<open>as\<close> are still to come, holds no complete packet.\<close>

definition pending :: "('a \<Rightarrow> string) \<Rightarrow> string \<Rightarrow> 'a list \<Rightarrow> bool" where
  "pending enc buf as \<longleftrightarrow> (case as of [] \<Rightarrow> buf = [] | a # _ \<Rightarrow> length buf < length (enc a))"

text \<open>The decoder of a connection with several packets per request, called once per read.\<close>

primrec om_receive ::
  "(string \<Rightarrow> 'd option decoded \<times> string) \<Rightarrow> usize \<Rightarrow> 'd om_decoder \<Rightarrow> string \<Rightarrow> string list \<Rightarrow>
   ('d optional_multi list \<times> usize \<times> 'd om_decoder \<times> string) option" where
  "om_receive dec state d buf [] = Some ([], state, d, buf)"
| "om_receive dec state d buf (chunk # chunks) =
     (case om_decoder_decode dec state d (buf @ chunk) of
        None \<Rightarrow> None
      | Some (res, state', d', rest) \<Rightarrow>
          (case om_receive dec state' d' rest chunks of
             None \<Rightarrow> None
           | Some (out, fin) \<Rightarrow> Some ((case res of Decoded (Some p) \<Rightarrow> [p] | _ \<Rightarrow> []) @ out, fin)))"

definition om_idle :: "'d om_decoder" where
  "om_idle = \<lparr>od_buf = [], od_hint = None\<rparr>"

text \<open>The reply that has the shape of a request.\<close>

primrec om_shape :: "hint \<Rightarrow> 'd list \<Rightarrow> 'd optional_multi" where
  "om_shape (Single _) ds = Single (hd ds)"
| "om_shape (Multi _) ds = Multi ds"

primrec om_count :: "hint \<Rightarrow> nat" where
  "om_count (Single _) = 1"
| "om_count (Multi hs) = length hs"

text \<open>The decoder has taken the hint of the request, or will take it from the counter.\<close>

definition armed :: "hint \<Rightarrow> usize \<Rightarrow> 'd om_decoder \<Rightarrow> bool" where
  "armed h state d \<longleftrightarrow>
     od_hint d = Some h \<and> state = 0 \<or> od_hint d = None \<and> state = snd (hint_produce 0 h)"

lemma replicate_unit: "replicate (length us) () = us"
  by (induction us) auto

lemma hint_consume_produce:
  "om_count h < max_buf \<Longrightarrow> hint_consume (snd (hint_produce 0 h)) = (Some h, 0)"
  by (cases h) (auto simp: hint_consume_def hint_produce_def Let_def usize_simps replicate_unit)

lemma armed_decode:
  assumes "armed h state d" "om_count h < max_buf"
  shows "om_decoder_decode dec state d buf =
    (if h = Multi [] then Some (Decoded (Some (Multi [])), 0, d\<lparr>od_hint := None\<rparr>, buf)
     else map_option (\<lambda>(res, d', rest). (res, 0, d', rest)) (om_loop dec h (d\<lparr>od_hint := Some h\<rparr>) buf))"
  using assms(1) hint_consume_produce [OF assms(2)]
  by (auto simp: armed_def om_decoder_decode_def Let_def)

text \<open>
  The contract of a packet type with its decoder: a complete encoding is decoded in front of
  any further data, and a part of an encoding is left in the buffer.
\<close>

locale packet_stream =
  fixes enc :: "'a \<Rightarrow> string"
    and dec :: "string \<Rightarrow> 'd option decoded \<times> string"
    and rel :: "'a \<Rightarrow> 'd \<Rightarrow> bool"
    and ok :: "'a \<Rightarrow> bool"
    and limit :: nat
  assumes enc_not_empty: "ok a \<Longrightarrow> enc a \<noteq> []"
    and dec_whole: "ok a \<Longrightarrow> length (enc a @ rest) < limit \<Longrightarrow>
      \<exists>d. dec (enc a @ rest) = (Decoded (Some d), rest) \<and> rel a d"
    and dec_part: "ok a \<Longrightarrow> length (enc a) < limit \<Longrightarrow> enc a = part @ missing \<Longrightarrow> missing \<noteq> [] \<Longrightarrow>
      dec part = (Decoded None, part)"
    and dec_empty: "dec [] = (Decoded None, [])"
begin

lemma dec_pending:
  assumes "pending enc buf as" "buf @ coming = concat (map enc as)" "list_all ok as" "length (buf @ coming) < limit"
  shows "dec buf = (Decoded None, buf)"
proof (cases as)
  case Nil
  with assms(1) show ?thesis by (simp add: pending_def dec_empty)
next
  case (Cons a as')
  with assms(1) have short: "length buf < length (enc a)" by (simp add: pending_def)
  from assms(2) Cons have "buf @ coming = enc a @ concat (map enc as')" by simp
  with short have "enc a = buf @ drop (length buf) (enc a)"
    by (metis append_eq_append_conv_if append_take_drop_id less_imp_le_nat take_all_iff)
  moreover have "length (enc a) < limit" using assms(4) unfolding assms(2) by (simp add: Cons)
  ultimately show ?thesis using dec_part [of a buf "drop (length buf) (enc a)"] assms(3) Cons short by simp
qed


lemma decode_all_prefix:
  assumes "s @ coming = concat (map enc as)" "list_all ok as" "length (s @ coming) < limit" "length s < n"
  shows "\<exists>k ds rest. decode_all dec n s = (ds, rest) \<and> list_all2 rel (take k as) ds \<and>
    rest @ coming = concat (map enc (drop k as)) \<and> pending enc rest (drop k as)"
  using assms
proof (induction as arbitrary: s n)
  case Nil
  then obtain m where "n = Suc m" by (cases n) auto
  with Nil show ?case by (auto simp: dec_empty pending_def)
next
  case (Cons a as)
  from Cons.prems(4) obtain m where m: "n = Suc m" by (cases n) auto
  show ?case
  proof (cases "length s < length (enc a)")
    case True
    then have "pending enc s (a # as)" by (simp add: pending_def)
    with dec_pending [OF this Cons.prems(1-3)] Cons.prems(1) show ?thesis
      by (intro exI [of _ 0] exI [of _ "[]"] exI [of _ s]) (simp add: m)
  next
    case False
    define s' where "s' = drop (length (enc a)) s"
    have s: "s = enc a @ s'"
      using Cons.prems(1) False unfolding s'_def
      by (metis append_eq_append_conv_if append_eq_conv_conj concat.simps(2) list.simps(9) not_less)
    with Cons.prems(1) have coming: "s' @ coming = concat (map enc as)" by simp
    have "length (enc a @ s') < limit" using Cons.prems(3) s by simp
    with dec_whole Cons.prems(2) obtain d where d: "dec s = (Decoded (Some d), s')" "rel a d" unfolding s by auto
    have "0 < length (enc a)" and ok: "list_all ok as" using enc_not_empty Cons.prems(2) by simp_all
    then have "length s' < m" using Cons.prems(4) unfolding m s length_append by linarith
    moreover have "length (s' @ coming) < limit" using Cons.prems(3) s by simp
    ultimately obtain k ds rest where "decode_all dec m s' = (ds, rest)" "list_all2 rel (take k as) ds"
      "rest @ coming = concat (map enc (drop k as))" "pending enc rest (drop k as)"
      using Cons.IH [OF coming ok] by blast
    with d show ?thesis by (intro exI [of _ "Suc k"] exI [of _ "d # ds"] exI [of _ rest]) (simp add: m)
  qed
qed

lemma receive_pending:
  assumes "buf @ concat chunks = concat (map enc as)" "list_all ok as" "length (buf @ concat chunks) < limit"
    and "pending enc buf as"
  shows "\<exists>ds. receive dec buf chunks = (ds, []) \<and> list_all2 rel as ds"
  using assms
proof (induction chunks arbitrary: buf as)
  case Nil
  show ?case
  proof (cases as)
    case (Cons a as')
    then have False using Nil by (simp add: pending_def)
    then show ?thesis ..
  qed (use Nil in simp)
next
  case (Cons c chunks)
  have eq: "(buf @ c) @ concat chunks = concat (map enc as)" and len: "length ((buf @ c) @ concat chunks) < limit"
    using Cons.prems(1,3) by simp_all
  from decode_all_prefix [OF eq Cons.prems(2) len lessI]
  obtain k ds rest where 1: "decode_all dec (Suc (length (buf @ c))) (buf @ c) = (ds, rest)"
    "list_all2 rel (take k as) ds" "rest @ concat chunks = concat (map enc (drop k as))" "pending enc rest (drop k as)"
    by blast
  have "list_all ok (drop k as)" using Cons.prems(2) by (meson in_set_dropD list_all_iff)
  moreover have "length (rest @ concat chunks) \<le> length ((buf @ c) @ concat chunks)"
    unfolding 1(3) eq by (metis append_take_drop_id concat_append le_add2 length_append map_append)
  ultimately obtain es where 2: "receive dec rest chunks = (es, [])" "list_all2 rel (drop k as) es"
    using Cons.IH [OF 1(3) _ _ 1(4)] len by (meson le_less_trans)
  have "list_all2 rel (take k as @ drop k as) (ds @ es)" by (rule list_all2_appendI [OF 1(2) 2(2)])
  with 1(1) 2(1) show ?case by (simp del: decode_all.simps)
qed

lemma receive_all:
  assumes "concat chunks = concat (map enc as)" "list_all ok as" "length (concat chunks) < limit"
  shows "\<exists>ds. receive dec [] chunks = (ds, []) \<and> list_all2 rel as ds"
proof (rule receive_pending)
  show "pending enc [] as" using assms(2) enc_not_empty by (cases as) (auto simp: pending_def)
qed (use assms in simp_all)


text \<open>One call of the decoder: it either completes the reply or keeps what has arrived.\<close>

lemma om_loop_collects:
  assumes "s @ coming = concat (map enc as)" "list_all ok as" "length (s @ coming) < limit"
    and "length (od_buf d) + length as = om_count h" "as \<noteq> []" "h = Single () \<Longrightarrow> od_buf d = []"
  shows "\<exists>k ds rest. list_all2 rel (take k as) ds \<and> rest @ coming = concat (map enc (drop k as)) \<and>
    om_loop dec h d s =
      (if length as \<le> k
       then Some (Decoded (Some (om_shape h (od_buf d @ ds))), d\<lparr>od_buf := [], od_hint := None\<rparr>, rest)
       else Some (Decoded None, d\<lparr>od_buf := od_buf d @ ds\<rparr>, rest)) \<and>
    (k < length as \<longrightarrow> pending enc rest (drop k as))"
  using assms
proof (induction as arbitrary: s d)
  case (Cons a as)
  show ?case
  proof (cases "length s < length (enc a)")
    case True
    then have p: "pending enc s (a # as)" by (simp add: pending_def)
    from dec_pending [OF p Cons.prems(1-3)] have "om_loop dec h d s = Some (Decoded None, d, s)"
      by (simp add: om_loop.simps)
    with p Cons.prems(1) show ?thesis by (intro exI [of _ 0] exI [of _ "[]"] exI [of _ s]) simp
  next
    case False
    define s' where "s' = drop (length (enc a)) s"
    have s: "s = enc a @ s'"
      using Cons.prems(1) False unfolding s'_def
      by (metis append_eq_append_conv_if append_eq_conv_conj concat.simps(2) list.simps(9) not_less)
    with Cons.prems(1) have coming: "s' @ coming = concat (map enc as)" by simp
    have len: "length (s' @ coming) < limit" "length (enc a @ s') < limit" using Cons.prems(3) s by simp_all
    from dec_whole [OF _ len(2)] Cons.prems(2) obtain p where p: "dec s = (Decoded (Some p), s')" "rel a p"
      unfolding s by auto
    define d' where "d' = d\<lparr>od_buf := od_buf d @ [p]\<rparr>"
    show ?thesis
    proof (cases "as = []")
      case True
      then have "om_loop dec h d s = Some (Decoded (Some (om_shape h (od_buf d @ [p]))), d\<lparr>od_buf := [], od_hint := None\<rparr>, s')"
        using Cons.prems(4,6) p(1) by (cases h; cases d) (auto simp: om_loop.simps Let_def)
      with True p(2) coming show ?thesis by (intro exI [of _ 1] exI [of _ "[p]"] exI [of _ s']) simp
    next
      case False
      then obtain hs where h: "h = Multi hs" using Cons.prems(4) by (cases h) auto
      have n: "length (od_buf d') + length as = om_count h" using Cons.prems(4) by (simp add: d'_def)
      have "om_loop dec h d s = om_loop dec h d' s'"
        using p(1) n False unfolding h by (subst om_loop.simps) (auto simp: Let_def d'_def)
      moreover obtain k ds rest where "list_all2 rel (take k as) ds" "rest @ coming = concat (map enc (drop k as))"
        "om_loop dec h d' s' =
           (if length as \<le> k
            then Some (Decoded (Some (om_shape h (od_buf d' @ ds))), d'\<lparr>od_buf := [], od_hint := None\<rparr>, rest)
            else Some (Decoded None, d'\<lparr>od_buf := od_buf d' @ ds\<rparr>, rest))"
        "k < length as \<longrightarrow> pending enc rest (drop k as)"
        using Cons.IH [OF coming _ len(1) n False] Cons.prems(2) h by (auto simp: list_all_iff)
      ultimately show ?thesis using p(2)
        by (intro exI [of _ "Suc k"] exI [of _ "p # ds"] exI [of _ rest]) (simp add: d'_def)
    qed
  qed
qed simp

lemma om_receive_quiet:
  "concat chunks = [] \<Longrightarrow> om_receive dec 0 om_idle [] chunks = Some ([], 0, om_idle, [])"
  by (induction chunks) (auto simp: om_decoder_decode_def om_idle_def hint_consume_def)

lemma om_receive_reply:
  assumes "armed h state d" "om_count h < max_buf" "length (od_buf d) + length as = om_count h"
    and "h = Single () \<Longrightarrow> od_buf d = []" "as \<noteq> [] \<or> h = Multi []"
    and "buf @ concat chunks = concat (map enc as)" "list_all ok as" "length (buf @ concat chunks) < limit"
    and "pending enc buf as" "chunks \<noteq> []"
  shows "\<exists>ds. om_receive dec state d buf chunks = Some ([om_shape h (od_buf d @ ds)], 0, om_idle, []) \<and> list_all2 rel as ds"
  using assms
proof (induction chunks arbitrary: state d buf as)
  case (Cons c chunks)
  have eq: "(buf @ c) @ concat chunks = concat (map enc as)" and len: "length ((buf @ c) @ concat chunks) < limit"
    using Cons.prems(6,8) by simp_all
  note call = armed_decode [OF Cons.prems(1,2)]
  show ?case
  proof (cases "h = Multi []")
    case True
    then have "as = []" "od_buf d = []" using Cons.prems(3) by simp_all
    then have "d\<lparr>od_hint := None\<rparr> = om_idle" "buf @ c = []" "concat chunks = []"
      using eq by (simp_all add: om_idle_def)
    then show ?thesis using True \<open>as = []\<close> \<open>od_buf d = []\<close> om_receive_quiet by (simp add: call)
  next
    case False
    define d0 where "d0 = d\<lparr>od_hint := Some h\<rparr>"
    have "length (od_buf d0) + length as = om_count h" "as \<noteq> []" "h = Single () \<Longrightarrow> od_buf d0 = []"
      using Cons.prems(3-5) False by (auto simp: d0_def)
    from om_loop_collects [OF eq Cons.prems(7) len this]
    obtain k ds rest where k: "list_all2 rel (take k as) ds" "rest @ concat chunks = concat (map enc (drop k as))"
      "om_loop dec h d0 (buf @ c) =
        (if length as \<le> k
         then Some (Decoded (Some (om_shape h (od_buf d0 @ ds))), d0\<lparr>od_buf := [], od_hint := None\<rparr>, rest)
         else Some (Decoded None, d0\<lparr>od_buf := od_buf d0 @ ds\<rparr>, rest))"
      "k < length as \<longrightarrow> pending enc rest (drop k as)" by blast
    show ?thesis
    proof (cases "length as \<le> k")
      case True
      have "d0\<lparr>od_buf := [], od_hint := None\<rparr> = om_idle" by (simp add: om_idle_def)
      then show ?thesis using k True False om_receive_quiet [of chunks]
        by (intro exI [of _ ds]) (simp add: call d0_def [symmetric], simp add: d0_def)
    next
      case more_to_come: False
      define d' where "d' = d0\<lparr>od_buf := od_buf d0 @ ds\<rparr>"
      have p: "pending enc rest (drop k as)" "drop k as \<noteq> []" using k(4) more_to_come by simp_all
      then have "chunks \<noteq> []" using k(2) by (cases "drop k as") (auto simp: pending_def)
      moreover have "armed h 0 d'" by (simp add: armed_def d'_def d0_def)
      moreover have "length (od_buf d') + length (drop k as) = om_count h"
        using list_all2_lengthD [OF k(1)] Cons.prems(3) more_to_come by (simp add: d'_def d0_def)
      moreover have "od_buf d' = []" if "h = Single ()"
      proof -
        have "length as = 1" "od_buf d = []" using Cons.prems(3,4) that by simp_all
        then have "k = 0" using more_to_come by simp
        then show ?thesis using k(1) \<open>od_buf d = []\<close> by (simp add: d'_def d0_def)
      qed
      moreover have "list_all ok (drop k as)" using Cons.prems(7) by (meson in_set_dropD list_all_iff)
      moreover have "length (rest @ concat chunks) < limit"
        using len unfolding k(2) eq by (metis append_take_drop_id concat_append le_add2 le_less_trans length_append map_append)
      ultimately obtain es where es: "om_receive dec 0 d' rest chunks = Some ([om_shape h (od_buf d' @ es)], 0, om_idle, [])"
        "list_all2 rel (drop k as) es"
        using Cons.IH [OF _ Cons.prems(2) _ _ _ k(2) _ _ p(1), of 0 d'] p(2) by blast
      have "list_all2 rel (take k as @ drop k as) (ds @ es)" by (rule list_all2_appendI [OF k(1) es(2)])
      then show ?thesis using es(1) k(3) more_to_come False
        by (intro exI [of _ "ds @ es"]) (simp add: call d0_def [symmetric] d'_def [symmetric], simp add: d'_def d0_def)
    qed
  qed
qed simp

end


subsection \<open>RESP packets keep the contract\<close>

text \<open>The crates as an interface, and a reference implementation that keeps it.\<close>

locale resp_library =
  fixes x :: resp_lib
  assumes lib: "lib_ok x"

definition reference_btoi :: "string \<Rightarrow> int option" where
  "reference_btoi s =
     (case s of
        [] \<Rightarrow> None
      | c # t \<Rightarrow>
          if c = CHR ''-''
          then (case parse_digits 0 t of Some n \<Rightarrow> if t \<noteq> [] \<and> n \<le> 2 ^ 63 then Some (- int n) else None | None \<Rightarrow> None)
          else (case parse_digits 0 s of Some n \<Rightarrow> if n < 2 ^ 63 then Some (int n) else None | None \<Rightarrow> None))"

definition reference_lib :: resp_lib where
  "reference_lib = \<lparr>memchr = (\<lambda>c. find_position ((=) c)), btoi = reference_btoi, index_size = 40\<rparr>"

lemma reference_memchr_ok: "memchr_ok (\<lambda>c. find_position ((=) c))"
  unfolding memchr_ok_def
proof (intro allI conjI impI)
  fix c :: char and s i
  show "(find_position ((=) c) s = None) = (c \<notin> set s)" by (auto simp: find_position_None)
  assume i: "find_position ((=) c) s = Some i"
  show "i < length s" "s ! i = c" using find_position_Some [OF i] by auto
  show "c \<notin> set (take i s)" using find_position_Some [OF i] by (auto simp: in_set_conv_nth)
qed

lemma reference_btoi_ok: "btoi_ok reference_btoi"
  unfolding btoi_ok_def
proof (intro conjI allI impI)
  fix n :: nat assume n: "n < 2 ^ 63"
  then have "parse_digits 0 (show_nat n) = Some n" by (intro parse_digits_show) simp
  moreover obtain c t where ct: "show_nat n = c # t" by (cases "show_nat n") auto
  moreover have "c \<noteq> CHR ''-''" using show_nat_no_dash [of n] ct by auto
  ultimately show "reference_btoi (show_nat n) = Some (int n)" using n by (simp add: reference_btoi_def)
next
  show "reference_btoi ''-1'' = Some (- 1)" by (simp add: reference_btoi_def digit_val_def)
next
  fix s n assume "reference_btoi s = Some n"
  then obtain m where "n = int m \<and> m < 2 ^ 63 \<or> n = - int m \<and> m \<le> 2 ^ 63"
    by (auto simp: reference_btoi_def split: list.splits if_splits option.splits)
  then show "- (2 ^ 63) \<le> n" "n < 2 ^ 63" by auto
qed

lemma reference_lib_ok: "lib_ok reference_lib"
  by (simp add: lib_ok_def reference_lib_def reference_memchr_ok reference_btoi_ok)

interpretation ref: resp_library reference_lib
  by unfold_locales (rule reference_lib_ok)

lemma parse_indexed_whole:
  assumes "lib_ok x" "resp_wf r" "fits x (resp_bytes r)" "length (resp_bytes r @ rest) < max_buf"
  shows "\<exists>i. indexed_decode x (resp_bytes r @ rest) = (Decoded (Some \<lparr>ir_resp = i, ir_data = resp_bytes r\<rparr>), rest) \<and>
    to_resp_vec \<lparr>ir_resp = i, ir_data = resp_bytes r\<rparr> = Some r"
proof -
  obtain i where "parse_resp x (resp_bytes r @ rest) = Done (i, length (resp_bytes r))" "reads (resp_bytes r) i r"
    using parse_encode(1) [OF assms] by blast
  then show ?thesis by (intro exI [of _ i]) (simp add: indexed_decode_def parse_indexed_resp_def to_resp_vec_reads)
qed

lemma parse_resp_part:
  assumes "lib_ok x" "resp_wf r" "fits x (resp_bytes r)" "resp_bytes r = part @ missing" "missing \<noteq> []"
  shows "parse_resp x part = Fail NotEnoughData"
proof (rule ccontr)
  assume no: "parse_resp x part \<noteq> Fail NotEnoughData"
  have len: "length (resp_bytes r) < max_buf" using assms(3) by (simp add: fits_def)
  then have part: "length part < max_buf" using assms(4) by simp
  obtain i where "parse_resp x (resp_bytes r @ []) = Done (i, length (resp_bytes r))"
    using parse_encode(1) [OF assms(1-3), of "[]"] len by auto
  with parse_stable(1) [OF part assms(1) no, of missing] assms(4)
  have "parse_resp x part = Done (i, length (resp_bytes r))" by simp
  from parse_Done(1) [OF part assms(1) this] assms(4,5) show False by simp
qed

lemma indexed_decode_part:
  assumes "lib_ok x" "resp_wf r" "fits x (resp_bytes r)" "resp_bytes r = part @ missing" "missing \<noteq> []"
  shows "indexed_decode x part = (Decoded None, part)"
  by (simp add: indexed_decode_def parse_indexed_resp_def parse_resp_part [OF assms])

lemma indexed_decode_empty: "indexed_decode x [] = (Decoded None, [])"
  by (simp add: indexed_decode_def parse_indexed_resp_def parse_resp.simps)

lemma resp_bytes_not_Nil: "resp_bytes r \<noteq> []"
  using resp_bytes_pos [of r] by auto

sublocale resp_library < vec: packet_stream resp_bytes "resp_vec_decode x" "(=)"
  "\<lambda>r. resp_wf r \<and> fits x (resp_bytes r)" max_buf
proof
  fix r rest assume r: "resp_wf r \<and> fits x (resp_bytes r)"
  show "resp_bytes r \<noteq> []" by (rule resp_bytes_not_Nil)
  assume "length (resp_bytes r @ rest) < max_buf"
  with r parse_indexed_whole [OF lib, of r rest]
  show "\<exists>d. resp_vec_decode x (resp_bytes r @ rest) = (Decoded (Some d), rest) \<and> r = d"
    by (auto simp: resp_vec_decode_def)
next
  fix r part missing assume r: "resp_wf r \<and> fits x (resp_bytes r)" "resp_bytes r = part @ missing" "missing \<noteq> []"
  show "resp_vec_decode x part = (Decoded None, part)"
    using indexed_decode_part [OF lib _ _ r(2,3)] r(1) by (simp add: resp_vec_decode_def)
qed (simp add: resp_vec_decode_def indexed_decode_empty)

text \<open>A received packet keeps the very bytes of its encoding.\<close>

definition received :: "resp_vec \<Rightarrow> resp_packet \<Rightarrow> bool" where
  "received r p \<longleftrightarrow> pkt_to_resp_vec p = Some r \<and> pkt_encode p = (resp_bytes r, length (resp_bytes r))"

sublocale resp_library < pkt: packet_stream resp_bytes "packet_decode x" received
  "\<lambda>r. resp_wf r \<and> fits x (resp_bytes r)" max_buf
proof
  fix r rest assume r: "resp_wf r \<and> fits x (resp_bytes r)"
  show "resp_bytes r \<noteq> []" by (rule resp_bytes_not_Nil)
  assume "length (resp_bytes r @ rest) < max_buf"
  with r parse_indexed_whole [OF lib, of r rest]
  show "\<exists>d. packet_decode x (resp_bytes r @ rest) = (Decoded (Some d), rest) \<and> received r d"
    by (auto simp: packet_decode_def received_def)
next
  fix r part missing assume r: "resp_wf r \<and> fits x (resp_bytes r)" "resp_bytes r = part @ missing" "missing \<noteq> []"
  show "packet_decode x part = (Decoded None, part)"
    using indexed_decode_part [OF lib _ _ r(2,3)] r(1) by (simp add: packet_decode_def)
qed (simp add: packet_decode_def indexed_decode_empty)


context resp_library
begin

lemma packets_received:
  "concat chunks = concat (map resp_bytes rs) \<Longrightarrow> list_all (\<lambda>r. resp_wf r \<and> fits x (resp_bytes r)) rs \<Longrightarrow>
     length (concat chunks) < max_buf \<Longrightarrow>
     \<exists>ps. receive (packet_decode x) [] chunks = (ps, []) \<and> list_all2 received rs ps"
  by (rule pkt.receive_all)

lemma replies_received:
  assumes "om_count h < max_buf" "length rs = om_count h" "concat chunks = concat (map resp_bytes rs)"
    and "list_all (\<lambda>r. resp_wf r \<and> fits x (resp_bytes r)) rs" "length (concat chunks) < max_buf" "chunks \<noteq> []"
  shows "om_receive (resp_vec_decode x) (snd (hint_produce 0 h)) om_idle [] chunks = Some ([om_shape h rs], 0, om_idle, [])"
proof -
  have "rs \<noteq> [] \<or> h = Multi []" using assms(2) by (cases h) auto
  moreover have "pending resp_bytes [] rs"
    by (cases rs) (simp_all add: pending_def resp_bytes_not_Nil)
  moreover have "armed h (snd (hint_produce 0 h)) (om_idle :: resp_vec om_decoder)" by (simp add: armed_def om_idle_def)
  ultimately show ?thesis
    using vec.om_receive_reply [of h "snd (hint_produce 0 h)" om_idle rs "[]" chunks] assms
    by (auto simp: om_idle_def list.rel_eq)
qed

end

lemma packet_decode_Some:
  assumes "lib_ok x" "length buf < max_buf" "packet_decode x buf = (Decoded (Some p), rest)"
  shows "fst (pkt_encode p) @ rest = buf" "\<exists>r. pkt_to_resp_vec p = Some r"
proof -
  from assms(3) obtain ir where p: "p = Indexed ir" and "indexed_decode x buf = (Decoded (Some ir), rest)"
    by (auto simp: packet_decode_def split: prod.splits decoded.splits)
  then have "parse_indexed_resp x buf = Done (ir, rest)"
    by (auto simp: indexed_decode_def split: parsed.splits parse_error.splits)
  then obtain i c where i: "parse_resp x buf = Done (i, c)" "ir = \<lparr>ir_resp = i, ir_data = take c buf\<rparr>" "rest = drop c buf"
    by (auto simp: parse_indexed_resp_def pbind_Done split: if_splits)
  show "fst (pkt_encode p) @ rest = buf" by (simp add: p i)
  have "c \<le> length buf" "list_all (index_ok c) (resp_leaves i)"
    using parse_Done(1) [OF assms(2,1) i(1)] by (simp_all add: resp_ok_def)
  then have "\<And>a. a \<in> set (resp_leaves i) \<Longrightarrow> slice_get (take c buf) a \<noteq> None"
    by (simp add: list_all_iff index_ok_def slice_get_def)
  then have "None \<notin> set (resp_leaves (resp_map (slice_get (take c buf)) i))"
    unfolding resp_leaves_map set_map image_iff by metis
  then show "\<exists>r. pkt_to_resp_vec p = Some r" by (simp add: p i(2) to_resp_vec_def)
qed

lemma pkt_edits_refine:
  assumes "pkt_to_resp_vec p = Some r"
  shows "map_option (map_prod id pkt_to_resp_vec) (pkt_change_bulk_array_element p index data) =
      Some (map_prod id Some (change_bulk_array_element r index data))"
    and "map_option (map_prod id pkt_to_resp_vec) (left_trim_cmd p n) = Some (map_prod id Some (left_trim_array r n))"
    and "map_option (map_prod id pkt_to_resp_vec) (wrap_cmd p pre) = Some (map_prod id Some (array_append_front r pre))"
    and "map_option (map_prod id pkt_to_resp_vec) (pkt_change_bulk_str p data) = Some (map_prod id Some (change_bulk_str r data))"
proof -
  have bulk: "change_bulk_str r data = (False, r') \<Longrightarrow> r' = r" for r r'
    by (auto simp: change_bulk_str_def split: resp.splits bulk_str.splits)
  have elem: "change_bulk_array_element r index data = (False, r') \<Longrightarrow> r' = r" for r r'
    by (auto simp: change_bulk_array_element_def dest: bulk split: resp.splits array.splits if_splits prod.splits)
  have front: "array_append_front r pre = (False, r') \<Longrightarrow> r' = r" for r r'
    by (auto simp: array_append_front_def split: resp.splits array.splits)
  have trim: "left_trim_array r n = (None, r') \<Longrightarrow> r' = r" for r r' :: resp_vec
    by (auto simp: left_trim_array_def Let_def split: resp.splits array.splits)
  show "map_option (map_prod id pkt_to_resp_vec) (pkt_change_bulk_array_element p index data) =
      Some (map_prod id Some (change_bulk_array_element r index data))"
    using assms by (cases p) (auto split: prod.splits dest: elem)
  show "map_option (map_prod id pkt_to_resp_vec) (left_trim_cmd p n) = Some (map_prod id Some (left_trim_array r n))"
    using assms by (cases p) (auto split: prod.splits option.splits dest: trim)
  show "map_option (map_prod id pkt_to_resp_vec) (wrap_cmd p pre) = Some (map_prod id Some (array_append_front r pre))"
    using assms by (cases p) (auto split: prod.splits dest: front)
  show "map_option (map_prod id pkt_to_resp_vec) (pkt_change_bulk_str p data) = Some (map_prod id Some (change_bulk_str r data))"
    using assms by (cases p) (auto split: prod.splits dest: bulk)
qed

lemma pkt_last_refines:
  "pkt_to_resp_vec p = Some r \<Longrightarrow>
     pkt_get_array_last_element p =
       Some (case get_command_len r of None \<Rightarrow> None | Some len \<Rightarrow> if len = 0 then None else get_command_element r (len - 1))"
  by (auto simp: pkt_get_array_last_element_def pkt_element_refines split: option.splits)


lemma length_show_nat_le: "n < 10 ^ k \<Longrightarrow> 0 < k \<Longrightarrow> length (show_nat n) \<le> k"
proof (induction k arbitrary: n)
  case (Suc k)
  show ?case
  proof (cases "n < 10")
    case True
    then show ?thesis by (subst show_nat.simps) simp
  next
    case False
    then have "n div 10 < 10 ^ k" "0 < k" using Suc.prems(1) by (auto simp: div_less_iff_less_mult mult.commute intro: gr0I)
    then show ?thesis using Suc.IH [of "n div 10"] False by (subst show_nat.simps) simp
  qed
qed simp


subsection \<open>Properties\<close>

text \<open>
  (C34) A connection that receives the encodings of a sequence of packets, cut into reads at
  arbitrary places, decodes exactly these packets, in order and with nothing left over; each
  of them is passed on with the very bytes it was received with.
\<close>

theorem packets_survive_any_chunking:
  assumes "lib_ok x" "list_all (\<lambda>r. resp_wf r \<and> fits x (fst (resp_to_buf [] r))) rs"
    and "concat chunks = concat (map (\<lambda>r. fst (resp_to_buf [] r)) rs)" "length (concat chunks) < 2 ^ 62"
  shows "\<exists>ps. receive (packet_decode x) [] chunks = (ps, []) \<and> map pkt_to_resp_vec ps = map Some rs \<and>
    map (\<lambda>p. fst (pkt_encode p)) ps = map (\<lambda>r. fst (resp_to_buf [] r)) rs"
proof -
  have bytes: "fst (resp_to_buf [] r) = resp_bytes r" for r by (simp add: resp_to_buf_def resp_bytes_def)
  obtain ps where "receive (packet_decode x) [] chunks = (ps, [])" and ps: "list_all2 received rs ps"
    using resp_library.packets_received [OF resp_library.intro [OF assms(1)], of chunks rs] assms(2-4)
    unfolding bytes by blast
  moreover have "map pkt_to_resp_vec ps = map Some rs" "map (\<lambda>p. fst (pkt_encode p)) ps = map resp_bytes rs"
    using ps by (auto simp: list_all2_conv_all_nth received_def intro!: nth_equalityI)
  ultimately show ?thesis by (simp add: bytes)
qed


text \<open>Two packets in three reads, the second packet cut inside its bulk string.\<close>

definition example_packets :: "resp_vec list" where
  "example_packets = [Simple ''OK'', Arr (ArrayOf [Bulk (Str ''GET''), Bulk (Str ''k'')])]"

definition example_reads :: "string list" where
  "example_reads =
     (let s = concat (map resp_bytes example_packets) in [take 3 s, take 10 (drop 3 s), drop 13 s])"

lemma length_show_digit: "n < 10 \<Longrightarrow> length (show_nat n) = 1"
  by (subst show_nat.simps) simp

lemma example_reads_ok:
  "list_all (\<lambda>r. resp_wf r \<and> fits reference_lib (fst (resp_to_buf [] r))) example_packets"
  "concat example_reads = concat (map (\<lambda>r. fst (resp_to_buf [] r)) example_packets)"
  "length (concat example_reads) < 2 ^ 62"
proof -
  have split: "take 3 s @ take 10 (drop 3 s) @ drop 13 s = s" for s :: string
  proof -
    have "drop 13 s = drop 10 (drop 3 s)" by simp
    then show ?thesis by (simp only: append_take_drop_id)
  qed
  show "list_all (\<lambda>r. resp_wf r \<and> fits reference_lib (fst (resp_to_buf [] r))) example_packets"
    by (simp add: example_packets_def LF_def fits_def reference_lib_def resp_to_buf_def
        encode_simple_element_def CRLF_def length_show_digit)
  have "concat example_reads = concat (map resp_bytes example_packets)"
    unfolding example_reads_def Let_def concat.simps append_Nil2 by (rule split)
  then show eq: "concat example_reads = concat (map (\<lambda>r. fst (resp_to_buf [] r)) example_packets)"
    by (simp add: resp_to_buf_def resp_bytes_def [abs_def])
  show "length (concat example_reads) < 2 ^ 62"
    unfolding eq by (simp add: example_packets_def resp_to_buf_def encode_simple_element_def CRLF_def length_show_digit)
qed

theorem packets_survive_any_chunking_witness:
  "\<exists>ps. receive (packet_decode reference_lib) [] example_reads = (ps, []) \<and>
    map pkt_to_resp_vec ps = map Some example_packets \<and>
    map (\<lambda>p. fst (pkt_encode p)) ps = map (\<lambda>r. fst (resp_to_buf [] r)) example_packets"
  by (rule packets_survive_any_chunking [OF reference_lib_ok example_reads_ok])

text \<open>
  (C35) A decoded packet is well-formed: it consists of the first bytes of the buffer, and none
  of the operations on it can panic, since every index lies in these bytes.
\<close>

theorem decoded_packet_is_well_formed:
  assumes "lib_ok x" "length buf < 2 ^ 62" "packet_decode x buf = (Decoded (Some p), rest)"
  shows "fst (pkt_encode p) @ rest = buf \<and> pkt_to_resp_vec p \<noteq> None \<and>
    pkt_get_array_element p index \<noteq> None \<and> pkt_get_array_last_element p \<noteq> None \<and> pkt_get_command_name p \<noteq> None \<and>
    pkt_change_bulk_array_element p index data \<noteq> None \<and> left_trim_cmd p n \<noteq> None \<and> wrap_cmd p pre \<noteq> None \<and>
    pkt_change_bulk_str p data \<noteq> None"
proof -
  from packet_decode_Some [OF assms] obtain r where bytes: "fst (pkt_encode p) @ rest = buf"
    and r: "pkt_to_resp_vec p = Some r" by blast
  have "pkt_change_bulk_array_element p index data \<noteq> None" "left_trim_cmd p n \<noteq> None" "wrap_cmd p pre \<noteq> None"
    "pkt_change_bulk_str p data \<noteq> None"
    using pkt_edits_refine [OF r] by (metis option.map(1) option.distinct(1))+
  then show ?thesis using bytes r pkt_element_refines [OF r] pkt_last_refines [OF r]
    by (simp add: pkt_get_command_name_def split: option.splits)
qed

definition example_get :: "string" where
  "example_get = ''*1'' @ CRLF @ ''$4'' @ CRLF @ ''PING'' @ CRLF"

lemma example_get_parsed:
  "packet_decode reference_lib (example_get @ ''+'') =
     (Decoded (Some (Indexed \<lparr>ir_resp = Arr (ArrayOf [Bulk (Str (8, 12))]), ir_data = example_get\<rparr>)), ''+'')"
  by (simp add: packet_decode_def indexed_decode_def parse_indexed_resp_def parse_resp.simps parse_array.simps
      parse_elements.simps [of _ "Suc 0"] parse_elements.simps [of _ 0] parse_len_def parse_line_def parse_bulk_str_def
      reference_lib_def reference_btoi_def digit_val_def example_get_def CRLF_def LF_def slice_get_def usize_add_def
      usize_sub_def array_advance_def resp_advance_def bulk_advance_def index_advance_def capacity_ok_def)

theorem decoded_packet_is_well_formed_witness:
  "fst (pkt_encode (Indexed \<lparr>ir_resp = Arr (ArrayOf [Bulk (Str (8, 12))]), ir_data = example_get\<rparr>)) @ ''+'' = example_get @ ''+'' \<and>
   pkt_get_command_name (Indexed \<lparr>ir_resp = Arr (ArrayOf [Bulk (Str (8, 12))]), ir_data = example_get\<rparr>) \<noteq> None"
  using decoded_packet_is_well_formed [OF reference_lib_ok _ example_get_parsed, of 0 "[]" 0 "[]"]
  by (simp add: example_get_def CRLF_def)

text \<open>
  (C36) The two representations of a packet cannot be told apart: every reader and every edit of
  a packet gives what the corresponding operation gives on the value of the packet.
\<close>

theorem packet_representation_is_invisible:
  assumes "pkt_to_resp_vec p = Some r"
  shows "pkt_get_array_len p = get_command_len r \<and>
    pkt_get_array_element p index = Some (get_command_element r index) \<and>
    pkt_get_array_last_element p =
      Some (case get_command_len r of None \<Rightarrow> None | Some len \<Rightarrow> if len = 0 then None else get_command_element r (len - 1)) \<and>
    map_option (map_prod id pkt_to_resp_vec) (pkt_change_bulk_array_element p index data) =
      Some (map_prod id Some (change_bulk_array_element r index data)) \<and>
    map_option (map_prod id pkt_to_resp_vec) (left_trim_cmd p n) = Some (map_prod id Some (left_trim_array r n)) \<and>
    map_option (map_prod id pkt_to_resp_vec) (wrap_cmd p pre) = Some (map_prod id Some (array_append_front r pre)) \<and>
    map_option (map_prod id pkt_to_resp_vec) (pkt_change_bulk_str p data) = Some (map_prod id Some (change_bulk_str r data))"
  using pkt_element_refines [OF assms] pkt_last_refines [OF assms] pkt_edits_refine [OF assms] by simp

theorem packet_representation_is_invisible_witness:
  "map_option (map_prod id pkt_to_resp_vec)
     (wrap_cmd (Indexed \<lparr>ir_resp = Arr (ArrayOf [Bulk (Str (8, 12))]), ir_data = example_get\<rparr>) [''UMFORWARD'', ''0'']) =
   Some (True, Some (Arr (ArrayOf [Bulk (Str ''UMFORWARD''), Bulk (Str ''0''), Bulk (Str ''PING'')])))"
  using packet_representation_is_invisible
    [of "Indexed \<lparr>ir_resp = Arr (ArrayOf [Bulk (Str (8, 12))]), ir_data = example_get\<rparr>"
        "Arr (ArrayOf [Bulk (Str ''PING'')])" 0 "[]" 0 "[''UMFORWARD'', ''0'']"]
  by (simp add: to_resp_vec_def slice_get_def example_get_def CRLF_def array_append_front_def)


text \<open>
  (C37) On a connection with several packets per request, a request is sent when none is under
  way, no other request is accepted until its reply is being read, and the replies to its
  packets, cut into reads at arbitrary places, are returned once, as one reply of the shape of
  the request with the replies in order; the codec is then ready for the next request.
\<close>

theorem replies_have_shape_of_request:
  assumes "lib_ok x" "length rs = om_count (om_get_hint req)" "length rs < 2 ^ 62"
    and "list_all (\<lambda>r. resp_wf r \<and> fits x (fst (resp_to_buf [] r))) rs"
    and "concat chunks = concat (map (\<lambda>r. fst (resp_to_buf [] r)) rs)" "length (concat chunks) < 2 ^ 62" "chunks \<noteq> []"
  shows "\<exists>state. om_encoder_encode encode 0 req = (Some (om_encode encode req), state) \<and>
    om_encoder_encode encode state req' = (None, state) \<and>
    om_receive (resp_vec_decode x) state om_idle [] chunks = Some ([om_shape (om_get_hint req) rs], 0, om_idle, [])"
proof -
  have bytes: "fst (resp_to_buf [] r) = resp_bytes r" for r by (simp add: resp_to_buf_def resp_bytes_def)
  define state where "state = snd (hint_produce 0 (om_get_hint req))"
  have "0 < state" unfolding state_def using assms(2,3) by (cases req) (auto simp: hint_produce_def usize_simps)
  then have "om_encoder_encode encode 0 req = (Some (om_encode encode req), state)"
    "om_encoder_encode encode state req' = (None, state)"
    unfolding state_def by (auto simp: om_encoder_encode_def hint_produce_def Let_def)
  moreover have "om_receive (resp_vec_decode x) state om_idle [] chunks = Some ([om_shape (om_get_hint req) rs], 0, om_idle, [])"
    unfolding state_def using assms(2-7)
    by (intro resp_library.replies_received [OF resp_library.intro [OF assms(1)]]) (simp_all add: bytes)
  ultimately show ?thesis by blast
qed

theorem replies_have_shape_of_request_witness:
  "\<exists>state. om_encoder_encode command_encode 0 (Multi [[''PING''], [''KEYS'']]) =
      (Some (om_encode command_encode (Multi [[''PING''], [''KEYS'']])), state) \<and>
    om_encoder_encode command_encode state (Single [''PING'']) = (None, state) \<and>
    om_receive (resp_vec_decode reference_lib) state om_idle [] example_reads = Some ([Multi example_packets], 0, om_idle, [])"
  using replies_have_shape_of_request
    [OF reference_lib_ok _ _ example_reads_ok, of "Multi [[''PING''], [''KEYS'']]" command_encode "Single [''PING'']"]
  by (simp add: example_packets_def example_reads_def)

text \<open>
  (C38) A client can make the decoder of its connection panic: the length of an array is
  used as the capacity of a vector before any element has been seen, and a length close to the
  largest \<open>i64\<close> is more than can be allocated for elements of two bytes or more.
\<close>

theorem huge_array_length_panics:
  assumes "lib_ok x" "2 \<le> index_size x"
  shows "packet_decode x (''*'' @ show_nat (2 ^ 63 - 1) @ CRLF) =
    (DecodePanic, ''*'' @ show_nat (2 ^ 63 - 1) @ CRLF)"
proof -
  define n :: nat where "n = 2 ^ 63 - 1"
  have n: "n < 2 ^ 63" "2 ^ 63 \<le> n * 2" by (simp_all add: n_def)
  have "length (show_nat n) < 2 ^ 61"
    using length_show_nat_le [of n 20] by (simp add: n_def)
  then have "parse_len x (show_nat n @ CRLF @ []) = Done (int n, length (show_nat n) + 2)"
    by (intro parse_len_show [OF assms(1)] n(1)) simp
  moreover have "\<not> capacity_ok x n"
    using n(2) mult_le_mono2 [OF assms(2), of n] unfolding capacity_ok_def by linarith
  ultimately have "parse_resp x (''*'' @ show_nat n @ CRLF) = Crash"
    unfolding parse_prefixed by (simp add: parse_array.simps)
  then show ?thesis unfolding n_def [symmetric]
    by (simp add: packet_decode_def indexed_decode_def parse_indexed_resp_def)
qed

theorem huge_array_length_panics_witness:
  "packet_decode reference_lib (''*'' @ show_nat (2 ^ 63 - 1) @ CRLF) =
    (DecodePanic, ''*'' @ show_nat (2 ^ 63 - 1) @ CRLF)"
  by (rule huge_array_length_panics [OF reference_lib_ok]) (simp add: reference_lib_def)

end
