(* ===== verification/UM_Proto.thy ===== *)
theory UM_Proto
  imports UM_Cluster UM_Packet
begin

section \<open>Control commands: the metadata sent to the proxies\<close>

text \<open>
  Model of \<open>common/proto.rs\<close> (the arguments of \<open>UMCTL SETCLUSTER\<close>),
  \<open>replication/replicator.rs\<close> (\<open>UMCTL SETREPL\<close>), and of the part of
  \<open>coordinator/sync.rs\<close> that builds these commands from the view of a proxy.

  The arguments are lists of strings; a decoder takes such a list and returns what is left of
  it. JSON, gzip and base64 are third-party code: the fields of \<open>meta_lib\<close>, with their
  round trips as \<open>meta_lib_ok\<close>.
\<close>


subsection \<open>Helpers of \<open>common/utils.rs\<close>\<close>

datatype cmd_parse_error =
  CmdInvalidVersion | CmdInvalidEpoch | CmdInvalidClusterName | CmdInvalidSlots | CmdInvalidConfig
| CmdInvalidRole | CmdInvalidArgs

definition byte_ascii_case_insensitive_eq :: "char \<Rightarrow> char \<Rightarrow> bool" where
  "byte_ascii_case_insensitive_eq x y =
     (let a = (of_char x :: nat); b = (of_char y :: nat)
      in a = b \<or> 97 \<le> a \<and> a \<le> 122 \<and> a = (b + 32) mod 256 \<or> 65 \<le> a \<and> a \<le> 90 \<and> (a + 32) mod 256 = b)"

definition bytes_ascii_case_insensitive_eq :: "string \<Rightarrow> string \<Rightarrow> bool" where
  "bytes_ascii_case_insensitive_eq lhs rhs =
     (length lhs = length rhs \<and> list_all (\<lambda>(a, b). byte_ascii_case_insensitive_eq a b) (zip lhs rhs))"

definition has_flags :: "string \<Rightarrow> char \<Rightarrow> string \<Rightarrow> bool" where
  "has_flags s delimiter flag = list_ex (\<lambda>t. bytes_ascii_case_insensitive_eq t flag) (split_on delimiter s)"

definition byte_to_uppercase :: "char \<Rightarrow> char" where
  "byte_to_uppercase c = (let b = (of_char c :: nat) in if 97 \<le> b \<and> b \<le> 122 then char_of (b - 32) else c)"

definition extract_host_from_address :: "address \<Rightarrow> string option" where
  "extract_host_from_address address =
     (if CHR '':'' \<in> set address then Some (takeWhile (\<lambda>c. c \<noteq> CHR '':'') address) else None)"


subsection \<open>Flags\<close>

record cluster_map_flags =
  cf_force :: bool
  cf_compress :: bool

definition flags_to_arg :: "cluster_map_flags \<Rightarrow> string" where
  "flags_to_arg f =
     (let flags = (if cf_force f then [''FORCE''] else []) @ (if cf_compress f then [''COMPRESS''] else [])
      in case flags of [] \<Rightarrow> ''NOFLAG'' | a # as \<Rightarrow> a @ concat (map (\<lambda>s. '','' @ s) as))"

definition flags_from_arg :: "string \<Rightarrow> cluster_map_flags" where
  "flags_from_arg s = \<lparr>cf_force = has_flags s (CHR '','') ''FORCE'', cf_compress = has_flags s (CHR '','') ''COMPRESS''\<rparr>"


subsection \<open>Node maps\<close>

type_synonym node_map = "(address, slot_range list) hashmap"

definition PEER_PREFIX :: string where
  "PEER_PREFIX = ''PEER''"

definition CONFIG_PREFIX :: string where
  "CONFIG_PREFIX = ''CONFIG''"

definition is_prefix_token :: "string \<Rightarrow> bool" where
  "is_prefix_token s \<longleftrightarrow> to_uppercase s = PEER_PREFIX \<or> to_uppercase s = CONFIG_PREFIX"

definition nm_to_args :: "node_map \<Rightarrow> string list" where
  "nm_to_args m = concat (map (\<lambda>(node, slot_ranges). concat (map (\<lambda>sr. node # sr_into_strings sr) slot_ranges)) m)"

definition parse_node :: "string list \<Rightarrow> cmd_parse_error + ((address \<times> slot_range) \<times> string list)" where
  "parse_node it =
     (case it of
        [] \<Rightarrow> Inl CmdInvalidArgs
      | addr # it' \<Rightarrow>
          (case sr_from_strings it' of
             None \<Rightarrow> Inl CmdInvalidArgs
           | Some (slot_range, rest) \<Rightarrow> Inr ((addr, slot_range), rest)))"

text \<open>\<open>node_map.entry(address).or_insert_with(Vec::new).push(slot_range)\<close>\<close>

definition nm_push :: "address \<Rightarrow> slot_range \<Rightarrow> node_map \<Rightarrow> node_map" where
  "nm_push address slot_range m = hm_modify address (\<lambda>slots. slots @ [slot_range]) (hm_or_insert address [] m)"

lemma parse_ranges_length: "parse_ranges n it = Some (rs, rest) \<Longrightarrow> length rest \<le> length it"
  by (induction n it arbitrary: rs rest rule: parse_ranges.induct) (fastforce split: option.splits)+

lemma rl_parse_length: "rl_parse it = Some (rl, rest) \<Longrightarrow> length rest \<le> length it"
  by (auto simp: rl_parse_def dest: parse_ranges_length split: list.splits option.splits)

lemma mm_from_strings_length: "mm_from_strings it = Some (m, rest) \<Longrightarrow> length rest \<le> length it"
  by (cases it rule: mm_from_strings.cases) (auto split: option.splits list.splits)

lemma sr_from_strings_length: "sr_from_strings it = Some (sr, rest) \<Longrightarrow> length rest \<le> length it"
  by (fastforce simp: sr_from_strings_def dest: rl_parse_length mm_from_strings_length
      split: list.splits option.splits if_splits)

lemma parse_node_length: "parse_node it = Inr (p, rest) \<Longrightarrow> length rest < length it"
  by (auto simp: parse_node_def less_Suc_eq_le dest: sr_from_strings_length split: list.splits option.splits)

function nm_parse :: "node_map \<Rightarrow> string list \<Rightarrow> cmd_parse_error + (node_map \<times> string list)" where
  "nm_parse node_map it =
     (case it of
        [] \<Rightarrow> Inr (node_map, [])
      | first_token # _ \<Rightarrow>
          if is_prefix_token first_token then Inr (node_map, it)
          else (case parse_node it of
                  Inl _ \<Rightarrow> Inl CmdInvalidArgs
                | Inr ((address, slot_range), rest) \<Rightarrow> nm_parse (nm_push address slot_range node_map) rest))"
  by pat_completeness auto
termination
  by (relation "measure (length \<circ> snd)") (auto dest: parse_node_length)

declare nm_parse.simps [simp del]

definition check_hosts :: "node_map \<Rightarrow> string \<Rightarrow> bool" where
  "check_hosts m announce_host =
     list_all (\<lambda>addr. extract_host_from_address addr = Some announce_host) (hm_keys m)"


subsection \<open>Configuration arguments\<close>

definition cc_to_args :: "cluster_config \<Rightarrow> string list" where
  "cc_to_args c = concat (map (\<lambda>(k, v). [k, v]) (cluster_config_to_str_map c))"

text \<open>The result and the iterator after the call, which is used also after an error.\<close>

fun cc_parse :: "cluster_config \<Rightarrow> string list \<Rightarrow> (cmd_parse_error + cluster_config) \<times> string list" where
  "cc_parse config [] = (Inr config, [])"
| "cc_parse config (first_token # it) =
     (if is_prefix_token first_token then (Inr config, first_token # it)
      else case it of
        [] \<Rightarrow> (Inl CmdInvalidArgs, [])
      | val # rest \<Rightarrow>
          (case cluster_config_set_field config first_token val of
             Inl _ \<Rightarrow> (Inl CmdInvalidConfig, rest)
           | Inr config' \<Rightarrow> cc_parse config' rest))"



subsection \<open>\<open>UMCTL SETCLUSTER\<close>\<close>

record proxy_cluster_meta =
  pm_version :: string
  pm_epoch :: epoch
  pm_flags :: cluster_map_flags
  pm_cluster_name :: cluster_name
  pm_local :: node_map
  pm_peer :: node_map
  pm_config :: cluster_config

record proxy_cluster_meta_data =
  pd_cluster_name :: cluster_name
  pd_local :: node_map
  pd_peer :: node_map
  pd_config :: cluster_config

definition SET_CLUSTER_API_VERSION :: string where
  "SET_CLUSTER_API_VERSION = ''v2''"

definition pm_new ::
  "epoch \<Rightarrow> cluster_map_flags \<Rightarrow> cluster_name \<Rightarrow> node_map \<Rightarrow> node_map \<Rightarrow> cluster_config \<Rightarrow> proxy_cluster_meta" where
  "pm_new epoch flags cluster_name local peer config =
     \<lparr>pm_version = SET_CLUSTER_API_VERSION, pm_epoch = epoch, pm_flags = flags, pm_cluster_name = cluster_name,
      pm_local = local, pm_peer = peer, pm_config = config\<rparr>"

definition pm_gen_data :: "proxy_cluster_meta \<Rightarrow> proxy_cluster_meta_data" where
  "pm_gen_data m =
     \<lparr>pd_cluster_name = pm_cluster_name m, pd_local = pm_local m, pd_peer = pm_peer m, pd_config = pm_config m\<rparr>"

text \<open>The crates behind the compressed form of the metadata.\<close>

record meta_lib =
  json_to_string :: "proxy_cluster_meta_data \<Rightarrow> string option"
  json_from_str :: "string \<Rightarrow> proxy_cluster_meta_data option"
  gz_encode :: "string \<Rightarrow> string option"
  gz_decode :: "string \<Rightarrow> string option"
  base64_encode :: "string \<Rightarrow> string"
  base64_decode :: "string \<Rightarrow> string option"

datatype meta_compress_error = CompressIo | CompressJson | CompressBase64

definition gen_compressed_data :: "meta_lib \<Rightarrow> proxy_cluster_meta_data \<Rightarrow> meta_compress_error + string" where
  "gen_compressed_data z d =
     (case json_to_string z d of
        None \<Rightarrow> Inl CompressJson
      | Some s \<Rightarrow> (case gz_encode z s of None \<Rightarrow> Inl CompressIo | Some buf \<Rightarrow> Inr (base64_encode z buf)))"

definition from_compressed_data :: "meta_lib \<Rightarrow> string \<Rightarrow> meta_compress_error + proxy_cluster_meta_data" where
  "from_compressed_data z data =
     (case base64_decode z data of
        None \<Rightarrow> Inl CompressBase64
      | Some raw \<Rightarrow>
          (case gz_decode z raw of
             None \<Rightarrow> Inl CompressIo
           | Some s \<Rightarrow> (case json_from_str z s of None \<Rightarrow> Inl CompressJson | Some d \<Rightarrow> Inr d)))"

text \<open>
  The tokens after the local nodes. The flag of the result is whether the extended metadata,
  the configuration, could be read; the iterator goes on behind a configuration that could not.
\<close>

lemma nm_parse_length: "nm_parse m it = Inr (m', rest) \<Longrightarrow> length rest \<le> length it"
proof (induction m it arbitrary: m' rest rule: nm_parse.induct)
  case (1 m it)
  show ?case
  proof (cases it)
    case (Cons t ts)
    show ?thesis
    proof (cases "is_prefix_token t")
      case False
      with "1.prems" Cons obtain a sr rest' where node: "parse_node it = Inr ((a, sr), rest')"
        and rec: "nm_parse (nm_push a sr m) rest' = Inr (m', rest)"
        by (auto simp: nm_parse.simps [of m "t # ts"] split: sum.splits)
      from "1.IH" [OF Cons False node refl refl rec] parse_node_length [OF node] show ?thesis by simp
    qed (use "1.prems" Cons in \<open>simp add: nm_parse.simps [of m "t # ts"]\<close>)
  qed (use "1.prems" in \<open>simp add: nm_parse.simps [of m "[]"]\<close>)
qed

lemma cc_parse_length: "cc_parse c it = (r, rest) \<Longrightarrow> length rest \<le> length it"
proof (induction c it rule: cc_parse.induct)
  case (2 c t it)
  show ?case
  proof (cases "is_prefix_token t \<or> it = []")
    case False
    then obtain v it' where it: "it = v # it'" by (cases it) auto
    with False 2 show ?thesis by (cases "cluster_config_set_field c t v") (auto intro!: le_SucI)
  qed (use "2.prems" in \<open>auto split: if_splits\<close>)
qed simp

function pm_parse_rest ::
  "node_map \<Rightarrow> node_map \<Rightarrow> cluster_config \<Rightarrow> bool \<Rightarrow> string list \<Rightarrow>
   cmd_parse_error + (node_map \<times> cluster_config \<times> bool)" where
  "pm_parse_rest local peer config ext [] = Inr (peer, config, ext)"
| "pm_parse_rest local peer config ext (token # it) =
     (if to_uppercase token = PEER_PREFIX then
        (case nm_parse [] it of
           Inl e \<Rightarrow> Inl e
         | Inr (peer', rest) \<Rightarrow> pm_parse_rest local peer' config ext rest)
      else if to_uppercase token = CONFIG_PREFIX then
        (case cc_parse cluster_config_default it of
           (Inr config', rest) \<Rightarrow> pm_parse_rest local peer config' ext rest
         | (Inl _, rest) \<Rightarrow>
             if local = [] \<or> peer = [] then Inl CmdInvalidArgs
             else pm_parse_rest local peer config False rest)
      else Inl CmdInvalidArgs)"
  by pat_completeness auto
termination
  by (relation "measure (\<lambda>(local, peer, config, ext, it). length it)")
     (auto simp: less_Suc_eq_le dest!: nm_parse_length cc_parse_length [OF sym])


declare pm_parse_rest.simps [simp del]

definition pm_parse :: "meta_lib \<Rightarrow> string list \<Rightarrow> cmd_parse_error + (proxy_cluster_meta \<times> bool)" where
  "pm_parse z it =
     (case it of
        [] \<Rightarrow> Inl CmdInvalidArgs
      | version # it1 \<Rightarrow>
          if version \<noteq> SET_CLUSTER_API_VERSION then Inl CmdInvalidVersion
          else case it1 of
            [] \<Rightarrow> Inl CmdInvalidArgs
          | epoch_str # it2 \<Rightarrow>
              (case parse_epoch epoch_str of
                 None \<Rightarrow> Inl CmdInvalidArgs
               | Some epoch \<Rightarrow>
                   (case it2 of
                      [] \<Rightarrow> Inl CmdInvalidArgs
                    | flags_str # it3 \<Rightarrow>
                        let flags = flags_from_arg flags_str in
                        (case it3 of
                           [] \<Rightarrow> Inl CmdInvalidArgs
                         | arg # it4 \<Rightarrow>
                             if cf_compress flags then
                               (case from_compressed_data z arg of
                                  Inl _ \<Rightarrow> Inl CmdInvalidArgs
                                | Inr d \<Rightarrow>
                                    Inr (\<lparr>pm_version = version, pm_epoch = epoch, pm_flags = flags,
                                          pm_cluster_name = pd_cluster_name d, pm_local = pd_local d,
                                          pm_peer = pd_peer d, pm_config = pd_config d\<rparr>, True))
                             else
                               (case cluster_name_try_from arg of
                                  None \<Rightarrow> Inl CmdInvalidClusterName
                                | Some cluster_name \<Rightarrow>
                                    (case nm_parse [] it4 of
                                       Inl e \<Rightarrow> Inl e
                                     | Inr (local, it5) \<Rightarrow>
                                         (case pm_parse_rest local [] cluster_config_default True it5 of
                                            Inl e \<Rightarrow> Inl e
                                          | Inr (peer, config, ext) \<Rightarrow>
                                              Inr (\<lparr>pm_version = version, pm_epoch = epoch, pm_flags = flags,
                                                    pm_cluster_name = cluster_name, pm_local = local,
                                                    pm_peer = peer, pm_config = config\<rparr>, ext))))))))"

text \<open>The arguments of a command behind its two names; whatever is not a UTF-8 bulk string is skipped.\<close>

definition control_args :: "resp_vec list \<Rightarrow> string list" where
  "control_args arr =
     List.map_filter (\<lambda>r. case r of Bulk (Str s) \<Rightarrow> from_utf8 s | _ \<Rightarrow> None) (drop 2 arr)"

definition pm_from_resp :: "meta_lib \<Rightarrow> resp_vec \<Rightarrow> cmd_parse_error + (proxy_cluster_meta \<times> bool)" where
  "pm_from_resp z resp =
     (case resp of Arr (ArrayOf arr) \<Rightarrow> pm_parse z (control_args arr) | _ \<Rightarrow> Inl CmdInvalidArgs)"

definition pm_to_args :: "proxy_cluster_meta \<Rightarrow> string list" where
  "pm_to_args m =
     (let local = nm_to_args (pm_local m); peer = nm_to_args (pm_peer m); config = cc_to_args (pm_config m)
      in [pm_version m, show_u64 (pm_epoch m), flags_to_arg (pm_flags m), pm_cluster_name m] @ local @
         (if peer \<noteq> [] then PEER_PREFIX # peer else []) @
         (if config \<noteq> [] then CONFIG_PREFIX # config else []))"

definition pm_to_compressed_args :: "meta_lib \<Rightarrow> proxy_cluster_meta \<Rightarrow> meta_compress_error + string list" where
  "pm_to_compressed_args z m =
     (case gen_compressed_data z (pm_gen_data m) of
        Inl e \<Rightarrow> Inl e
      | Inr data \<Rightarrow> Inr [pm_version m, show_u64 (pm_epoch m), flags_to_arg (pm_flags m), data])"


subsection \<open>\<open>UMCTL SETREPL\<close>\<close>

record master_meta =
  ma_cluster_name :: cluster_name
  ma_node_address :: address
  ma_replicas :: "repl_peer list"

record replica_meta =
  re_cluster_name :: cluster_name
  re_node_address :: address
  re_masters :: "repl_peer list"

record replicator_meta =
  rt_epoch :: epoch
  rt_flags :: cluster_map_flags
  rt_masters :: "master_meta list"
  rt_replicas :: "replica_meta list"

definition encode_peers :: "repl_peer list \<Rightarrow> string list" where
  "encode_peers ps = concat (map (\<lambda>p. [rp_node_address p, rp_proxy_address p]) ps)"

definition encode_master :: "master_meta \<Rightarrow> string list" where
  "encode_master m =
     [''master'', ma_cluster_name m, ma_node_address m, show_nat (length (ma_replicas m))] @ encode_peers (ma_replicas m)"

definition encode_replica :: "replica_meta \<Rightarrow> string list" where
  "encode_replica r =
     [''replica'', re_cluster_name r, re_node_address r, show_nat (length (re_masters r))] @ encode_peers (re_masters r)"

definition encode_repl_meta :: "replicator_meta \<Rightarrow> string list" where
  "encode_repl_meta meta =
     [show_u64 (rt_epoch meta), flags_to_arg (rt_flags meta)] @ concat (map encode_master (rt_masters meta)) @
     concat (map encode_replica (rt_replicas meta))"

function parse_peers :: "usize \<Rightarrow> string list \<Rightarrow> (repl_peer list \<times> string list) option" where
  "parse_peers n it =
     (if n = 0 then Some ([], it)
      else case it of
        node_address # proxy_address # rest \<Rightarrow>
          map_option (\<lambda>(ps, rest'). (\<lparr>rp_node_address = node_address, rp_proxy_address = proxy_address\<rparr> # ps, rest'))
            (parse_peers (n - 1) rest)
      | _ \<Rightarrow> None)"
  by pat_completeness auto
termination by (relation "measure fst") auto

declare parse_peers.simps [simp del]

lemma parse_peers_length: "parse_peers n it = Some (ps, rest) \<Longrightarrow> length rest \<le> length it"
proof (induction n it arbitrary: ps rest rule: parse_peers.induct)
  case (1 n it)
  then show ?case
    by (fastforce simp: parse_peers.simps [of n it] split: list.splits if_splits)
qed

text \<open>The loop over the entries; a missing or malformed entry is an error with the code of its position.\<close>

function parse_repl_entries ::
  "master_meta list \<Rightarrow> replica_meta list \<Rightarrow> string list \<Rightarrow> cmd_parse_error + (master_meta list \<times> replica_meta list)" where
  "parse_repl_entries ms rs it =
     (case it of
        [] \<Rightarrow> Inr (ms, rs)
      | [_] \<Rightarrow> Inl CmdInvalidClusterName
      | role # name # it2 \<Rightarrow>
          (case cluster_name_try_from name of
             None \<Rightarrow> Inl CmdInvalidClusterName
           | Some cluster_name \<Rightarrow>
               (case it2 of
                  node_address # peer_num # it4 \<Rightarrow>
                    (case parse_u64 peer_num of
                       None \<Rightarrow> Inl CmdInvalidArgs
                     | Some n \<Rightarrow>
                         (case parse_peers n it4 of
                            None \<Rightarrow> Inl CmdInvalidArgs
                          | Some (peers, rest) \<Rightarrow>
                              if to_uppercase role = ''MASTER'' then
                                parse_repl_entries
                                  (ms @ [\<lparr>ma_cluster_name = cluster_name, ma_node_address = node_address, ma_replicas = peers\<rparr>])
                                  rs rest
                              else if to_uppercase role = ''REPLICA'' then
                                parse_repl_entries ms
                                  (rs @ [\<lparr>re_cluster_name = cluster_name, re_node_address = node_address, re_masters = peers\<rparr>])
                                  rest
                              else Inl CmdInvalidRole))
                | _ \<Rightarrow> Inl CmdInvalidArgs)))"
  by pat_completeness auto
termination
  by (relation "measure (\<lambda>(ms, rs, it). length it)") (auto dest!: parse_peers_length)

declare parse_repl_entries.simps [simp del]

definition parse_repl_args :: "string list \<Rightarrow> cmd_parse_error + replicator_meta" where
  "parse_repl_args it =
     (case it of
        [] \<Rightarrow> Inl CmdInvalidEpoch
      | epoch_str # it1 \<Rightarrow>
          (case parse_epoch epoch_str of
             None \<Rightarrow> Inl CmdInvalidEpoch
           | Some epoch \<Rightarrow>
               (case it1 of
                  [] \<Rightarrow> Inl CmdInvalidArgs
                | flags_str # it2 \<Rightarrow>
                    (case parse_repl_entries [] [] it2 of
                       Inl e \<Rightarrow> Inl e
                     | Inr (ms, rs) \<Rightarrow>
                         Inr \<lparr>rt_epoch = epoch, rt_flags = flags_from_arg flags_str, rt_masters = ms, rt_replicas = rs\<rparr>))))"

definition parse_repl_meta :: "resp_vec \<Rightarrow> cmd_parse_error + replicator_meta" where
  "parse_repl_meta resp =
     (case resp of Arr (ArrayOf arr) \<Rightarrow> parse_repl_args (control_args arr) | _ \<Rightarrow> Inl CmdInvalidArgs)"



subsection \<open>What the coordinator sends\<close>

definition filter_proxy_masters :: "proxy \<Rightarrow> proxy" where
  "filter_proxy_masters p = p\<lparr>px_nodes := filter (\<lambda>n. nd_role n = Master) (px_get_nodes p)\<rparr>"

definition EMPTY_CLUSTER_NAME :: cluster_name where
  "EMPTY_CLUSTER_NAME = []"

definition generate_proxy_meta :: "cluster_map_flags \<Rightarrow> proxy \<Rightarrow> proxy_cluster_meta" where
  "generate_proxy_meta flags p =
     pm_new (px_epoch p) flags
       (case px_cluster_name p of None \<Rightarrow> EMPTY_CLUSTER_NAME | Some name \<Rightarrow> name)
       (fold (\<lambda>n. hm_insert (nd_address n) (nd_slots n)) (px_get_nodes p) [])
       (fold (\<lambda>peer. hm_insert (pp_proxy_address peer) (pp_slots peer)) (px_peers p) [])
       (case px_cluster_config p of None \<Rightarrow> cluster_config_default | Some c \<Rightarrow> c)"

definition generate_proxy_meta_cmd_args ::
  "meta_lib \<Rightarrow> cluster_map_flags \<Rightarrow> proxy \<Rightarrow> meta_compress_error + string list" where
  "generate_proxy_meta_cmd_args z flags p =
     (let meta = generate_proxy_meta flags p
      in if cf_compress flags then pm_to_compressed_args z meta else Inr (pm_to_args meta))"

definition generate_repl_meta_cmd_args :: "proxy \<Rightarrow> cluster_map_flags \<Rightarrow> string list" where
  "generate_repl_meta_cmd_args p flags =
     (let free = map (\<lambda>a. \<lparr>ma_cluster_name = EMPTY_CLUSTER_NAME, ma_node_address = a, ma_replicas = []\<rparr>) (px_get_free_nodes p);
          name = (case px_cluster_name p of None \<Rightarrow> EMPTY_CLUSTER_NAME | Some name \<Rightarrow> name);
          masters = map (\<lambda>n. \<lparr>ma_cluster_name = name, ma_node_address = nd_address n, ma_replicas = rm_peers (nd_repl n)\<rparr>)
                      (filter (\<lambda>n. nd_role n = Master) (px_get_nodes p));
          replicas = map (\<lambda>n. \<lparr>re_cluster_name = name, re_node_address = nd_address n, re_masters = rm_peers (nd_repl n)\<rparr>)
                       (filter (\<lambda>n. nd_role n = Replica) (px_get_nodes p))
      in encode_repl_meta
           \<lparr>rt_epoch = px_epoch p, rt_flags = flags, rt_masters = free @ masters, rt_replicas = replicas\<rparr>)"

text \<open>The command for a proxy, and how its reply is taken: an old epoch is not an error.\<close>

definition meta_command :: "string \<Rightarrow> string list \<Rightarrow> string list" where
  "meta_command sub_command args = [''UMCTL'', sub_command] @ args"

definition send_meta_accepts :: "resp_vec \<Rightarrow> bool" where
  "send_meta_accepts reply = (case reply of Error err \<Rightarrow> err = ''OLD_EPOCH'' | _ \<Rightarrow> True)"


subsection \<open>Round trips\<close>

lemma hm_insert_fresh_key: "k \<notin> set (hm_keys m) \<Longrightarrow> hm_insert k v m = m @ [(k, v)]"
  unfolding hm_defs by (induction m) auto

lemma hm_or_insert_new: "k \<notin> set (hm_keys m) \<Longrightarrow> hm_or_insert k v m = m @ [(k, v)]"
  by (auto simp: hm_or_insert_def hm_contains_key_def hm_insert_fresh_key hm_keys_set)

lemma hm_modify_last: "k \<notin> set (hm_keys m) \<Longrightarrow> hm_modify k f (m @ [(k, v)]) = m @ [(k, f v)]"
  unfolding hm_defs by (induction m) auto

lemma nm_push_new: "k \<notin> set (hm_keys m) \<Longrightarrow> nm_push k sr m = m @ [(k, [sr])]"
  by (simp add: nm_push_def hm_or_insert_new hm_modify_last)

lemma nm_push_last: "k \<notin> set (hm_keys m) \<Longrightarrow> nm_push k sr (m @ [(k, srs)]) = m @ [(k, srs @ [sr])]"
proof -
  assume k: "k \<notin> set (hm_keys m)"
  then have "hm_get m k = None" by (simp add: hm_keys_set)
  then have "hm_or_insert k [] (m @ [(k, srs)]) = m @ [(k, srs)]"
    by (simp add: hm_or_insert_def hm_contains_key_def hm_get_def map_add_def)
  with k show ?thesis by (simp add: nm_push_def hm_modify_last)
qed

lemma parse_node_enc: "sr_inv sr \<Longrightarrow> parse_node (k # sr_into_strings sr @ rest) = Inr ((k, sr), rest)"
  by (simp add: parse_node_def sr_codec.dec_enc)

lemma nm_parse_node:
  "\<not> is_prefix_token k \<Longrightarrow> sr_inv sr \<Longrightarrow>
     nm_parse m (k # sr_into_strings sr @ rest) = nm_parse (nm_push k sr m) rest"
  by (subst nm_parse.simps) (simp add: parse_node_enc)

lemma nm_parse_slots:
  assumes "\<not> is_prefix_token k" "list_all sr_inv srs" "k \<notin> set (hm_keys m)"
  shows "nm_parse (m @ [(k, srs0)]) (concat (map (\<lambda>sr. k # sr_into_strings sr) srs) @ rest) =
    nm_parse (m @ [(k, srs0 @ srs)]) rest"
  using assms(2)
  by (induction srs arbitrary: srs0) (simp_all add: nm_parse_node [OF assms(1)] nm_push_last [OF assms(3)])

text \<open>Node maps that survive the text form: an address without slots is not sent, and an address must not look like a prefix.\<close>

definition node_map_ok :: "node_map \<Rightarrow> bool" where
  "node_map_ok m \<longleftrightarrow>
     hm_inv m \<and> (\<forall>(k, srs) \<in> set m. \<not> is_prefix_token k \<and> srs \<noteq> [] \<and> list_all sr_inv srs)"

lemma nm_parse_to_args:
  assumes "node_map_ok m" "set (hm_keys acc) \<inter> set (hm_keys m) = {}"
    "rest = [] \<or> is_prefix_token (hd rest)"
  shows "nm_parse acc (nm_to_args m @ rest) = Inr (acc @ m, rest)"
  using assms(1,2)
proof (induction m arbitrary: acc)
  case Nil
  then show ?case using assms(3) by (subst nm_parse.simps) (cases rest; simp add: nm_to_args_def)
next
  case (Cons e m)
  obtain k srs where e: "e = (k, srs)" by (cases e)
  with Cons.prems(1) obtain sr srs' where srs: "srs = sr # srs'" "\<not> is_prefix_token k" "sr_inv sr" "list_all sr_inv srs'"
    by (cases srs) (auto simp: node_map_ok_def)
  have k: "k \<notin> set (hm_keys acc)" "set (hm_keys (acc @ [(k, srs)])) \<inter> set (hm_keys m) = {}" "node_map_ok m"
    using Cons.prems by (auto simp: e hm_keys_def node_map_ok_def hm_inv_def)
  have "nm_parse acc (nm_to_args (e # m) @ rest) =
      nm_parse acc (k # sr_into_strings sr @ (concat (map (\<lambda>sr. k # sr_into_strings sr) srs') @ nm_to_args m @ rest))"
    by (simp add: nm_to_args_def e srs(1))
  also have "\<dots> = nm_parse (acc @ [(k, [sr])]) (concat (map (\<lambda>sr. k # sr_into_strings sr) srs') @ nm_to_args m @ rest)"
    by (simp only: nm_parse_node [OF srs(2,3)] nm_push_new [OF k(1)])
  also have "\<dots> = nm_parse (acc @ [(k, srs)]) (nm_to_args m @ rest)"
    by (simp only: nm_parse_slots [OF srs(2,4) k(1)]) (simp add: srs(1))
  also have "\<dots> = Inr (acc @ e # m, rest)" using Cons.IH [OF k(3,2)] by (simp add: e)
  finally show ?case .
qed

lemma prefix_tokens [simp]:
  "is_prefix_token PEER_PREFIX" "is_prefix_token CONFIG_PREFIX"
  "to_uppercase PEER_PREFIX = PEER_PREFIX" "to_uppercase CONFIG_PREFIX = CONFIG_PREFIX" "CONFIG_PREFIX \<noteq> PEER_PREFIX"
  by (simp_all add: is_prefix_token_def PEER_PREFIX_def CONFIG_PREFIX_def to_uppercase_def ascii_upper_def Let_def)

lemma nm_to_args_empty: "node_map_ok m \<Longrightarrow> nm_to_args m = [] \<longleftrightarrow> m = []"
  by (cases m) (auto simp: nm_to_args_def node_map_ok_def neq_Nil_conv)

lemma cc_parse_fields:
  assumes "cluster_config_set_fields d kvs = Inr c" "\<forall>kv \<in> set kvs. \<not> is_prefix_token (fst kv)"
  shows "cc_parse d (concat (map (\<lambda>(k, v). [k, v]) kvs)) = (Inr c, [])"
  using assms
proof (induction kvs arbitrary: d)
  case (Cons kv kvs)
  obtain k v where kv: "kv = (k, v)" by (cases kv)
  with Cons show ?case by (auto split: sum.splits)
qed simp

lemma config_fields_no_prefix: "\<forall>kv \<in> set (cluster_config_to_str_map c). \<not> is_prefix_token (fst kv)"
  by (simp add: cluster_config_to_str_map_def Let_def is_prefix_token_def PEER_PREFIX_def CONFIG_PREFIX_def
      to_uppercase_def ascii_upper_def)

lemma cc_parse_to_args:
  assumes "scan_count (cc_migration_config c) \<noteq> 0"
  shows "cc_parse d (cc_to_args c) = (Inr c, [])"
proof -
  have "config_agree {} d c" by (simp add: config_agree_def)
  from set_fields_agree [OF subset_refl assms this] obtain d' where
    d': "cluster_config_set_fields d (cluster_config_to_str_map c) = Inr d'"
    "config_agree (fst ` set (cluster_config_to_str_map c) \<union> {}) d' c" by blast
  then have "d' = c" by (intro config_agree_all) (simp add: hm_keys_def)
  with cc_parse_fields [OF d'(1) config_fields_no_prefix] show ?thesis unfolding cc_to_args_def by simp
qed

lemma flags_round_trip: "flags_from_arg (flags_to_arg f) = f"
  by (cases "cf_force f"; cases "cf_compress f"; cases f)
     (simp_all add: flags_to_arg_def flags_from_arg_def has_flags_def bytes_ascii_case_insensitive_eq_def
      byte_ascii_case_insensitive_eq_def Let_def)


lemma pm_parse_rest_to_args:
  assumes "node_map_ok peer" "scan_count (cc_migration_config c) \<noteq> 0"
  shows "pm_parse_rest local [] d ext
      ((if nm_to_args peer \<noteq> [] then PEER_PREFIX # nm_to_args peer else []) @ CONFIG_PREFIX # cc_to_args c) =
    Inr (peer, c, ext)"
proof -
  have config: "pm_parse_rest local p d ext (CONFIG_PREFIX # cc_to_args c) = Inr (p, c, ext)" for p
    by (simp add: pm_parse_rest.simps cc_parse_to_args [OF assms(2)])
  have "nm_parse [] (nm_to_args peer @ CONFIG_PREFIX # cc_to_args c) = Inr (peer, CONFIG_PREFIX # cc_to_args c)"
    using nm_parse_to_args [OF assms(1), of "[]" "CONFIG_PREFIX # cc_to_args c"] by (simp add: hm_keys_def)
  then show ?thesis
    using config nm_to_args_empty [OF assms(1)] by (auto simp: pm_parse_rest.simps(2) [of local "[]" d ext PEER_PREFIX])
qed

text \<open>Metadata that survives the text form of the command.\<close>

definition pm_ok :: "proxy_cluster_meta \<Rightarrow> bool" where
  "pm_ok m \<longleftrightarrow>
     pm_version m = SET_CLUSTER_API_VERSION \<and> valid_cluster_name (pm_cluster_name m) \<and>
     node_map_ok (pm_local m) \<and> node_map_ok (pm_peer m) \<and> scan_count (cc_migration_config (pm_config m)) \<noteq> 0"

lemma cc_to_args_not_Nil: "cc_to_args c \<noteq> []"
  by (simp add: cc_to_args_def cluster_config_to_str_map_def Let_def)

lemma pm_parse_to_args:
  assumes "pm_ok m" "\<not> cf_compress (pm_flags m)"
  shows "pm_parse z (pm_to_args m) = Inr (m, True)"
proof -
  define tail where "tail =
    (if nm_to_args (pm_peer m) \<noteq> [] then PEER_PREFIX # nm_to_args (pm_peer m) else []) @ CONFIG_PREFIX # cc_to_args (pm_config m)"
  have args: "pm_to_args m =
      pm_version m # show_u64 (pm_epoch m) # flags_to_arg (pm_flags m) # pm_cluster_name m # nm_to_args (pm_local m) @ tail"
    by (simp add: pm_to_args_def Let_def tail_def cc_to_args_not_Nil)
  have "nm_parse [] (nm_to_args (pm_local m) @ tail) = Inr (pm_local m, tail)"
    using nm_parse_to_args [of "pm_local m" "[]" tail] assms(1) by (simp add: pm_ok_def hm_keys_def tail_def)
  moreover have "pm_parse_rest (pm_local m) [] cluster_config_default True tail = Inr (pm_peer m, pm_config m, True)"
    unfolding tail_def using assms(1) by (intro pm_parse_rest_to_args) (simp_all add: pm_ok_def)
  ultimately show ?thesis
    using assms unfolding args pm_parse_def
    by (simp add: pm_ok_def valid_cluster_name_def flags_round_trip)
qed

definition meta_lib_ok :: "meta_lib \<Rightarrow> bool" where
  "meta_lib_ok z \<longleftrightarrow>
     (\<forall>d s. json_to_string z d = Some s \<longrightarrow> json_from_str z s = Some d) \<and>
     (\<forall>s b. gz_encode z s = Some b \<longrightarrow> gz_decode z b = Some s) \<and>
     (\<forall>b. base64_decode z (base64_encode z b) = Some b)"

lemma pm_parse_to_compressed_args:
  assumes "meta_lib_ok z" "pm_version m = SET_CLUSTER_API_VERSION" "cf_compress (pm_flags m)"
    "pm_to_compressed_args z m = Inr args"
  shows "pm_parse z args = Inr (m, True)"
proof -
  from assms(4) obtain s b where "json_to_string z (pm_gen_data m) = Some s" "gz_encode z s = Some b"
    and args: "args = [pm_version m, show_u64 (pm_epoch m), flags_to_arg (pm_flags m), base64_encode z b]"
    by (auto simp: pm_to_compressed_args_def gen_compressed_data_def split: sum.splits option.splits)
  then have "from_compressed_data z (base64_encode z b) = Inr (pm_gen_data m)"
    using assms(1) by (simp add: meta_lib_ok_def from_compressed_data_def)
  with assms(2,3) show ?thesis by (simp add: pm_parse_def args flags_round_trip pm_gen_data_def)
qed

lemma parse_peers_encode: "parse_peers (length ps) (encode_peers ps @ rest) = Some (ps, rest)"
proof (induction ps)
  case (Cons p ps)
  then show ?case by (subst parse_peers.simps) (simp add: encode_peers_def)
qed (subst parse_peers.simps, simp add: encode_peers_def)

definition master_meta_ok :: "master_meta \<Rightarrow> bool" where
  "master_meta_ok m \<longleftrightarrow> valid_cluster_name (ma_cluster_name m) \<and> length (ma_replicas m) < 2 ^ 64"

definition replica_meta_ok :: "replica_meta \<Rightarrow> bool" where
  "replica_meta_ok r \<longleftrightarrow> valid_cluster_name (re_cluster_name r) \<and> length (re_masters r) < 2 ^ 64"

lemma role_tokens: "to_uppercase ''master'' = ''MASTER''" "to_uppercase ''replica'' = ''REPLICA''"
  by code_simp+

lemma parse_entry_master:
  "master_meta_ok m \<Longrightarrow> parse_repl_entries ms rs (encode_master m @ rest) = parse_repl_entries (ms @ [m]) rs rest"
  by (cases m, subst parse_repl_entries.simps)
     (simp add: encode_master_def master_meta_ok_def valid_cluster_name_def parse_peers_encode role_tokens)

lemma parse_entry_replica:
  "replica_meta_ok r \<Longrightarrow> parse_repl_entries ms rs (encode_replica r @ rest) = parse_repl_entries ms (rs @ [r]) rest"
  by (cases r, subst parse_repl_entries.simps)
     (simp add: encode_replica_def replica_meta_ok_def valid_cluster_name_def parse_peers_encode role_tokens)

lemma parse_entries_masters:
  "list_all master_meta_ok ns \<Longrightarrow>
     parse_repl_entries ms rs (concat (map encode_master ns) @ rest) = parse_repl_entries (ms @ ns) rs rest"
  by (induction ns arbitrary: ms) (simp_all add: parse_entry_master)

lemma parse_entries_replicas:
  "list_all replica_meta_ok ns \<Longrightarrow>
     parse_repl_entries ms rs (concat (map encode_replica ns)) = Inr (ms, rs @ ns)"
proof (induction ns arbitrary: rs)
  case Nil
  then show ?case by (subst parse_repl_entries.simps) simp
qed (simp add: parse_entry_replica)

definition replicator_meta_ok :: "replicator_meta \<Rightarrow> bool" where
  "replicator_meta_ok t \<longleftrightarrow> list_all master_meta_ok (rt_masters t) \<and> list_all replica_meta_ok (rt_replicas t)"

lemma parse_repl_encode: "replicator_meta_ok t \<Longrightarrow> parse_repl_args (encode_repl_meta t) = Inr t"
  by (simp add: parse_repl_args_def encode_repl_meta_def replicator_meta_ok_def parse_entries_masters
      parse_entries_replicas flags_round_trip)



subsection \<open>Properties\<close>

lemma control_args_command:
  "list_all utf8_valid args \<Longrightarrow> control_args (map (\<lambda>s. Bulk (Str s)) (meta_command sub args)) = args"
proof -
  assume "list_all utf8_valid args"
  then have "List.map_filter (\<lambda>r. case r of Bulk (Str s) \<Rightarrow> from_utf8 s | _ \<Rightarrow> None) (map (\<lambda>s. Bulk (Str s)) args) = args"
    by (induction args) (auto simp: List.map_filter_def from_utf8_def)
  then show ?thesis by (simp add: control_args_def meta_command_def)
qed

lemma command_received:
  assumes "lib_ok x" "fits x (fst (command_to_buf [] command))"
  shows "\<exists>p. packet_decode x (fst (command_to_buf [] command)) = (Decoded (Some p), []) \<and>
    pkt_to_resp_vec p = Some (Arr (ArrayOf (map (\<lambda>s. Bulk (Str s)) command)))"
proof -
  define r where "r = Arr (ArrayOf (map (\<lambda>s. Bulk (Str s)) command))"
  have bytes: "fst (command_to_buf [] command) = resp_bytes r"
    by (simp add: command_to_buf_def resp_to_buf_def resp_bytes_def r_def)
  have "resp_wf r" by (simp add: r_def list_all_iff)
  from parse_indexed_whole [OF assms(1) this, of "[]"] assms(2)
  show ?thesis unfolding bytes r_def [symmetric] by (auto simp: packet_decode_def fits_def)
qed


definition example_meta :: proxy_cluster_meta where
  "example_meta =
     pm_new 7 \<lparr>cf_force = False, cf_compress = False\<rparr> ''db''
       [(''h1:6379'', [\<lparr>sr_range_list = [(0, 99)], sr_tag = TagNone\<rparr>])]
       [(''h2:5299'', [\<lparr>sr_range_list = [(100, 16383)], sr_tag = TagNone\<rparr>])] cluster_config_default"

definition example_meta_lib :: meta_lib where
  "example_meta_lib =
     \<lparr>json_to_string = (\<lambda>_. None), json_from_str = (\<lambda>_. None), gz_encode = Some, gz_decode = Some,
      base64_encode = id, base64_decode = Some\<rparr>"

definition example_repl_meta :: replicator_meta where
  "example_repl_meta =
     \<lparr>rt_epoch = 7, rt_flags = \<lparr>cf_force = False, cf_compress = False\<rparr>,
      rt_masters = [\<lparr>ma_cluster_name = ''db'', ma_node_address = ''h1:6379'',
                     ma_replicas = [\<lparr>rp_node_address = ''h2:6379'', rp_proxy_address = ''h2:5299''\<rparr>]\<rparr>],
      rt_replicas = []\<rparr>"

lemma command_size:
  assumes "length command < 10 ^ 20" "list_all (\<lambda>s. length s < 10 ^ 20) command"
  shows "length (fst (command_to_buf [] command)) \<le> 23 + sum_list (map (\<lambda>s. length s + 25) command)"
proof -
  have "length (concat (map (\<lambda>s. resp_bytes (Bulk (Str s))) command)) \<le> sum_list (map (\<lambda>s. length s + 25) command)"
    using assms(2)
  proof (induction command)
    case (Cons s command)
    then show ?case using length_show_nat_le [of "length s" 20] by (simp add: resp_bytes_simps)
  qed simp
  moreover have "fst (command_to_buf [] command) = resp_bytes (Arr (ArrayOf (map (\<lambda>s. Bulk (Str s)) command)))"
    by (simp only: command_to_buf_def resp_to_buf_def resp_bytes_def fst_conv append_Nil)
  ultimately show ?thesis using length_show_nat_le [OF assms(1)] by (simp add: resp_bytes_simps comp_def)
qed

lemma example_args:
  "pm_to_args example_meta =
     [''v2'', ''7'', ''NOFLAG'', ''db'', ''h1:6379'', ''1'', ''0-99'', ''PEER'', ''h2:5299'', ''1'', ''100-16383'', ''CONFIG'',
      ''compression_strategy'', ''disabled'', ''migration_max_migration_time'', ''10800'',
      ''migration_max_blocking_time'', ''10000'', ''migration_scan_interval'', ''500'', ''migration_scan_count'', ''16'']"
  "encode_repl_meta example_repl_meta =
     [''7'', ''NOFLAG'', ''master'', ''db'', ''h1:6379'', ''1'', ''h2:6379'', ''h2:5299'']"
  by (simp_all add: pm_to_args_def example_meta_def pm_new_def SET_CLUSTER_API_VERSION_def show_u64_def show_nat.simps
      flags_to_arg_def nm_to_args_def sr_into_strings_def rl_to_strings_def range_to_string_def PEER_PREFIX_def
      CONFIG_PREFIX_def cc_to_args_def cluster_config_to_str_map_def compression_to_str_def cluster_config_default_def
      migration_config_default_def encode_repl_meta_def example_repl_meta_def encode_master_def encode_peers_def
      char_of_def bit_Suc_0_iff Let_def)

lemma example_meta_ok: "pm_ok example_meta" "replicator_meta_ok example_repl_meta"
  "list_all utf8_valid (pm_to_args example_meta)" "list_all utf8_valid (encode_repl_meta example_repl_meta)"
  "fits reference_lib (fst (command_to_buf [] (meta_command ''SETCLUSTER'' (pm_to_args example_meta))))"
  "fits reference_lib (fst (command_to_buf [] (meta_command ''SETREPL'' (encode_repl_meta example_repl_meta))))"
proof -
  show "pm_ok example_meta"
    by (simp add: pm_ok_def example_meta_def pm_new_def valid_cluster_name_def cluster_name_try_from_def
        is_ascii_alphanumeric_def CLUSTER_NAME_MAX_LENGTH_def node_map_ok_def hm_inv_def hm_keys_def is_prefix_token_def
        PEER_PREFIX_def CONFIG_PREFIX_def to_uppercase_def ascii_upper_def sr_inv_def rl_inv_def rl_canon_Cons rl_bounded_def
        cluster_config_default_def migration_config_default_def Let_def)
  show "replicator_meta_ok example_repl_meta"
    by (simp add: replicator_meta_ok_def example_repl_meta_def master_meta_ok_def valid_cluster_name_def
        cluster_name_try_from_def is_ascii_alphanumeric_def CLUSTER_NAME_MAX_LENGTH_def)
  show "list_all utf8_valid (pm_to_args example_meta)" "list_all utf8_valid (encode_repl_meta example_repl_meta)"
    unfolding example_args by (simp_all add: byte_in_def)
  have "length (fst (command_to_buf [] (meta_command ''SETCLUSTER'' (pm_to_args example_meta)))) < 1000"
    by (rule le_less_trans [OF command_size]) (simp_all add: example_args meta_command_def)
  moreover have "length (fst (command_to_buf [] (meta_command ''SETREPL'' (encode_repl_meta example_repl_meta)))) < 1000"
    by (rule le_less_trans [OF command_size]) (simp_all add: example_args meta_command_def)
  ultimately show "fits reference_lib (fst (command_to_buf [] (meta_command ''SETCLUSTER'' (pm_to_args example_meta))))"
    "fits reference_lib (fst (command_to_buf [] (meta_command ''SETREPL'' (encode_repl_meta example_repl_meta))))"
    unfolding fits_def by (simp_all add: reference_lib_def)
qed



text \<open>The arguments up to the configuration.\<close>

definition core_args :: "proxy_cluster_meta \<Rightarrow> string list" where
  "core_args m =
     [pm_version m, show_u64 (pm_epoch m), flags_to_arg (pm_flags m), pm_cluster_name m] @
     nm_to_args (pm_local m) @ PEER_PREFIX # nm_to_args (pm_peer m) @ [CONFIG_PREFIX]"

lemma pm_parse_core:
  assumes "pm_ok m" "\<not> cf_compress (pm_flags m)"
  shows "pm_parse z (core_args m @ it) =
    (case pm_parse_rest (pm_local m) (pm_peer m) cluster_config_default True (CONFIG_PREFIX # it) of
       Inl e \<Rightarrow> Inl e
     | Inr (peer, config, ext) \<Rightarrow> Inr (m\<lparr>pm_peer := peer, pm_config := config\<rparr>, ext))"
proof -
  define tail where "tail = PEER_PREFIX # nm_to_args (pm_peer m) @ CONFIG_PREFIX # it"
  have "nm_parse [] (nm_to_args (pm_local m) @ tail) = Inr (pm_local m, tail)"
    using nm_parse_to_args [of "pm_local m" "[]" tail] assms(1) by (simp add: pm_ok_def hm_keys_def tail_def)
  moreover have "nm_parse [] (nm_to_args (pm_peer m) @ CONFIG_PREFIX # it) = Inr (pm_peer m, CONFIG_PREFIX # it)"
    using nm_parse_to_args [of "pm_peer m" "[]" "CONFIG_PREFIX # it"] assms(1) by (simp add: pm_ok_def hm_keys_def)
  then have "pm_parse_rest (pm_local m) [] cluster_config_default True tail =
      pm_parse_rest (pm_local m) (pm_peer m) cluster_config_default True (CONFIG_PREFIX # it)"
    by (simp add: tail_def pm_parse_rest.simps(2) [of _ _ _ _ PEER_PREFIX])
  ultimately show ?thesis
    using assms unfolding pm_parse_def core_args_def tail_def
    by (simp add: pm_ok_def valid_cluster_name_def flags_round_trip split: sum.splits prod.splits)
qed



end
