(* ===== verification/UM_Route.thy ===== *)
theory UM_Route
  imports UM_Proto UM_Store
begin

section \<open>Routing of commands by slot\<close>

text \<open>
  Model of \<open>proxy/slot.rs\<close>, \<open>proxy/command.rs\<close>, \<open>proxy/cluster.rs\<close> and of the
  slot functions of \<open>common/utils.rs\<close>: how a proxy classifies a command and finds its
  key and slot, how it builds its table of slots from the metadata, to which node or proxy it
  sends a command, and what it answers to CLUSTER NODES and CLUSTER SLOTS.

  The checksums of the crates \<open>crc16\<close> and \<open>crc64\<close> are the fields of \<open>hash_lib\<close>; no
  property needs more of them than that they are functions. The connections to the nodes
  are not modelled: what a sender answers is an argument of the operations that send.
\<close>


subsection \<open>Slots of keys\<close>

record hash_lib =
  crc16_xmodem :: "string \<Rightarrow> 16 word"
  crc16_arc :: "string \<Rightarrow> 16 word"
  crc64_hash :: "string \<Rightarrow> 64 word"

definition get_hash_tag :: "string \<Rightarrow> string" where
  "get_hash_tag key =
     (case find_position (\<lambda>x. x = CHR ''{'') key of
        None \<Rightarrow> key
      | Some begin' \<Rightarrow>
          (case find_position (\<lambda>x. x = CHR ''}'') (drop (begin' + 1) key) of
             None \<Rightarrow> key
           | Some end_offset \<Rightarrow> if end_offset = 0 then key else take end_offset (drop (begin' + 1) key)))"

definition generate_slot :: "hash_lib \<Rightarrow> string \<Rightarrow> usize" where
  "generate_slot h key = unat (crc16_xmodem h (get_hash_tag key)) mod SLOT_NUM"

definition generate_lock_slot :: "hash_lib \<Rightarrow> string \<Rightarrow> usize" where
  "generate_lock_slot h key = unat (crc16_arc h key) mod SLOT_NUM"

fun same_slot :: "hash_lib \<Rightarrow> string list \<Rightarrow> bool" where
  "same_slot h [] = False"
| "same_slot h (k # ks) = list_all (\<lambda>k'. generate_slot h k' = generate_slot h k) ks"

definition gen_moved :: "usize \<Rightarrow> address \<Rightarrow> string" where
  "gen_moved slot addr = ''MOVED '' @ show_nat slot @ '' '' @ addr"

lemma generate_slot_less [simp]: "generate_slot h key < SLOT_NUM"
  by (simp add: generate_slot_def SLOT_NUM_def)

lemma generate_lock_slot_less [simp]: "generate_lock_slot h key < SLOT_NUM"
  by (simp add: generate_lock_slot_def SLOT_NUM_def)

lemma get_hash_tag_braces:
  assumes "CHR ''{'' \<notin> set pre" "CHR ''}'' \<notin> set tag" "tag \<noteq> []"
  shows "get_hash_tag (pre @ CHR ''{'' # tag @ CHR ''}'' # post) = tag"
proof -
  have pos: "find_position P (xs @ y # ys) = Some (length xs)" if "\<forall>x \<in> set xs. \<not> P x" "P y"
    for P :: "char \<Rightarrow> bool" and xs y ys
    using that by (induction xs) auto
  have "find_position (\<lambda>x. x = CHR ''{'') (pre @ CHR ''{'' # tag @ CHR ''}'' # post) = Some (length pre)"
    using assms(1) by (intro pos) auto
  moreover have "find_position (\<lambda>x. x = CHR ''}'') (tag @ CHR ''}'' # post) = Some (length tag)"
    using assms(2) by (intro pos) auto
  ultimately show ?thesis using assms(3) by (simp add: get_hash_tag_def)
qed


subsection \<open>Classification of commands\<close>

datatype cmd_type =
  Ping | Info | Auth | Quit | Echo | Select | OthersCmd | InvalidCmd | UmCtl | UmForward | UmSync
| ClusterCmd | ConfigCmd | CommandCmd | Asking | Hello

datatype (plugins only: size) data_cmd_type =
  Append | Bitcount | Bitfield | Bitop | Bitpos | Decr | Decrby | Get | Getbit | Getrange | Getset
| Incr | Incrby | Incrbyfloat | Mget | Mset | Msetnx | Psetex | SetCmd | Setbit | Setex | Setnx
| Setrange | Strlen | Eval | Evalsha | Del | Exists | Blpop | Brpop | Brpoplpush | Lpop | Rpop
| Rpoplpush | Lrem | Ltrim | Hdel | Smove | Spop | Srem | Zpopmax | Zpopmin | Zrem
| Zremrangebylex | Zremrangebyrank | Zremrangebyscore | Bzpopmin | Bzpopmax | Expire | Expireat
| Pexpire | Pexpireat | Move | Rename | Renamenx | Unlink | OthersData

definition MAX_COMMAND_NAME_LENGTH :: usize where
  "MAX_COMMAND_NAME_LENGTH = 64"

text \<open>
  Both \<open>from_cmd_name\<close> copy the name in upper case to an array of fixed capacity and give
  up when it is full; the \<open>match\<close> on the name is a lookup in a table.
\<close>

definition upper_cmd_name :: "string \<Rightarrow> string option" where
  "upper_cmd_name cmd_name =
     (if length cmd_name \<le> MAX_COMMAND_NAME_LENGTH then Some (map byte_to_uppercase cmd_name) else None)"

definition cmd_type_table :: "(string \<times> cmd_type) list" where
  "cmd_type_table =
     [(''PING'', Ping), (''INFO'', Info), (''AUTH'', Auth), (''QUIT'', Quit), (''ECHO'', Echo),
      (''SELECT'', Select), (''UMCTL'', UmCtl), (''UMFORWARD'', UmForward), (''UMSYNC'', UmSync),
      (''CLUSTER'', ClusterCmd), (''CONFIG'', ConfigCmd), (''COMMAND'', CommandCmd),
      (''ASKING'', Asking), (''HELLO'', Hello)]"

definition cmd_type_from_cmd_name :: "string \<Rightarrow> cmd_type" where
  "cmd_type_from_cmd_name cmd_name =
     (case upper_cmd_name cmd_name of
        None \<Rightarrow> OthersCmd
      | Some name \<Rightarrow> (case map_of cmd_type_table name of None \<Rightarrow> OthersCmd | Some t \<Rightarrow> t))"

definition data_cmd_type_table :: "(string \<times> data_cmd_type) list" where
  "data_cmd_type_table =
     [(''APPEND'', Append), (''BITCOUNT'', Bitcount), (''BITFIELD'', Bitfield), (''BITOP'', Bitop),
      (''BITPOS'', Bitpos), (''DECR'', Decr), (''DECRBY'', Decrby), (''GET'', Get),
      (''GETBIT'', Getbit), (''GETRANGE'', Getrange), (''GETSET'', Getset), (''INCR'', Incr),
      (''INCRBY'', Incrby), (''INCRBYFLOAT'', Incrbyfloat), (''MGET'', Mget), (''MSET'', Mset),
      (''MSETNX'', Msetnx), (''PSETEX'', Psetex), (''SET'', SetCmd), (''SETBIT'', Setbit),
      (''SETEX'', Setex), (''SETNX'', Setnx), (''SETRANGE'', Setrange), (''STRLEN'', Strlen),
      (''EVAL'', Eval), (''EVALSHA'', Evalsha), (''DEL'', Del), (''EXISTS'', Exists),
      (''BLPOP'', Blpop), (''BRPOP'', Brpop), (''BRPOPLPUSH'', Brpoplpush), (''EXPIRE'', Expire),
      (''EXPIREAT'', Expireat), (''PEXPIRE'', Pexpire), (''PEXPIREAT'', Pexpireat),
      (''HDEL'', Hdel), (''LPOP'', Lpop), (''RPOP'', Rpop), (''RPOPLPUSH'', Rpoplpush),
      (''LREM'', Lrem), (''LTRIM'', Ltrim), (''MOVE'', Move), (''RENAME'', Rename),
      (''RENAMENX'', Renamenx), (''SMOVE'', Smove), (''SPOP'', Spop), (''SREM'', Srem),
      (''UNLINK'', Unlink), (''ZPOPMAX'', Zpopmax), (''ZPOPMIN'', Zpopmin),
      (''BZPOPMAX'', Bzpopmax), (''BZPOPMIN'', Bzpopmin), (''ZREM'', Zrem),
      (''ZREMRANGEBYLEX'', Zremrangebylex), (''ZREMRANGEBYRANK'', Zremrangebyrank),
      (''ZREMRANGEBYSCORE'', Zremrangebyscore)]"

definition data_cmd_type_from_cmd_name :: "string \<Rightarrow> data_cmd_type" where
  "data_cmd_type_from_cmd_name cmd_name =
     (case upper_cmd_name cmd_name of
        None \<Rightarrow> OthersData
      | Some name \<Rightarrow> (case map_of data_cmd_type_table name of None \<Rightarrow> OthersData | Some t \<Rightarrow> t))"

definition is_blocking_cmd :: "data_cmd_type \<Rightarrow> bool" where
  "is_blocking_cmd t = (t \<in> {Bzpopmin, Bzpopmax, Blpop, Brpop, Brpoplpush})"

definition requires_blocking_migration :: "data_cmd_type \<Rightarrow> bool" where
  "requires_blocking_migration t =
     (t \<in> {Del, Eval, Evalsha, Expire, Expireat, Hdel, Lpop, Rpop, Rpoplpush, Lrem, Ltrim, Move,
           Pexpire, Pexpireat, Rename, Renamenx, Smove, Spop, Srem, Unlink, Zpopmax, Zpopmin, Zrem,
           Zremrangebylex, Zremrangebyrank, Zremrangebyscore})"

text \<open>The outer None is a panic of the packet, as in the readers of packets.\<close>

definition cmd_type_from_packet :: "resp_packet \<Rightarrow> cmd_type option" where
  "cmd_type_from_packet packet =
     map_option (\<lambda>cmd_name. case cmd_name of None \<Rightarrow> InvalidCmd | Some n \<Rightarrow> cmd_type_from_cmd_name n)
       (pkt_get_array_element packet 0)"

definition data_cmd_type_from_packet :: "resp_packet \<Rightarrow> data_cmd_type option" where
  "data_cmd_type_from_packet packet =
     map_option (\<lambda>cmd_name. case cmd_name of None \<Rightarrow> OthersData | Some n \<Rightarrow> data_cmd_type_from_cmd_name n)
       (pkt_get_array_element packet 0)"

record command_info =
  ci_cmd_type :: cmd_type
  ci_data_cmd_type :: data_cmd_type
  ci_slot :: "usize option"

definition ci_get_key :: "data_cmd_type \<Rightarrow> resp_packet \<Rightarrow> string option option" where
  "ci_get_key t packet = pkt_get_array_element packet (if t \<in> {Eval, Evalsha} then 3 else 1)"

definition ci_new :: "hash_lib \<Rightarrow> resp_packet \<Rightarrow> command_info option" where
  "ci_new h packet =
     (case (cmd_type_from_packet packet, data_cmd_type_from_packet packet) of
        (Some cmd_type, Some data_cmd_type) \<Rightarrow>
          map_option (\<lambda>key. \<lparr>ci_cmd_type = cmd_type, ci_data_cmd_type = data_cmd_type,
                             ci_slot = map_option (generate_slot h) key\<rparr>)
            (ci_get_key data_cmd_type packet)
      | _ \<Rightarrow> None)"

record command =
  cm_request :: resp_packet
  cm_info :: command_info

definition command_new :: "hash_lib \<Rightarrow> resp_packet \<Rightarrow> command option" where
  "command_new h request = map_option (\<lambda>info. \<lparr>cm_request = request, cm_info = info\<rparr>) (ci_new h request)"

definition cm_get_key :: "command \<Rightarrow> string option option" where
  "cm_get_key c = ci_get_key (ci_data_cmd_type (cm_info c)) (cm_request c)"

definition cm_extract_inner_cmd :: "hash_lib \<Rightarrow> command \<Rightarrow> usize \<Rightarrow> (usize option \<times> command) option" where
  "cm_extract_inner_cmd h c removed_num =
     (case left_trim_cmd (cm_request c) removed_num of
        None \<Rightarrow> None
      | Some (None, request) \<Rightarrow> Some (None, c\<lparr>cm_request := request\<rparr>)
      | Some (Some remaining, request) \<Rightarrow>
          map_option (\<lambda>info. (Some remaining, \<lparr>cm_request = request, cm_info = info\<rparr>)) (ci_new h request))"

definition cm_wrap_cmd :: "hash_lib \<Rightarrow> command \<Rightarrow> string list \<Rightarrow> (bool \<times> command) option" where
  "cm_wrap_cmd h c preceding_elements =
     (case wrap_cmd (cm_request c) preceding_elements of
        None \<Rightarrow> None
      | Some (False, request) \<Rightarrow> Some (False, c\<lparr>cm_request := request\<rparr>)
      | Some (True, request) \<Rightarrow>
          map_option (\<lambda>info. (True, \<lparr>cm_request = request, cm_info = info\<rparr>)) (ci_new h request))"

text \<open>\<open>to_safe_str_vec\<close>: the strings of the command, or nothing when one is missing.\<close>

primrec safe_strs :: "resp_packet \<Rightarrow> usize list \<Rightarrow> string list option option" where
  "safe_strs packet [] = Some (Some [])"
| "safe_strs packet (i # is) =
     (case pkt_get_array_element packet i of
        None \<Rightarrow> None
      | Some None \<Rightarrow> Some None
      | Some (Some s) \<Rightarrow> map_option (map_option (Cons s)) (safe_strs packet is))"

definition cm_to_safe_str_vec :: "command \<Rightarrow> string list option option" where
  "cm_to_safe_str_vec c =
     (case pkt_get_array_len (cm_request c) of
        None \<Rightarrow> Some None
      | Some l \<Rightarrow> safe_strs (cm_request c) [0 ..< l])"


subsection \<open>The table of slots\<close>

record slot_map_data =
  sm_slot_arr :: "usize option list"
  sm_addrs :: "address list"

text \<open>One range of the address with the given index; the inner loop stops at \<open>SLOT_NUM\<close>.\<close>

definition sm_set_range :: "usize \<Rightarrow> range \<Rightarrow> usize option list \<Rightarrow> usize option list" where
  "sm_set_range index r slot_arr =
     (if fst r > snd r then slot_arr
      else fold (\<lambda>s arr. arr[s := Some index]) [fst r ..< min (Suc (snd r)) SLOT_NUM] slot_arr)"

definition sm_add_address :: "address \<times> range list \<Rightarrow> slot_map_data \<Rightarrow> slot_map_data" where
  "sm_add_address e d =
     (let addrs = sm_addrs d @ [fst e]
      in \<lparr>sm_slot_arr = fold (sm_set_range (length addrs - 1)) (snd e) (sm_slot_arr d), sm_addrs = addrs\<rparr>)"

definition slot_map_data_new :: "(address, range list) hashmap \<Rightarrow> slot_map_data" where
  "slot_map_data_new slot_map =
     fold sm_add_address slot_map \<lparr>sm_slot_arr = replicate SLOT_NUM None, sm_addrs = []\<rparr>"

definition slot_map_get :: "slot_map_data \<Rightarrow> usize \<Rightarrow> address option" where
  "slot_map_get d slot =
     (case list_get (sm_slot_arr d) slot of
        Some (Some addr_index) \<Rightarrow> list_get (sm_addrs d) addr_index
      | _ \<Rightarrow> None)"

definition slot_map_from_ranges :: "node_map \<Rightarrow> slot_map_data" where
  "slot_map_from_ranges slot_map =
     slot_map_data_new
       (fold (\<lambda>(addr, slot_ranges). hm_insert addr (concat (map sr_range_list slot_ranges))) slot_map [])"


subsection \<open>The nodes of a proxy and its peers\<close>

text \<open>A hint for the queue of commands blocked during a migration (\<open>proxy/blocking.rs\<close>).\<close>

datatype blocking_hint = NotBlocking | NotBlockingInMigration "32 word" | Blocking

text \<open>
  What happens to a command: it is answered, handed to the sender of a node of this proxy,
  handed to the sender of another proxy, handed to an importing task, or dropped, which
  answers it with an error. A sender takes a command, fails with an error of its own, or
  gives it back to be tried again.
\<close>

datatype sender_result = SenderOk | SenderErr | SenderRetry

datatype effect =
  Reply resp_vec
| ToNode address blocking_hint sender_result
| ToPeer address resp_packet sender_result
| ToImporter sender_result
| DropTask

datatype send_error =
  MissingKey
| ClusterNotFound blocking_hint
| SlotNotFound blocking_hint
| SlotNotCovered
| Backend
| MigrationError
| ActiveRedirection usize address
| Retry

text \<open>The effects of a call, and its error if it returns one.\<close>

type_synonym send_outcome = "effect list \<times> send_error option"

definition from_sender_result :: "sender_result \<Rightarrow> send_error option" where
  "from_sender_result r = (case r of SenderOk \<Rightarrow> None | SenderErr \<Rightarrow> Some Backend | SenderRetry \<Rightarrow> Some Retry)"

record local_cluster =
  lc_cluster_name :: cluster_name
  lc_epoch :: epoch
  lc_nodes :: "address list"
  lc_slot_map :: slot_map_data
  lc_slot_ranges :: node_map
  lc_config :: cluster_config

record remote_cluster =
  rc_cluster_name :: cluster_name
  rc_epoch :: epoch
  rc_slot_map :: slot_map_data
  rc_slot_ranges :: node_map
  rc_remote_nodes :: "address list option"

record cluster_backend_map =
  cb_cluster_name :: cluster_name
  cb_local :: local_cluster
  cb_remote :: remote_cluster

definition local_from_slot_map :: "cluster_name \<Rightarrow> epoch \<Rightarrow> node_map \<Rightarrow> cluster_config \<Rightarrow> local_cluster" where
  "local_from_slot_map name epoch slot_map config =
     \<lparr>lc_cluster_name = name, lc_epoch = epoch, lc_nodes = hm_keys slot_map,
      lc_slot_map = slot_map_from_ranges slot_map, lc_slot_ranges = slot_map, lc_config = config\<rparr>"

definition remote_from_slot_map :: "cluster_name \<Rightarrow> epoch \<Rightarrow> node_map \<Rightarrow> bool \<Rightarrow> remote_cluster" where
  "remote_from_slot_map name epoch slot_map active_redirection =
     \<lparr>rc_cluster_name = name, rc_epoch = epoch, rc_slot_map = slot_map_from_ranges slot_map,
      rc_slot_ranges = slot_map,
      rc_remote_nodes = (if active_redirection then Some (hm_keys slot_map) else None)\<rparr>"

definition from_cluster_map :: "proxy_cluster_meta \<Rightarrow> bool \<Rightarrow> cluster_backend_map" where
  "from_cluster_map cluster_meta active_redirection =
     \<lparr>cb_cluster_name = pm_cluster_name cluster_meta,
      cb_local = local_from_slot_map (pm_cluster_name cluster_meta) (pm_epoch cluster_meta)
                   (pm_local cluster_meta) (pm_config cluster_meta),
      cb_remote = remote_from_slot_map (pm_cluster_name cluster_meta) (pm_epoch cluster_meta)
                    (pm_peer cluster_meta) active_redirection\<rparr>"

text \<open>The map of a proxy before its first metadata.\<close>

definition cluster_backend_map_default :: cluster_backend_map where
  "cluster_backend_map_default =
     \<lparr>cb_cluster_name = EMPTY_CLUSTER_NAME,
      cb_local = local_from_slot_map EMPTY_CLUSTER_NAME 0 [] cluster_config_default,
      cb_remote = remote_from_slot_map EMPTY_CLUSTER_NAME 0 [] False\<rparr>"

text \<open>
  The senders: \<open>node_sender a hint\<close> is the answer of the sender of the local node \<open>a\<close>,
  \<open>peer_sender a\<close> that of the sender of the proxy \<open>a\<close>.
\<close>

definition local_send ::
  "(address \<Rightarrow> blocking_hint \<Rightarrow> sender_result) \<Rightarrow> local_cluster \<Rightarrow> usize option \<Rightarrow> blocking_hint \<Rightarrow> send_outcome" where
  "local_send node_sender lc task_slot hint =
     (if lc_cluster_name lc = [] then ([], Some (ClusterNotFound hint))
      else case task_slot of
        None \<Rightarrow> ([Reply (Error ''missing key'')], Some MissingKey)
      | Some slot \<Rightarrow>
          (case slot_map_get (lc_slot_map lc) slot of
             None \<Rightarrow> ([], Some (SlotNotFound hint))
           | Some addr \<Rightarrow>
               if List.member (lc_nodes lc) addr
               then let r = node_sender addr hint in ([ToNode addr hint r], from_sender_result r)
               else ([], Some (SlotNotFound hint))))"

definition send_remote :: "remote_cluster \<Rightarrow> usize option \<Rightarrow> blocking_hint \<Rightarrow> send_outcome" where
  "send_remote rc task_slot hint =
     (if rc_cluster_name rc = [] then ([], Some (ClusterNotFound hint))
      else case task_slot of
        None \<Rightarrow> ([Reply (Error ''missing key'')], Some MissingKey)
      | Some slot \<Rightarrow>
          (case slot_map_get (rc_slot_map rc) slot of
             Some addr \<Rightarrow>
               if rc_remote_nodes rc \<noteq> None then ([], Some (ActiveRedirection slot addr))
               else ([Reply (Error (gen_moved slot addr))], None)
           | None \<Rightarrow> ([Reply (Error (''slot not covered '' @ show_nat slot))], Some SlotNotCovered)))"

definition send_remote_directly ::
  "(address \<Rightarrow> sender_result) \<Rightarrow> remote_cluster \<Rightarrow> resp_packet \<Rightarrow> usize \<Rightarrow> address \<Rightarrow> send_outcome" where
  "send_remote_directly peer_sender rc request slot addr =
     (case rc_remote_nodes rc of
        Some nodes \<Rightarrow>
          if List.member nodes addr then let r = peer_sender addr in ([ToPeer addr request r], from_sender_result r)
          else ([], Some (SlotNotFound NotBlocking))
      | None \<Rightarrow> ([Reply (Error (gen_moved slot addr))], None))"

definition cluster_send ::
  "(address \<Rightarrow> blocking_hint \<Rightarrow> sender_result) \<Rightarrow> cluster_backend_map \<Rightarrow> usize option \<Rightarrow> blocking_hint \<Rightarrow> send_outcome" where
  "cluster_send node_sender cb task_slot hint =
     (case local_send node_sender (cb_local cb) task_slot hint of
        (effs, Some (SlotNotFound hint')) \<Rightarrow>
          (let (effs', res) = send_remote (cb_remote cb) task_slot hint' in (effs @ effs', res))
      | others \<Rightarrow> others)"


subsection \<open>CLUSTER NODES and CLUSTER SLOTS\<close>

datatype migration_state = PreCheck | PreBlocking | PreSwitch | Scanning | FinalSwitch | SwitchCommitted

datatype cluster_nodes_version = V1 | V2

type_synonym migration_states = "(range_list, migration_state) hashmap"

definition CLUSTER_NODES_CPORT :: usize where
  "CLUSTER_NODES_CPORT = 5299"

definition should_ignore_slots :: "migration_states \<Rightarrow> slot_range \<Rightarrow> bool" where
  "should_ignore_slots states r =
     (case sr_tag r of
        Migrating _ \<Rightarrow> hm_get states (sr_range_list r) \<noteq> Some PreCheck
      | Importing _ \<Rightarrow> hm_get states (sr_range_list r) = Some PreCheck
      | TagNone \<Rightarrow> False)"

text \<open>Formatting with a fill character to a minimal width, and \<open>truncate\<close>.\<close>

definition fill_right :: "nat \<Rightarrow> string \<Rightarrow> string" where
  "fill_right w s = s @ replicate (w - length s) (CHR ''_'')"

definition hex_digit :: "nat \<Rightarrow> char" where
  "hex_digit d = char_of (if d < 10 then 48 + d else 87 + d)"

fun show_hex :: "nat \<Rightarrow> string" where
  "show_hex n = (if n < 16 then [hex_digit n] else show_hex (n div 16) @ [hex_digit (n mod 16)])"

declare show_hex.simps [simp del]

definition gen_cluster_name_seg :: "cluster_name \<Rightarrow> string" where
  "gen_cluster_name_seg name = take 20 (fill_right 20 name)"

definition gen_node_id :: "hash_lib \<Rightarrow> string \<Rightarrow> address \<Rightarrow> string" where
  "gen_node_id h cluster_name_seg addr =
     cluster_name_seg @ take 20 (fill_right 20 (show_hex (unat (crc64_hash h addr))))"

fun join :: "string \<Rightarrow> string list \<Rightarrow> string" where
  "join sep [] = []"
| "join sep [s] = s"
| "join sep (s # t # ts) = s @ sep @ join sep (t # ts)"

definition range_text :: "range \<Rightarrow> string" where
  "range_text r = (if fst r = snd r then show_nat (fst r) else show_nat (fst r) @ ''-'' @ show_nat (snd r))"

definition cluster_nodes_line ::
  "hash_lib \<Rightarrow> string \<Rightarrow> epoch \<Rightarrow> migration_states \<Rightarrow> bool \<Rightarrow> cluster_nodes_version \<Rightarrow> address \<times> slot_range list \<Rightarrow> string" where
  "cluster_nodes_line h name_seg epoch states local nodes_version e =
     (let (addr, ranges) = e;
          address = (case nodes_version of V1 \<Rightarrow> addr | V2 \<Rightarrow> addr @ ''@'' @ show_nat CLUSTER_NODES_CPORT);
          slot_range = join '' '' (concat (map (map range_text \<circ> sr_range_list)
                         (filter (\<lambda>r. \<not> should_ignore_slots states r) ranges)));
          slot_range_str = (if slot_range = [] then [] else '' '' @ slot_range);
          flags = (if local then ''myself,master'' else ''master'')
      in gen_node_id h name_seg addr @ '' '' @ address @ '' '' @ flags @ '' - 0 0 '' @ show_u64 epoch
         @ '' connected'' @ slot_range_str @ [char_of (10::nat)])"

definition gen_cluster_nodes_helper ::
  "hash_lib \<Rightarrow> cluster_name \<Rightarrow> epoch \<Rightarrow> node_map \<Rightarrow> migration_states \<Rightarrow> bool \<Rightarrow> cluster_nodes_version \<Rightarrow> string" where
  "gen_cluster_nodes_helper h name epoch slot_ranges states local nodes_version =
     concat (map (cluster_nodes_line h (gen_cluster_name_seg name) epoch states local nodes_version) slot_ranges)"

text \<open>The ranges of all local nodes, shown under the address of the proxy.\<close>

definition announced_slot_ranges :: "address \<Rightarrow> local_cluster \<Rightarrow> node_map" where
  "announced_slot_ranges service_address lc = [(service_address, concat (hm_values (lc_slot_ranges lc)))]"

definition gen_cluster_nodes ::
  "hash_lib \<Rightarrow> cluster_backend_map \<Rightarrow> address \<Rightarrow> migration_states \<Rightarrow> cluster_nodes_version \<Rightarrow> string" where
  "gen_cluster_nodes h cb service_address states nodes_version =
     gen_cluster_nodes_helper h (lc_cluster_name (cb_local cb)) (lc_epoch (cb_local cb))
       (announced_slot_ranges service_address (cb_local cb)) states True nodes_version
     @ gen_cluster_nodes_helper h (rc_cluster_name (cb_remote cb)) (rc_epoch (cb_remote cb))
         (rc_slot_ranges (cb_remote cb)) states False nodes_version"

definition cluster_slots_element :: "string \<Rightarrow> string \<Rightarrow> string \<Rightarrow> range \<Rightarrow> resp_vec" where
  "cluster_slots_element host port node_id r =
     Arr (ArrayOf [Integer (show_nat (fst r)), Integer (show_nat (snd r)),
       Arr (ArrayOf [Bulk (Str host), Integer port, Bulk (Str node_id)])])"

text \<open>The elements of one address; an address without a colon is refused.\<close>

definition cluster_slots_of ::
  "hash_lib \<Rightarrow> string \<Rightarrow> migration_states \<Rightarrow> address \<times> slot_range list \<Rightarrow> string + resp_vec list" where
  "cluster_slots_of h name_seg states e =
     (case split_on (CHR '':'') (fst e) of
        host # port # _ \<Rightarrow>
          Inr (concat (map (map (cluster_slots_element host port (gen_node_id h name_seg (fst e))) \<circ> sr_range_list)
                 (filter (\<lambda>r. \<not> should_ignore_slots states r) (snd e))))
      | _ \<Rightarrow> Inl (''invalid address '' @ fst e))"

fun cluster_slots_loop ::
  "hash_lib \<Rightarrow> string \<Rightarrow> migration_states \<Rightarrow> node_map \<Rightarrow> string + resp_vec list" where
  "cluster_slots_loop h name_seg states [] = Inr []"
| "cluster_slots_loop h name_seg states (e # es) =
     (case cluster_slots_of h name_seg states e of
        Inl err \<Rightarrow> Inl err
      | Inr xs \<Rightarrow>
          (case cluster_slots_loop h name_seg states es of Inl err \<Rightarrow> Inl err | Inr ys \<Rightarrow> Inr (xs @ ys)))"

definition gen_cluster_slots_helper ::
  "hash_lib \<Rightarrow> cluster_name \<Rightarrow> node_map \<Rightarrow> migration_states \<Rightarrow> string + resp_vec list" where
  "gen_cluster_slots_helper h name slot_ranges states =
     cluster_slots_loop h (gen_cluster_name_seg name) states slot_ranges"

definition gen_cluster_slots ::
  "hash_lib \<Rightarrow> cluster_backend_map \<Rightarrow> address \<Rightarrow> migration_states \<Rightarrow> string + resp_vec" where
  "gen_cluster_slots h cb service_address states =
     (case gen_cluster_slots_helper h (lc_cluster_name (cb_local cb))
             (announced_slot_ranges service_address (cb_local cb)) states of
        Inl err \<Rightarrow> Inl err
      | Inr local \<Rightarrow>
          (case gen_cluster_slots_helper h (rc_cluster_name (cb_remote cb)) (rc_slot_ranges (cb_remote cb)) states of
             Inl err \<Rightarrow> Inl err
           | Inr remote \<Rightarrow> Inr (Arr (ArrayOf (local @ remote)))))"


subsection \<open>Reports\<close>

definition is_ready :: "node_map \<Rightarrow> bool" where
  "is_ready slot_ranges =
     list_ex (list_ex (\<lambda>r. case sr_tag r of Migrating _ \<Rightarrow> False | _ \<Rightarrow> True)) (hm_values slot_ranges)"

definition get_any_node :: "local_cluster \<Rightarrow> address option" where
  "get_any_node lc = (case lc_nodes lc of [] \<Rightarrow> None | a # _ \<Rightarrow> Some a)"

definition format_slot_range :: "slot_range \<Rightarrow> resp_vec" where
  "format_slot_range r =
     Arr (ArrayOf (map (\<lambda>s. Bulk (Str s))
       ((case get_migration_meta (sr_tag r) of
           None \<Rightarrow> []
         | Some meta \<Rightarrow>
             [show_u64 (mm_epoch meta), ''src_proxy: '' @ src_proxy_address meta,
              ''src_node: '' @ src_node_address meta, ''dst_proxy: '' @ dst_proxy_address meta,
              ''dst_node: '' @ dst_node_address meta])
        @ [join '' '' (rl_to_strings (sr_range_list r))])))"

definition format_slot_ranges :: "node_map \<Rightarrow> resp_vec list" where
  "format_slot_ranges slot_ranges =
     map (\<lambda>(node, srs). Arr (ArrayOf [Bulk (Str node), Arr (ArrayOf (map format_slot_range srs))])) slot_ranges"

definition local_info :: "local_cluster \<Rightarrow> resp_vec" where
  "local_info lc =
     Arr (ArrayOf (map (\<lambda>s. Bulk (Str s))
         [''name: '' @ lc_cluster_name lc, ''epoch: '' @ show_u64 (lc_epoch lc), ''nodes:'']
       @ format_slot_ranges (lc_slot_ranges lc)))"

definition remote_info :: "remote_cluster \<Rightarrow> resp_vec" where
  "remote_info rc = Arr (ArrayOf (Bulk (Str ''peers:'') # format_slot_ranges (rc_slot_ranges rc)))"

definition cluster_info_report :: "cluster_backend_map \<Rightarrow> resp_vec" where
  "cluster_info_report cb =
     Arr (ArrayOf [Bulk (Str (cb_cluster_name cb)), Bulk (Str ''local''), local_info (cb_local cb),
       Bulk (Str ''peer''), remote_info (cb_remote cb)])"


subsection \<open>The table of slots gives the last owner\<close>

text \<open>The reference: the last entry of the map, in iteration order, that has the slot.\<close>

definition sr_slots :: "slot_range list \<Rightarrow> nat list" where
  "sr_slots srs = rl_slots (concat (map sr_range_list srs))"

definition slot_owner :: "node_map \<Rightarrow> usize \<Rightarrow> address option" where
  "slot_owner m slot = map_option fst (find (\<lambda>e. slot \<in> set (sr_slots (snd e))) (rev m))"

definition sm_ok :: "slot_map_data \<Rightarrow> bool" where
  "sm_ok d \<longleftrightarrow>
     length (sm_slot_arr d) = SLOT_NUM \<and> (\<forall>i. Some i \<in> set (sm_slot_arr d) \<longrightarrow> i < length (sm_addrs d))"

lemma length_fold_update [simp]: "length (fold (\<lambda>s arr. arr[s := v]) xs arr) = length arr"
  by (induction xs arbitrary: arr) auto

lemma nth_fold_update:
  "s < length arr \<Longrightarrow> fold (\<lambda>s arr. arr[s := v]) xs arr ! s = (if s \<in> set xs then v else arr ! s)"
  by (induction xs arbitrary: arr) auto

lemma length_sm_set_range [simp]: "length (sm_set_range i r arr) = length arr"
  by (simp add: sm_set_range_def)

lemma length_fold_sm_set_range [simp]: "length (fold (sm_set_range i) rs arr) = length arr"
  by (induction rs arbitrary: arr) auto

lemma nth_sm_set_range:
  assumes "s < length arr" "length arr = SLOT_NUM"
  shows "sm_set_range i r arr ! s = (if s \<in> set (range_slots r) then Some i else arr ! s)"
  using assms by (auto simp: sm_set_range_def nth_fold_update range_slots_def)

lemma nth_fold_sm_set_range:
  assumes "s < length arr" "length arr = SLOT_NUM"
  shows "fold (sm_set_range i) rs arr ! s = (if s \<in> set (rl_slots rs) then Some i else arr ! s)"
  using assms by (induction rs arbitrary: arr) (auto simp: nth_sm_set_range)

lemma slot_map_get_add:
  assumes "sm_ok d" "slot < SLOT_NUM"
  shows "slot_map_get (sm_add_address e d) slot =
    (if slot \<in> set (rl_slots (snd e)) then Some (fst e) else slot_map_get d slot)"
proof -
  from assms have s: "slot < length (sm_slot_arr d)" "length (sm_slot_arr d) = SLOT_NUM"
    by (simp_all add: sm_ok_def)
  have "i < length (sm_addrs d)" if "sm_slot_arr d ! slot = Some i" for i
    using assms(1) s(1) that nth_mem [OF s(1)] by (auto simp: sm_ok_def)
  then have "\<not> i < length (sm_addrs d) \<Longrightarrow> sm_slot_arr d ! slot \<noteq> Some i" for i by blast
  then show ?thesis
    using s(1) by (fastforce simp: slot_map_get_def list_get_def sm_add_address_def nth_fold_sm_set_range [OF s]
        nth_append split: option.split)
qed

lemma sm_ok_add: "sm_ok d \<Longrightarrow> sm_ok (sm_add_address e d)"
proof -
  assume ok: "sm_ok d"
  then have len: "length (sm_slot_arr d) = SLOT_NUM" by (simp add: sm_ok_def)
  have "i < Suc (length (sm_addrs d))"
    if "Some i \<in> set (fold (sm_set_range (length (sm_addrs d))) (snd e) (sm_slot_arr d))" for i
  proof -
    from that obtain s where s: "s < length (sm_slot_arr d)"
      "fold (sm_set_range (length (sm_addrs d))) (snd e) (sm_slot_arr d) ! s = Some i"
      by (auto simp: in_set_conv_nth)
    have "i < length (sm_addrs d)" if "sm_slot_arr d ! s = Some i"
      using ok that nth_mem [OF s(1)] by (simp add: sm_ok_def)
    with s(2) show ?thesis
      by (auto simp: nth_fold_sm_set_range [OF s(1) len] less_SucI split: if_splits)
  qed
  with len show ?thesis by (simp add: sm_ok_def sm_add_address_def)
qed

lemma slot_map_get_fold:
  assumes "sm_ok d" "slot < SLOT_NUM"
  shows "slot_map_get (fold sm_add_address es d) slot =
    (case find (\<lambda>e. slot \<in> set (rl_slots (snd e))) (rev es) of
       None \<Rightarrow> slot_map_get d slot | Some e \<Rightarrow> Some (fst e))"
  using assms
proof (induction es arbitrary: d)
  case (Cons e es)
  have find_append: "find P (xs @ [y]) = (case find P xs of None \<Rightarrow> if P y then Some y else None | Some x \<Rightarrow> Some x)"
    for P :: "address \<times> range list \<Rightarrow> bool" and xs y
    by (induction xs) auto
  from Cons show ?case
    by (simp add: sm_ok_add slot_map_get_add find_append split: option.split)
qed simp

lemma fold_hm_insert_map:
  "distinct (map fst m) \<Longrightarrow> set (map fst m) \<inter> set (map fst acc) = {} \<Longrightarrow>
     fold (\<lambda>(k, v). hm_insert k (f v)) m acc = acc @ map (\<lambda>(k, v). (k, f v)) m"
proof (induction m arbitrary: acc)
  case (Cons e m)
  obtain k v where e: "e = (k, v)" by (cases e)
  have "hm_insert k (f v) acc = acc @ [(k, f v)]"
    using Cons.prems(2) by (intro hm_insert_fresh_key) (auto simp: e hm_keys_def)
  with Cons.prems show ?case
    by (simp add: e) (subst Cons.IH, auto)
qed simp

lemma slot_map_last_owner:
  assumes "hm_inv m" "slot < SLOT_NUM"
  shows "slot_map_get (slot_map_from_ranges m) slot = slot_owner m slot"
proof -
  let ?d = "\<lparr>sm_slot_arr = replicate SLOT_NUM None, sm_addrs = []\<rparr>"
  have "sm_ok ?d" by (auto simp: sm_ok_def)
  moreover have "slot_map_get ?d slot = None"
    using assms(2) by (simp add: slot_map_get_def list_get_def)
  moreover have "fold (\<lambda>(addr, slot_ranges). hm_insert addr (concat (map sr_range_list slot_ranges))) m []
      = map (\<lambda>(k, v). (k, concat (map sr_range_list v))) m"
    using fold_hm_insert_map [of m "[]" "\<lambda>v. concat (map sr_range_list v)"] assms(1)
    by (simp add: hm_inv_def hm_keys_def)
  moreover have "find P (map f xs) = map_option f (find (P \<circ> f) xs)"
    for P :: "address \<times> range list \<Rightarrow> bool" and f :: "address \<times> slot_range list \<Rightarrow> address \<times> range list" and xs
    by (induction xs) auto
  ultimately show ?thesis
    using assms(2)
    by (simp add: slot_map_from_ranges_def slot_map_data_new_def slot_map_get_fold rev_map slot_owner_def
        sr_slots_def comp_def split_beta split: option.split)
qed

lemma slot_map_out_of_range:
  assumes "hm_inv m" "slot \<ge> SLOT_NUM"
  shows "slot_map_get (slot_map_from_ranges m) slot = None"
proof -
  have "sm_ok (fold sm_add_address es d)" if "sm_ok d" for es d
    using that by (induction es arbitrary: d) (auto intro: sm_ok_add)
  then have "sm_ok (slot_map_from_ranges m)"
    unfolding slot_map_from_ranges_def slot_map_data_new_def by (auto simp: sm_ok_def)
  with assms(2) show ?thesis by (simp add: slot_map_get_def list_get_def sm_ok_def)
qed

lemma find_SomeD: "find P xs = Some x \<Longrightarrow> x \<in> set xs \<and> P x"
  by (induction xs) (auto split: if_splits)

lemma slot_owner_Some:
  assumes "slot_owner m slot = Some a"
  obtains srs where "(a, srs) \<in> set m" "slot \<in> set (sr_slots srs)"
proof -
  from assms obtain e where "find (\<lambda>e. slot \<in> set (sr_slots (snd e))) (rev m) = Some e" "a = fst e"
    by (auto simp: slot_owner_def)
  then show thesis using that [of "snd e"] by (auto dest: find_SomeD)
qed

lemma slot_owner_None: "slot_owner m slot = None \<longleftrightarrow> (\<forall>(a, srs) \<in> set m. slot \<notin> set (sr_slots srs))"
  by (auto simp: slot_owner_def find_None_iff)

lemma slot_owner_unique:
  assumes "(a, srs) \<in> set m" "slot \<in> set (sr_slots srs)"
    "\<And>b srs'. (b, srs') \<in> set m \<Longrightarrow> slot \<in> set (sr_slots srs') \<Longrightarrow> b = a"
  shows "slot_owner m slot = Some a"
proof (cases "slot_owner m slot")
  case None
  with assms(1,2) show ?thesis by (auto simp: slot_owner_None)
next
  case (Some b)
  with slot_owner_Some [OF Some] assms(3) show ?thesis by metis
qed

end
