(* ===== verification/UM_Proxy.thy ===== *)
theory UM_Proxy
  imports UM_Route
begin

section \<open>The metadata of a server proxy\<close>

text \<open>
  Model of \<open>migration/task.rs\<close>, \<open>migration/manager.rs\<close>, the request handling of
  \<open>migration/scan_task.rs\<close> and \<open>proxy/manager.rs\<close>: the migration tasks of a proxy,
  how new metadata is accepted and replaces them, how the peers of a migration switch, and
  the way of a command through migration tasks and cluster map, with its retries and
  redirections.

  The running of the tasks themselves is in other theories; here a task is its metadata, its
  slots and its state. The answers of senders and of importing tasks are arguments.
\<close>


subsection \<open>Migration commands\<close>

datatype mgr_sub_cmd = SubPreCheck | SubPreSwitch | SubFinalSwitch

fun sub_cmd_as_str :: "mgr_sub_cmd \<Rightarrow> string" where
  "sub_cmd_as_str SubPreCheck = ''PRECHECK''"
| "sub_cmd_as_str SubPreSwitch = ''PRESWITCH''"
| "sub_cmd_as_str SubFinalSwitch = ''FINALSWITCH''"

fun migration_state_display :: "migration_state \<Rightarrow> string" where
  "migration_state_display PreCheck = ''PRE_CHECK''"
| "migration_state_display PreBlocking = ''PRE_BLOCKING''"
| "migration_state_display PreSwitch = ''PRE_SWITCH''"
| "migration_state_display Scanning = ''SCANNING''"
| "migration_state_display FinalSwitch = ''FINAL_SWITCH''"
| "migration_state_display SwitchCommitted = ''SWITCH_COMMITTED''"

text \<open>The atomic number a state is stored as, and how it is read back.\<close>

fun state_store :: "migration_state \<Rightarrow> 16 word" where
  "state_store PreCheck = 0"
| "state_store PreBlocking = 1"
| "state_store PreSwitch = 2"
| "state_store Scanning = 3"
| "state_store FinalSwitch = 4"
| "state_store SwitchCommitted = 5"

definition state_load :: "16 word \<Rightarrow> migration_state" where
  "state_load w =
     (if w = 0 then PreCheck else if w = 1 then PreBlocking else if w = 2 then PreSwitch
      else if w = 3 then Scanning else if w = 4 then FinalSwitch else SwitchCommitted)"

lemma state_load_store [simp]: "state_load (state_store s) = s"
  by (cases s) (simp_all add: state_load_def)

definition UNDERMOON_MIGRATION_VERSION :: string where
  "UNDERMOON_MIGRATION_VERSION = ''mgr-0.2''"

record switch_arg =
  sa_version :: string
  sa_meta :: migration_task_meta

definition sa_into_strings :: "switch_arg \<Rightarrow> string list" where
  "sa_into_strings a = sa_version a # mt_into_strings (sa_meta a)"

definition sa_from_strings :: "string list \<Rightarrow> (switch_arg \<times> string list) option" where
  "sa_from_strings it =
     (case it of
        [] \<Rightarrow> None
      | v # it' \<Rightarrow> map_option (\<lambda>(m, rest). (\<lparr>sa_version = v, sa_meta = m\<rparr>, rest)) (mt_from_strings it'))"

interpretation sa_codec: string_codec sa_into_strings sa_from_strings "\<lambda>a. mt_inv (sa_meta a)"
  by unfold_locales (simp add: sa_into_strings_def sa_from_strings_def mt_codec.dec_enc)

text \<open>The first two words of the command are skipped.\<close>

definition parse_switch_command :: "resp_vec \<Rightarrow> switch_arg option" where
  "parse_switch_command resp =
     (case get_resp_strings resp of
        Some (_ # _ # it) \<Rightarrow> map_option fst (sa_from_strings it)
      | _ \<Rightarrow> None)"

text \<open>The command a migrating task sends to the proxy it migrates to.\<close>

definition gen_switch_arg :: "cluster_name \<Rightarrow> range_list \<Rightarrow> migration_meta \<Rightarrow> string \<Rightarrow> string list" where
  "gen_switch_arg cluster_name range_list meta sub_cmd =
     [''UMCTL'', sub_cmd]
     @ sa_into_strings \<lparr>sa_version = UNDERMOON_MIGRATION_VERSION,
         sa_meta = \<lparr>mt_cluster_name = cluster_name,
           mt_slot_range = \<lparr>sr_range_list = range_list, sr_tag = Migrating meta\<rparr>\<rparr>\<rparr>"


subsection \<open>Migration tasks\<close>

datatype side = MigratingSide | ImportingSide

record mgr_task =
  mk_side :: side
  mk_meta :: migration_meta
  mk_range_map :: range_map
  mk_state :: migration_state

text \<open>
  \<open>RedisScanMigratingTask::new\<close> and \<open>RedisScanImportingTask::new\<close>; building the range
  map may panic.
\<close>

definition mgr_task_new :: "side \<Rightarrow> slot_range \<Rightarrow> migration_meta \<Rightarrow> mgr_task option" where
  "mgr_task_new side slot_range meta =
     map_option (\<lambda>rm. \<lparr>mk_side = side, mk_meta = meta, mk_range_map = rm, mk_state = PreCheck\<rparr>)
       (range_map_from (sr_range_list slot_range))"

definition handle_redirection :: "bool \<Rightarrow> usize option \<Rightarrow> address \<Rightarrow> send_outcome" where
  "handle_redirection active_redirection task_slot redirection_address =
     (case task_slot of
        None \<Rightarrow> ([Reply (Error ''missing key'')], None)
      | Some slot \<Rightarrow>
          if active_redirection then ([], Some (ActiveRedirection slot redirection_address))
          else ([Reply (Error (gen_moved slot redirection_address))], None))"

text \<open>
  \<open>blocking_state\<close> is the state of the queue of the source node: whether it is blocking,
  and its term.
\<close>

definition migrating_send ::
  "bool \<Rightarrow> (address \<Rightarrow> bool \<times> 32 word) \<Rightarrow> mgr_task \<Rightarrow> usize option \<Rightarrow> send_outcome" where
  "migrating_send active_redirection blocking_state t task_slot =
     (let (blocking, bterm) = blocking_state (src_node_address (mk_meta t)) in
      case mk_state t of
        PreCheck \<Rightarrow> ([], Some (SlotNotFound (NotBlockingInMigration bterm)))
      | PreBlocking \<Rightarrow> ([], Some (SlotNotFound (if blocking then Blocking else NotBlockingInMigration bterm)))
      | PreSwitch \<Rightarrow> ([], Some (SlotNotFound (if blocking then Blocking else NotBlockingInMigration bterm)))
      | _ \<Rightarrow> handle_redirection active_redirection task_slot (dst_proxy_address (mk_meta t)))"

text \<open>The importing task takes a command or, when it is stopped, gives it back.\<close>

definition importing_send ::
  "bool \<Rightarrow> sender_result \<Rightarrow> mgr_task \<Rightarrow> usize option \<Rightarrow> send_outcome" where
  "importing_send active_redirection importer t task_slot =
     (if mk_state t = PreCheck
      then handle_redirection active_redirection task_slot (src_proxy_address (mk_meta t))
      else if importer = SenderRetry then ([ToImporter SenderRetry], Some Retry)
      else ([ToImporter SenderOk], None))"

datatype migration_error =
  IncompatibleVersion | AlreadyStarted | AlreadyEnded | Canceled | NotReady | ReplErr | RedisClientErr
| IoErr | TimeoutErr | MgrInvalidConfig

definition importing_handle_switch :: "mgr_task \<Rightarrow> switch_arg \<Rightarrow> mgr_sub_cmd \<Rightarrow> migration_error + mgr_task" where
  "importing_handle_switch t arg sub_cmd =
     (if sa_version arg \<noteq> UNDERMOON_MIGRATION_VERSION then Inl IncompatibleVersion
      else Inr (t\<lparr>mk_state := (case sub_cmd of
               SubPreCheck \<Rightarrow> PreCheck | SubPreSwitch \<Rightarrow> PreSwitch | SubFinalSwitch \<Rightarrow> SwitchCommitted)\<rparr>))"


subsection \<open>The migration map\<close>

record migration_map =
  mg_empty :: bool
  mg_cluster_name :: cluster_name
  mg_tasks :: "(migration_task_meta, mgr_task) hashmap"

definition migration_map_empty :: migration_map where
  "migration_map_empty = \<lparr>mg_empty = True, mg_cluster_name = EMPTY_CLUSTER_NAME, mg_tasks = []\<rparr>"

text \<open>The first task, in iteration order, that has the slot.\<close>

definition task_for_slot :: "(migration_task_meta, mgr_task) hashmap \<Rightarrow> usize \<Rightarrow> mgr_task option" where
  "task_for_slot tasks slot = find (\<lambda>t. contains_slot (mk_range_map t) slot) (hm_values tasks)"

definition mg_send_helper ::
  "bool \<Rightarrow> (address \<Rightarrow> bool \<times> 32 word) \<Rightarrow> sender_result \<Rightarrow> (migration_task_meta, mgr_task) hashmap \<Rightarrow> usize option \<Rightarrow> send_outcome" where
  "mg_send_helper active_redirection blocking_state importer tasks task_slot =
     (case task_slot of
        None \<Rightarrow> ([Reply (Error ''missing key'')], Some MissingKey)
      | Some slot \<Rightarrow>
          (case task_for_slot tasks slot of
             None \<Rightarrow> ([], Some (SlotNotFound NotBlocking))
           | Some t \<Rightarrow>
               if mk_side t = MigratingSide then migrating_send active_redirection blocking_state t task_slot
               else importing_send active_redirection importer t task_slot))"

definition mg_send ::
  "bool \<Rightarrow> (address \<Rightarrow> bool \<times> 32 word) \<Rightarrow> sender_result \<Rightarrow> migration_map \<Rightarrow> usize option \<Rightarrow> send_outcome" where
  "mg_send active_redirection blocking_state importer mg task_slot =
     (if mg_empty mg \<or> mg_cluster_name mg = [] then ([], Some (SlotNotFound NotBlocking))
      else mg_send_helper active_redirection blocking_state importer (mg_tasks mg) task_slot)"

definition keys_are_importing :: "hash_lib \<Rightarrow> migration_map \<Rightarrow> string list \<Rightarrow> bool" where
  "keys_are_importing h mg keys =
     list_ex (\<lambda>t. mk_side t = ImportingSide \<and>
                   list_ex (\<lambda>key. contains_slot (mk_range_map t) (generate_slot h key)) keys)
       (hm_values (mg_tasks mg))"

text \<open>First loop: the tasks whose metadata is unchanged are kept, with their state.\<close>

definition keep_old_task ::
  "cluster_name \<Rightarrow> (migration_task_meta, mgr_task) hashmap \<Rightarrow> slot_range \<Rightarrow>
   (migration_task_meta, mgr_task) hashmap \<Rightarrow> (migration_task_meta, mgr_task) hashmap" where
  "keep_old_task cluster_name old slot_range tasks =
     (if tag_is_stable (sr_tag slot_range) then tasks
      else let m = \<lparr>mt_cluster_name = cluster_name, mt_slot_range = slot_range\<rparr>
           in case hm_get old m of None \<Rightarrow> tasks | Some t \<Rightarrow> hm_insert m t tasks)"

text \<open>Second loop: the others are created; the metadata of the tasks to start is collected.\<close>

definition add_new_task ::
  "cluster_name \<Rightarrow> slot_range \<Rightarrow> (migration_task_meta, mgr_task) hashmap \<times> migration_task_meta list \<Rightarrow>
   ((migration_task_meta, mgr_task) hashmap \<times> migration_task_meta list) option" where
  "add_new_task cluster_name slot_range st =
     (let (tasks, new_tasks) = st;
          m = \<lparr>mt_cluster_name = cluster_name, mt_slot_range = slot_range\<rparr>;
          create = (\<lambda>side meta.
            if hm_contains_key tasks m then Some (tasks, new_tasks)
            else map_option (\<lambda>t. (hm_insert m t tasks, new_tasks @ [m])) (mgr_task_new side slot_range meta))
      in case sr_tag slot_range of
           Migrating meta \<Rightarrow> create MigratingSide meta
         | Importing meta \<Rightarrow> create ImportingSide meta
         | TagNone \<Rightarrow> Some (tasks, new_tasks))"

primrec add_new_tasks ::
  "cluster_name \<Rightarrow> slot_range list \<Rightarrow> (migration_task_meta, mgr_task) hashmap \<times> migration_task_meta list \<Rightarrow>
   ((migration_task_meta, mgr_task) hashmap \<times> migration_task_meta list) option" where
  "add_new_tasks cluster_name [] st = Some st"
| "add_new_tasks cluster_name (r # rs) st = Option.bind (add_new_task cluster_name r st) (add_new_tasks cluster_name rs)"

definition update_from_old_task_map ::
  "migration_map \<Rightarrow> cluster_name \<Rightarrow> node_map \<Rightarrow> (migration_map \<times> migration_task_meta list) option" where
  "update_from_old_task_map old cluster_name local =
     (let slot_ranges = concat (hm_values local);
          kept = fold (keep_old_task cluster_name (mg_tasks old)) slot_ranges []
      in map_option (\<lambda>(tasks, new_tasks).
             (\<lparr>mg_empty = (tasks = []), mg_cluster_name = cluster_name, mg_tasks = tasks\<rparr>, new_tasks))
           (add_new_tasks cluster_name slot_ranges (kept, [])))"

datatype switch_error = InvalidArg | TaskNotFound | PeerMigrating | SwitchNotReady | MgrErr migration_error

definition mg_handle_switch :: "migration_map \<Rightarrow> switch_arg \<Rightarrow> mgr_sub_cmd \<Rightarrow> switch_error + migration_map" where
  "mg_handle_switch mg arg sub_cmd =
     (if mg_cluster_name mg = mt_cluster_name (sa_meta arg) then
        (case hm_get (mg_tasks mg) (sa_meta arg) of
           None \<Rightarrow> Inl TaskNotFound
         | Some t \<Rightarrow>
             if mk_side t = MigratingSide then Inl PeerMigrating
             else (case importing_handle_switch t arg sub_cmd of
                     Inl NotReady \<Rightarrow> Inl SwitchNotReady
                   | Inl e \<Rightarrow> Inl (MgrErr e)
                   | Inr t' \<Rightarrow> Inr (mg\<lparr>mg_tasks := hm_modify (sa_meta arg) (\<lambda>_. t') (mg_tasks mg)\<rparr>)))
      else Inl TaskNotFound)"

definition get_finished_tasks :: "migration_map \<Rightarrow> migration_task_meta list" where
  "get_finished_tasks mg = map fst (filter (\<lambda>(m, t). mk_state t = SwitchCommitted) (mg_tasks mg))"

definition get_states :: "migration_map \<Rightarrow> migration_states" where
  "get_states mg = fold (\<lambda>(m, t). hm_insert (sr_range_list (mt_slot_range m)) (mk_state t)) (mg_tasks mg) []"

definition mg_info :: "migration_map \<Rightarrow> resp_vec" where
  "mg_info mg =
     Arr (ArrayOf (map (\<lambda>s. Bulk (Str s))
       ((''name: '' @ mg_cluster_name mg)
        # List.map_filter (\<lambda>(m, t).
            map_option (\<lambda>meta. join '' '' (rl_to_strings (sr_range_list (mt_slot_range m))) @ '' ''
                @ src_node_address meta @ '' -> '' @ dst_node_address meta @ '' ''
                @ migration_state_display (mk_state t))
              (get_migration_meta (sr_tag (mt_slot_range m)))) (mg_tasks mg))))"


subsection \<open>Accepting metadata\<close>

record proxy_config =
  pc_announce_address :: address
  pc_announce_host :: string
  pc_active_redirection :: bool
  pc_max_redirections :: "usize option"
  pc_default_redirection_address :: "address option"
  pc_nodes_version :: cluster_nodes_version

record proxy_state =
  ps_epoch :: epoch
  ps_cluster_map :: cluster_backend_map
  ps_migration_map :: migration_map

definition proxy_state_new :: proxy_state where
  "proxy_state_new =
     \<lparr>ps_epoch = 0, ps_cluster_map = cluster_backend_map_default, ps_migration_map = migration_map_empty\<rparr>"

datatype cluster_meta_error = OldEpoch | TryAgain | NotMyMeta

text \<open>
  The answer is the list of the migration tasks to start. None is a panic, in which nothing
  has been stored.
\<close>

definition set_meta ::
  "proxy_config \<Rightarrow> proxy_cluster_meta \<Rightarrow> proxy_state \<Rightarrow> ((cluster_meta_error + migration_task_meta list) \<times> proxy_state) option" where
  "set_meta conf cluster_meta st =
     (if \<not> check_hosts (pm_local cluster_meta) (pc_announce_host conf) then Some (Inl NotMyMeta, st)
      else if pm_epoch cluster_meta \<le> ps_epoch st \<and> \<not> cf_force (pm_flags cluster_meta) then Some (Inl OldEpoch, st)
      else map_option (\<lambda>(migration_map, new_tasks).
             (Inr new_tasks,
              \<lparr>ps_epoch = pm_epoch cluster_meta,
               ps_cluster_map = from_cluster_map cluster_meta (pc_active_redirection conf),
               ps_migration_map = migration_map\<rparr>))
           (update_from_old_task_map (ps_migration_map st) (pm_cluster_name cluster_meta) (pm_local cluster_meta)))"

text \<open>The task is stored with the importing tag; the peer sends the migrating one.\<close>

definition handle_switch :: "switch_arg \<Rightarrow> mgr_sub_cmd \<Rightarrow> proxy_state \<Rightarrow> switch_error + proxy_state" where
  "handle_switch arg sub_cmd st =
     (case get_migration_meta (sr_tag (mt_slot_range (sa_meta arg))) of
        None \<Rightarrow> Inl InvalidArg
      | Some meta \<Rightarrow>
          if ps_epoch st < mm_epoch meta then Inl SwitchNotReady
          else let task_meta = (sa_meta arg)\<lparr>mt_slot_range := (mt_slot_range (sa_meta arg))\<lparr>sr_tag := Importing meta\<rparr>\<rparr>
               in map_sum id (\<lambda>mg. st\<lparr>ps_migration_map := mg\<rparr>)
                    (mg_handle_switch (ps_migration_map st) \<lparr>sa_version = sa_version arg, sa_meta = task_meta\<rparr> sub_cmd))"

definition proxy_cluster_nodes :: "hash_lib \<Rightarrow> proxy_config \<Rightarrow> proxy_state \<Rightarrow> string" where
  "proxy_cluster_nodes h conf st =
     gen_cluster_nodes h (ps_cluster_map st) (pc_announce_address conf) (get_states (ps_migration_map st))
       (pc_nodes_version conf)"

definition proxy_cluster_slots :: "hash_lib \<Rightarrow> proxy_config \<Rightarrow> proxy_state \<Rightarrow> string + resp_vec" where
  "proxy_cluster_slots h conf st =
     gen_cluster_slots h (ps_cluster_map st) (pc_announce_address conf) (get_states (ps_migration_map st))"

text \<open>Ready with replicas only, or with a slot that is not moving away.\<close>

definition proxy_is_ready :: "nat \<times> nat \<Rightarrow> proxy_state \<Rightarrow> bool" where
  "proxy_is_ready role_num st =
     (let (master_num, replica_num) = role_num
      in master_num = 0 \<and> replica_num > 0 \<or> is_ready (lc_slot_ranges (cb_local (ps_cluster_map st))))"


subsection \<open>The way of a command\<close>

record cmd_ctx =
  cx_cmd :: command
  cx_redirection_times :: "usize option"

record senders =
  sd_node :: "address \<Rightarrow> blocking_hint \<Rightarrow> sender_result"
  sd_peer :: "address \<Rightarrow> sender_result"
  sd_importer :: sender_result
  sd_blocking :: "address \<Rightarrow> bool \<times> 32 word"

definition cx_slot :: "cmd_ctx \<Rightarrow> usize option" where
  "cx_slot ctx = ci_slot (cm_info (cx_cmd ctx))"

text \<open>
  Passing a command on to another proxy: with a limit on redirections, the number of those
  that are left goes with it.
\<close>

definition forward_request :: "hash_lib \<Rightarrow> usize option \<Rightarrow> cmd_ctx \<Rightarrow> (resp_vec + resp_packet) option" where
  "forward_request h max_redirections ctx =
     (case (case cx_redirection_times ctx of
              Some rtimes \<Rightarrow> Some rtimes
            | None \<Rightarrow> map_option (\<lambda>n. n - 1) max_redirections) of
        None \<Rightarrow> Some (Inr (cm_request (cx_cmd ctx)))
      | Some rtimes \<Rightarrow>
          if rtimes = 0 then Some (Inl (Error ''ERR_TOO_MANY_REDIRECTIONS''))
          else map_option (\<lambda>(success, cmd).
                 if success then Inr (cm_request cmd) else Inl (Error ''failed to wrap command for redirections''))
               (cm_wrap_cmd h (cx_cmd ctx) [''UMFORWARD'', show_nat (rtimes - 1)]))"

definition send_cmd_ctx_to_remote_directly ::
  "hash_lib \<Rightarrow> proxy_config \<Rightarrow> senders \<Rightarrow> cluster_backend_map \<Rightarrow> cmd_ctx \<Rightarrow> usize \<Rightarrow> address \<Rightarrow> effect list option" where
  "send_cmd_ctx_to_remote_directly h conf sd cb ctx slot addr =
     map_option (\<lambda>fwd. case fwd of
         Inl reply \<Rightarrow> [Reply reply]
       | Inr request \<Rightarrow>
           (case send_remote_directly (sd_peer sd) (cb_remote cb) request slot addr of
              (effs, Some (SlotNotFound _)) \<Rightarrow> effs @ [DropTask]
            | (effs, _) \<Rightarrow> effs))
       (forward_request h (pc_max_redirections conf) ctx)"

text \<open>The effects, and whether the command is to be tried again. None is a panic.\<close>

definition send_to_cluster_map ::
  "hash_lib \<Rightarrow> proxy_config \<Rightarrow> senders \<Rightarrow> cluster_backend_map \<Rightarrow> cmd_ctx \<Rightarrow> blocking_hint \<Rightarrow> (effect list \<times> bool) option" where
  "send_to_cluster_map h conf sd cb ctx hint =
     (let (effs, res) = cluster_send (sd_node sd) cb (cx_slot ctx) hint in
      case res of
        Some (ClusterNotFound _) \<Rightarrow>
          Some (effs @ [Reply (case pc_default_redirection_address conf of
                   Some redirection_address \<Rightarrow>
                     (case cx_slot ctx of
                        None \<Rightarrow> Error ''missing key''
                      | Some slot \<Rightarrow> Error (gen_moved slot redirection_address))
                 | None \<Rightarrow> Error ''ERR_CLUSTER_NOT_FOUND'')], False)
      | Some (ActiveRedirection slot addr) \<Rightarrow>
          map_option (\<lambda>effs'. (effs @ effs', False)) (send_cmd_ctx_to_remote_directly h conf sd cb ctx slot addr)
      | Some Retry \<Rightarrow> Some (effs, True)
      | _ \<Rightarrow> Some (effs, False))"

definition send_cmd_ctx ::
  "hash_lib \<Rightarrow> proxy_config \<Rightarrow> senders \<Rightarrow> proxy_state \<Rightarrow> cmd_ctx \<Rightarrow> (effect list \<times> bool) option" where
  "send_cmd_ctx h conf sd st ctx =
     (let (effs, res) = mg_send (pc_active_redirection conf) (sd_blocking sd) (sd_importer sd) (ps_migration_map st) (cx_slot ctx) in
      case res of
        Some (SlotNotFound hint) \<Rightarrow>
          map_option (\<lambda>(effs', retry). (effs @ effs', retry)) (send_to_cluster_map h conf sd (ps_cluster_map st) ctx hint)
      | Some (ActiveRedirection slot addr) \<Rightarrow>
          map_option (\<lambda>effs'. (effs @ effs', False))
            (send_cmd_ctx_to_remote_directly h conf sd (ps_cluster_map st) ctx slot addr)
      | Some Retry \<Rightarrow> Some (effs, True)
      | _ \<Rightarrow> Some (effs, False))"

definition MAX_RETRY_NUM :: nat where
  "MAX_RETRY_NUM = 3"

text \<open>
  Every attempt reads the metadata again: \<open>env i\<close> are the senders and the state met by
  attempt number \<open>i\<close>; \<open>n\<close> attempts are left.
\<close>

fun send_attempts ::
  "hash_lib \<Rightarrow> proxy_config \<Rightarrow> (nat \<Rightarrow> senders \<times> proxy_state) \<Rightarrow> cmd_ctx \<Rightarrow> nat \<Rightarrow> nat \<Rightarrow> effect list option" where
  "send_attempts h conf env ctx i 0 = Some []"
| "send_attempts h conf env ctx i (Suc n) =
     (case send_cmd_ctx h conf (fst (env i)) (snd (env i)) ctx of
        None \<Rightarrow> None
      | Some (effs, False) \<Rightarrow> Some effs
      | Some (effs, True) \<Rightarrow>
          if i + 1 = MAX_RETRY_NUM then Some (effs @ [Reply (Error ''cmd exceeds retry limit'')])
          else map_option ((@) effs) (send_attempts h conf env ctx (i + 1) n))"

definition loop_send_cmd_ctx ::
  "hash_lib \<Rightarrow> proxy_config \<Rightarrow> (nat \<Rightarrow> senders \<times> proxy_state) \<Rightarrow> cmd_ctx \<Rightarrow> effect list option" where
  "loop_send_cmd_ctx h conf env ctx = send_attempts h conf env ctx 0 MAX_RETRY_NUM"

text \<open>A forwarded command at the proxy that receives it (\<open>proxy/executor.rs\<close>).\<close>

definition receive_umforward :: "hash_lib \<Rightarrow> command \<Rightarrow> (resp_vec + cmd_ctx) option" where
  "receive_umforward h cmd =
     (case pkt_get_array_element (cm_request cmd) 1 of
        None \<Rightarrow> None
      | Some None \<Rightarrow> Some (Inl (Error ''Missing sub command''))
      | Some (Some s) \<Rightarrow>
          if \<not> utf8_valid s then Some (Inl (Error ''Invalid sub command''))
          else (case parse_u64 (to_uppercase s) of
             None \<Rightarrow> Some (Inl (Error ''invalid redirection times''))
           | Some rtimes \<Rightarrow>
               map_option (\<lambda>(remaining, cmd').
                   case remaining of
                     Some cmd_len \<Rightarrow>
                       if cmd_len > 0 then Inr \<lparr>cx_cmd = cmd', cx_redirection_times = Some rtimes\<rparr>
                       else Inl (Error ''missing forwarded command'')
                   | None \<Rightarrow> Inl (Error ''missing forwarded command''))
                 (cm_extract_inner_cmd h cmd 2)))"


subsection \<open>A command is settled once\<close>

text \<open>Settled: answered, dropped with an error, or taken over by a sender or task.\<close>

fun settles :: "effect \<Rightarrow> bool" where
  "settles (Reply _) = True"
| "settles (ToNode _ _ r) = (r \<noteq> SenderRetry)"
| "settles (ToPeer _ _ r) = True"
| "settles (ToImporter r) = (r \<noteq> SenderRetry)"
| "settles DropTask = True"

definition n_settled :: "effect list \<Rightarrow> nat" where
  "n_settled effs = length (filter settles effs)"

lemma n_settled_simps [simp]:
  "n_settled [] = 0" "n_settled (e # es) = (if settles e then 1 else 0) + n_settled es"
  "n_settled (es @ es') = n_settled es + n_settled es'"
  by (simp_all add: n_settled_def)

text \<open>How many times a stage has settled the command when it returns its result.\<close>

definition stage_ok :: "send_outcome \<Rightarrow> bool" where
  "stage_ok out \<longleftrightarrow>
     n_settled (fst out) =
       (case snd out of
          None \<Rightarrow> 1 | Some MissingKey \<Rightarrow> 1 | Some SlotNotCovered \<Rightarrow> 1 | Some Backend \<Rightarrow> 1 | _ \<Rightarrow> 0)
     \<and> snd out \<noteq> Some MigrationError"

lemma stage_ok_handle_redirection: "stage_ok (handle_redirection act task_slot addr)"
  by (simp add: handle_redirection_def stage_ok_def split: option.split)

lemma stage_ok_mg_send: "stage_ok (mg_send act blocking importer mg task_slot)"
  by (cases importer)
    (auto simp: mg_send_def mg_send_helper_def migrating_send_def importing_send_def stage_ok_handle_redirection
      split: option.split migration_state.split prod.split, auto simp: stage_ok_def)

lemma mg_send_errors:
  "snd (mg_send act blocking importer mg task_slot) = None \<or>
   snd (mg_send act blocking importer mg task_slot) = Some MissingKey \<or>
   snd (mg_send act blocking importer mg task_slot) = Some Retry \<or>
   (\<exists>hint. snd (mg_send act blocking importer mg task_slot) = Some (SlotNotFound hint)) \<or>
   (\<exists>slot addr. snd (mg_send act blocking importer mg task_slot) = Some (ActiveRedirection slot addr))"
  by (auto simp: mg_send_def mg_send_helper_def migrating_send_def importing_send_def handle_redirection_def
      split: option.split migration_state.split prod.split)

lemma stage_ok_local_send: "stage_ok (local_send node_sender lc task_slot hint)"
  by (auto simp: local_send_def stage_ok_def from_sender_result_def Let_def split: option.split sender_result.split)

lemma stage_ok_send_remote: "stage_ok (send_remote rc task_slot hint)"
  by (auto simp: send_remote_def stage_ok_def split: option.split)

lemma send_remote_not_found: "snd (send_remote rc task_slot hint) \<noteq> Some (SlotNotFound h')"
  by (auto simp: send_remote_def split: option.split)

lemma cluster_send_cases:
  obtains (local) "cluster_send node_sender cb task_slot hint = local_send node_sender (cb_local cb) task_slot hint"
    "\<forall>h. snd (local_send node_sender (cb_local cb) task_slot hint) \<noteq> Some (SlotNotFound h)"
  | (remote) h where "snd (local_send node_sender (cb_local cb) task_slot hint) = Some (SlotNotFound h)"
    "cluster_send node_sender cb task_slot hint =
       (fst (local_send node_sender (cb_local cb) task_slot hint) @ fst (send_remote (cb_remote cb) task_slot h),
        snd (send_remote (cb_remote cb) task_slot h))"
proof (cases "\<exists>h. snd (local_send node_sender (cb_local cb) task_slot hint) = Some (SlotNotFound h)")
  case True
  with remote show thesis
    by (cases "local_send node_sender (cb_local cb) task_slot hint") (auto simp: cluster_send_def split_beta)
next
  case False
  with local show thesis
    by (cases "local_send node_sender (cb_local cb) task_slot hint")
      (auto simp: cluster_send_def split_beta split: option.split send_error.split)
qed

lemma stage_ok_append: "stage_ok out \<Longrightarrow> n_settled effs = 0 \<Longrightarrow> stage_ok (effs @ fst out, snd out)"
  by (simp add: stage_ok_def)

lemma stage_ok_cluster_send: "stage_ok (cluster_send node_sender cb task_slot hint)"
proof (cases rule: cluster_send_cases [of node_sender cb task_slot hint])
  case local
  then show ?thesis by (simp add: stage_ok_local_send)
next
  case (remote h)
  with stage_ok_local_send [of node_sender "cb_local cb" task_slot hint]
  have "n_settled (fst (local_send node_sender (cb_local cb) task_slot hint)) = 0" by (simp add: stage_ok_def)
  then show ?thesis unfolding remote(2) by (intro stage_ok_append stage_ok_send_remote)
qed

lemma cluster_send_not_found: "snd (cluster_send node_sender cb task_slot hint) \<noteq> Some (SlotNotFound h')"
  by (cases rule: cluster_send_cases [of node_sender cb task_slot hint]) (simp_all add: send_remote_not_found)

lemma stage_ok_remote_directly: "stage_ok (send_remote_directly peer_sender rc request slot addr) \<or>
    (\<exists>r. fst (send_remote_directly peer_sender rc request slot addr) = [ToPeer addr request r])"
  by (auto simp: send_remote_directly_def stage_ok_def Let_def split: option.split)

definition ctx_ok :: "cmd_ctx \<Rightarrow> bool" where
  "ctx_ok ctx \<longleftrightarrow> pkt_to_resp_vec (cm_request (cx_cmd ctx)) \<noteq> None"

lemma ci_new_total: "pkt_to_resp_vec p = Some r \<Longrightarrow> \<exists>info. ci_new h p = Some info"
  by (simp add: ci_new_def cmd_type_from_packet_def data_cmd_type_from_packet_def ci_get_key_def pkt_element_refines)

lemma cm_wrap_total:
  assumes "pkt_to_resp_vec (cm_request c) = Some r"
  shows "\<exists>b c'. cm_wrap_cmd h c pre = Some (b, c') \<and>
    (b \<longrightarrow> pkt_to_resp_vec (cm_request c') = Some (snd (array_append_front r pre)) \<and> ci_new h (cm_request c') = Some (cm_info c'))"
proof -
  from pkt_edits_refine(3) [OF assms, of pre] obtain b p where w: "wrap_cmd (cm_request c) pre = Some (b, p)"
    "pkt_to_resp_vec p = Some (snd (array_append_front r pre))"
    by (cases "wrap_cmd (cm_request c) pre"; cases "array_append_front r pre") auto
  with ci_new_total [OF w(2), of h] show ?thesis
    by (cases b) (auto simp: cm_wrap_cmd_def)
qed

lemma forward_request_total: "ctx_ok ctx \<Longrightarrow> \<exists>fwd. forward_request h mx ctx = Some fwd"
  using cm_wrap_total [of "cx_cmd ctx" _ h]
  by (fastforce simp: forward_request_def ctx_ok_def split: option.split)

lemma send_directly_settled:
  assumes "ctx_ok ctx"
  shows "\<exists>effs. send_cmd_ctx_to_remote_directly h conf sd cb ctx slot addr = Some effs \<and> n_settled effs = 1"
proof -
  from forward_request_total [OF assms] obtain fwd where "forward_request h (pc_max_redirections conf) ctx = Some fwd"
    by blast
  moreover have "snd (send_remote_directly ps rc request slot addr) \<in> {None, Some Backend, Some Retry} \<union> range (Some \<circ> SlotNotFound)"
    for ps rc request
    by (auto simp: send_remote_directly_def from_sender_result_def Let_def split: option.split sender_result.split)
  ultimately show ?thesis
    by (cases fwd) (auto simp: send_cmd_ctx_to_remote_directly_def send_remote_directly_def Let_def
        from_sender_result_def split: option.split sender_result.split)
qed

lemma send_to_cluster_map_settled:
  assumes "ctx_ok ctx"
  shows "\<exists>effs retry. send_to_cluster_map h conf sd cb ctx hint = Some (effs, retry) \<and> n_settled effs = (if retry then 0 else 1)"
proof -
  obtain effs res where out: "cluster_send (sd_node sd) cb (cx_slot ctx) hint = (effs, res)" by fastforce
  with stage_ok_cluster_send [of "sd_node sd" cb "cx_slot ctx" hint] have ok: "stage_ok (effs, res)" by simp
  from out cluster_send_not_found [of "sd_node sd" cb "cx_slot ctx" hint] have found: "\<forall>h. res \<noteq> Some (SlotNotFound h)" by simp
  show ?thesis
  proof (cases "\<exists>slot addr. res = Some (ActiveRedirection slot addr)")
    case True
    then obtain slot addr where res: "res = Some (ActiveRedirection slot addr)" by blast
    from send_directly_settled [OF assms, of h conf sd cb slot addr]
    obtain effs' where "send_cmd_ctx_to_remote_directly h conf sd cb ctx slot addr = Some effs'"
      "n_settled effs' = 1" by blast
    with ok show ?thesis by (auto simp: send_to_cluster_map_def out res stage_ok_def)
  next
    case False
    with ok found show ?thesis
      by (cases res; cases "the res") (auto simp: send_to_cluster_map_def out stage_ok_def)
  qed
qed

lemma send_cmd_ctx_settled:
  assumes "ctx_ok ctx"
  shows "\<exists>effs retry. send_cmd_ctx h conf sd st ctx = Some (effs, retry) \<and> n_settled effs = (if retry then 0 else 1)"
proof -
  let ?mg = "mg_send (pc_active_redirection conf) (sd_blocking sd) (sd_importer sd) (ps_migration_map st) (cx_slot ctx)"
  obtain effs res where out: "?mg = (effs, res)" by (cases ?mg)
  from stage_ok_mg_send [of "pc_active_redirection conf" "sd_blocking sd" "sd_importer sd" "ps_migration_map st" "cx_slot ctx"]
  have ok: "stage_ok (effs, res)" by (simp only: out)
  from mg_send_errors [of "pc_active_redirection conf" "sd_blocking sd" "sd_importer sd" "ps_migration_map st" "cx_slot ctx"]
  consider "res = None \<or> res = Some MissingKey" | "res = Some Retry"
    | hint where "res = Some (SlotNotFound hint)" | slot addr where "res = Some (ActiveRedirection slot addr)"
    unfolding out snd_conv by blast
  then show ?thesis
  proof cases
    case 1
    with ok have "send_cmd_ctx h conf sd st ctx = Some (effs, False)" "n_settled effs = 1"
      by (auto simp: send_cmd_ctx_def out stage_ok_def)
    then show ?thesis by auto
  next
    case 2
    with ok have "send_cmd_ctx h conf sd st ctx = Some (effs, True)" "n_settled effs = 0"
      by (auto simp: send_cmd_ctx_def out stage_ok_def)
    then show ?thesis by auto
  next
    case 3
    from send_to_cluster_map_settled [OF assms, of h conf sd "ps_cluster_map st" hint]
    obtain effs' retry where "send_to_cluster_map h conf sd (ps_cluster_map st) ctx hint = Some (effs', retry)"
      "n_settled effs' = (if retry then 0 else 1)" by blast
    with 3 ok have "send_cmd_ctx h conf sd st ctx = Some (effs @ effs', retry)" "n_settled (effs @ effs') = (if retry then 0 else 1)"
      by (auto simp: send_cmd_ctx_def out stage_ok_def)
    then show ?thesis by blast
  next
    case 4
    from send_directly_settled [OF assms, of h conf sd "ps_cluster_map st" slot addr]
    obtain effs' where "send_cmd_ctx_to_remote_directly h conf sd (ps_cluster_map st) ctx slot addr = Some effs'"
      "n_settled effs' = 1" by blast
    with 4 ok have "send_cmd_ctx h conf sd st ctx = Some (effs @ effs', False)" "n_settled (effs @ effs') = 1"
      by (auto simp: send_cmd_ctx_def out stage_ok_def)
    then show ?thesis by auto
  qed
qed

lemma send_attempts_settled:
  assumes "ctx_ok ctx" "i + n = MAX_RETRY_NUM" "n \<noteq> 0"
  shows "\<exists>effs. send_attempts h conf env ctx i n = Some effs \<and> n_settled effs = 1"
  using assms(2,3)
proof (induction n arbitrary: i)
  case (Suc n)
  from send_cmd_ctx_settled [OF assms(1), of h conf "fst (env i)" "snd (env i)"]
  obtain effs retry where e: "send_cmd_ctx h conf (fst (env i)) (snd (env i)) ctx = Some (effs, retry)"
    "n_settled effs = (if retry then 0 else 1)" by blast
  show ?case
  proof (cases "retry \<and> i + 1 \<noteq> MAX_RETRY_NUM")
    case True
    with Suc.prems have "n \<noteq> 0" by auto
    with Suc.IH [of "i + 1"] Suc.prems True e show ?thesis by auto
  qed (use e in \<open>cases retry; auto\<close>)
qed simp



subsection \<open>Redirections between proxies\<close>

text \<open>
  A command that is passed on from proxy to proxy: each proxy of the list, in whatever state
  it is, hands it to the next one, which unwraps it.
\<close>

inductive hops :: "hash_lib \<Rightarrow> proxy_config list \<Rightarrow> cmd_ctx \<Rightarrow> cmd_ctx \<Rightarrow> bool" where
  hops_Nil: "hops h [] ctx ctx"
| hops_Cons: "loop_send_cmd_ctx h conf env ctx = Some effs \<Longrightarrow> ToPeer addr request r \<in> set effs \<Longrightarrow>
    command_new h request = Some cmd \<Longrightarrow> receive_umforward h cmd = Some (Inr ctx') \<Longrightarrow> hops h confs ctx' ctx'' \<Longrightarrow>
    hops h (conf # confs) ctx ctx''"

inductive_simps hops_Nil_iff: "hops h [] ctx ctx'"
inductive_cases hops_ConsE: "hops h (conf # confs) ctx ctx'"

definition no_peer :: "effect list \<Rightarrow> bool" where
  "no_peer effs \<longleftrightarrow> (\<forall>a q r. ToPeer a q r \<notin> set effs)"

lemma no_peer_mg_send: "no_peer (fst (mg_send act blocking importer mg task_slot))"
  by (auto simp: no_peer_def mg_send_def mg_send_helper_def migrating_send_def importing_send_def
      handle_redirection_def split: option.split migration_state.split prod.split)

lemma no_peer_cluster_send: "no_peer (fst (cluster_send node_sender cb task_slot hint))"
  by (cases rule: cluster_send_cases [of node_sender cb task_slot hint])
    (auto simp: no_peer_def local_send_def send_remote_def Let_def split: option.split)

lemma directly_forwards:
  assumes "send_cmd_ctx_to_remote_directly h conf sd cb ctx slot addr = Some effs" "ToPeer a q r \<in> set effs"
  shows "forward_request h (pc_max_redirections conf) ctx = Some (Inr q)"
proof -
  from assms(1) obtain fwd where fwd: "forward_request h (pc_max_redirections conf) ctx = Some fwd"
    by (auto simp: send_cmd_ctx_to_remote_directly_def)
  show ?thesis
  proof (cases fwd)
    case (Inr request)
    with assms fwd show ?thesis
      by (cases "sd_peer sd addr") (auto simp: send_cmd_ctx_to_remote_directly_def send_remote_directly_def
          from_sender_result_def Let_def split: option.splits if_splits)
  qed (use assms fwd in \<open>auto simp: send_cmd_ctx_to_remote_directly_def\<close>)
qed

lemma cluster_map_forwards:
  assumes "send_to_cluster_map h conf sd cb ctx hint = Some (effs, retry)" "ToPeer a q r \<in> set effs"
  shows "forward_request h (pc_max_redirections conf) ctx = Some (Inr q)"
proof -
  obtain effs1 res where out: "cluster_send (sd_node sd) cb (cx_slot ctx) hint = (effs1, res)"
    by (cases "cluster_send (sd_node sd) cb (cx_slot ctx) hint")
  from no_peer_cluster_send [of "sd_node sd" cb "cx_slot ctx" hint] have "ToPeer a q r \<notin> set effs1"
    by (simp add: out no_peer_def)
  with assms show ?thesis
    by (auto simp: send_to_cluster_map_def out split: option.splits send_error.splits intro: directly_forwards)
qed

lemma send_cmd_ctx_forwards:
  assumes "send_cmd_ctx h conf sd st ctx = Some (effs, retry)" "ToPeer a q r \<in> set effs"
  shows "forward_request h (pc_max_redirections conf) ctx = Some (Inr q)"
proof -
  let ?mg = "mg_send (pc_active_redirection conf) (sd_blocking sd) (sd_importer sd) (ps_migration_map st) (cx_slot ctx)"
  obtain effs1 res where out: "?mg = (effs1, res)" by (cases ?mg)
  from no_peer_mg_send [of "pc_active_redirection conf" "sd_blocking sd" "sd_importer sd" "ps_migration_map st" "cx_slot ctx"]
  have "ToPeer a q r \<notin> set effs1" by (simp add: out no_peer_def)
  with assms show ?thesis
    by (auto simp: send_cmd_ctx_def out split: option.splits send_error.splits
        intro: directly_forwards cluster_map_forwards)
qed

lemma send_attempts_forwards:
  "send_attempts h conf env ctx i n = Some effs \<Longrightarrow> ToPeer a q r \<in> set effs \<Longrightarrow>
     forward_request h (pc_max_redirections conf) ctx = Some (Inr q)"
  by (induction n arbitrary: i effs)
    (auto split: option.splits prod.splits bool.splits if_splits intro: send_cmd_ctx_forwards)

text \<open>What the next proxy makes of a wrapped command.\<close>

lemma array_append_front_bulk:
  "fst (array_append_front r pre) \<Longrightarrow>
     \<exists>rs. r = Arr (ArrayOf rs) \<and> snd (array_append_front r pre) = Arr (ArrayOf (map (\<lambda>s. Bulk (Str s)) pre @ rs))"
  by (auto simp: array_append_front_def split: resp.splits array.splits)

lemma forward_request_wraps:
  assumes "pkt_to_resp_vec (cm_request (cx_cmd ctx)) = Some r" "forward_request h mx ctx = Some (Inr q)"
    and "(case cx_redirection_times ctx of Some t \<Rightarrow> Some t | None \<Rightarrow> map_option (\<lambda>n. n - 1) mx) = Some t"
  shows "t > 0 \<and> (\<exists>rs. r = Arr (ArrayOf rs) \<and>
    pkt_to_resp_vec q = Some (Arr (ArrayOf (Bulk (Str ''UMFORWARD'') # Bulk (Str (show_nat (t - 1))) # rs))))"
proof -
  from assms(2,3) obtain c where t: "t \<noteq> 0" "cm_wrap_cmd h (cx_cmd ctx) [''UMFORWARD'', show_nat (t - 1)] = Some (True, c)"
    "q = cm_request c"
    by (auto simp: forward_request_def split: if_splits bool.splits)
  from pkt_edits_refine(3) [OF assms(1), of "[''UMFORWARD'', show_nat (t - 1)]"] t(2,3)
  have "fst (array_append_front r [''UMFORWARD'', show_nat (t - 1)])"
    "pkt_to_resp_vec q = Some (snd (array_append_front r [''UMFORWARD'', show_nat (t - 1)]))"
    by (cases "array_append_front r [''UMFORWARD'', show_nat (t - 1)]";
        auto simp: cm_wrap_cmd_def split: option.splits prod.splits bool.splits)+
  with t(1) show ?thesis using array_append_front_bulk by fastforce
qed

lemma receive_wrapped:
  assumes "pkt_to_resp_vec q = Some (Arr (ArrayOf (Bulk (Str ''UMFORWARD'') # Bulk (Str (show_nat t)) # rs)))"
    and "t < 2 ^ 64" "command_new h q = Some cmd" "receive_umforward h cmd = Some (Inr ctx')"
  shows "cx_redirection_times ctx' = Some t \<and> pkt_to_resp_vec (cm_request (cx_cmd ctx')) = Some (Arr (ArrayOf rs))"
proof -
  from assms(3) have q: "cm_request cmd = q" by (auto simp: command_new_def)
  have el: "pkt_get_array_element q 1 = Some (Some (show_nat t))"
    by (simp add: pkt_element_refines(2) [OF assms(1)] get_command_element_def)
  from pkt_edits_refine(2) [OF assms(1), of 2] obtain p where p: "left_trim_cmd q 2 = Some (Some (length rs), p)"
    "pkt_to_resp_vec p = Some (Arr (ArrayOf rs))"
    by (cases "left_trim_cmd q 2") (auto simp: left_trim_array_def)
  from ci_new_total [OF p(2)] obtain info where info: "ci_new h p = Some info" by blast
  have parse: "parse_u64 (show_nat t) = Some t" using assms(2) by (rule parse_u64_show)
  have "receive_umforward h cmd =
      (if utf8_valid (show_nat t) then
         Some (if length rs > 0 then Inr \<lparr>cx_cmd = \<lparr>cm_request = p, cm_info = info\<rparr>, cx_redirection_times = Some t\<rparr>
               else Inl (Error ''missing forwarded command''))
       else Some (Inl (Error ''Invalid sub command'')))"
    by (simp add: receive_umforward_def q el cm_extract_inner_cmd_def p(1) info parse del: parse_u64_show One_nat_def)
  with assms(4) p(2) show ?thesis by (auto split: if_splits)
qed

lemma hops_counted:
  "hops h confs ctx ctx' \<Longrightarrow> pkt_to_resp_vec (cm_request (cx_cmd ctx)) = Some r \<Longrightarrow>
     cx_redirection_times ctx = Some t \<Longrightarrow> t < 2 ^ 64 \<Longrightarrow>
     length confs \<le> t \<and> cx_redirection_times ctx' = Some (t - length confs) \<and>
     pkt_to_resp_vec (cm_request (cx_cmd ctx')) = Some r"
proof (induction arbitrary: t rule: hops.induct)
  case (hops_Cons h conf env ctx effs addr request r' cmd ctx' confs ctx'')
  have fwd: "forward_request h (pc_max_redirections conf) ctx = Some (Inr request)"
    using send_attempts_forwards hops_Cons.hyps(1,2) unfolding loop_send_cmd_ctx_def by blast
  from forward_request_wraps [OF hops_Cons.prems(1) fwd, of t] hops_Cons.prems(2)
  obtain rs where rs: "t > 0" "r = Arr (ArrayOf rs)"
    "pkt_to_resp_vec request = Some (Arr (ArrayOf (Bulk (Str ''UMFORWARD'') # Bulk (Str (show_nat (t - 1))) # rs)))"
    by auto
  have t: "t - 1 < 2 ^ 64" using hops_Cons.prems(3) by linarith
  from receive_wrapped [OF rs(3) t hops_Cons.hyps(3,4)]
  have "length confs \<le> t - 1 \<and> cx_redirection_times ctx'' = Some (t - 1 - length confs) \<and>
      pkt_to_resp_vec (cm_request (cx_cmd ctx'')) = Some r"
    using t unfolding rs(2) by (intro hops_Cons.IH [unfolded rs(2)]) simp_all
  with rs(1) show ?case by auto
qed simp


subsection \<open>Replacing the tasks\<close>

definition fresh_task :: "migration_task_meta \<Rightarrow> mgr_task option" where
  "fresh_task m =
     (case sr_tag (mt_slot_range m) of
        Migrating meta \<Rightarrow> mgr_task_new MigratingSide (mt_slot_range m) meta
      | Importing meta \<Rightarrow> mgr_task_new ImportingSide (mt_slot_range m) meta
      | TagNone \<Rightarrow> None)"

text \<open>What the tasks are to be after new metadata: the running ones are kept, others created.\<close>

definition task_spec :: "migration_map \<Rightarrow> cluster_name \<Rightarrow> slot_range list \<Rightarrow> migration_task_meta \<Rightarrow> mgr_task option" where
  "task_spec old name ranges m =
     (if mt_cluster_name m = name \<and> mt_slot_range m \<in> set ranges \<and> \<not> tag_is_stable (sr_tag (mt_slot_range m))
      then (case hm_get (mg_tasks old) m of Some t \<Rightarrow> Some t | None \<Rightarrow> fresh_task m)
      else None)"

lemma keep_old_tasks:
  "hm_get (fold (keep_old_task name old) ranges tasks) m =
     (if mt_cluster_name m = name \<and> mt_slot_range m \<in> set ranges \<and> \<not> tag_is_stable (sr_tag (mt_slot_range m)) \<and>
         hm_get old m \<noteq> None
      then hm_get old m else hm_get tasks m)"
proof (induction ranges arbitrary: tasks)
  case (Cons r rs)
  have "hm_get (keep_old_task name old r tasks) m =
      (if mt_cluster_name m = name \<and> mt_slot_range m = r \<and> \<not> tag_is_stable (sr_tag (mt_slot_range m)) \<and> hm_get old m \<noteq> None
       then hm_get old m else hm_get tasks m)"
    by (cases m) (auto simp: keep_old_task_def Let_def split: option.split)
  with Cons.IH show ?case by auto
qed simp

lemma add_new_task_alt:
  "add_new_task name r (tasks, new) =
     (let m = \<lparr>mt_cluster_name = name, mt_slot_range = r\<rparr> in
      if tag_is_stable (sr_tag r) \<or> hm_get tasks m \<noteq> None then Some (tasks, new)
      else map_option (\<lambda>t. (hm_insert m t tasks, new @ [m])) (fresh_task m))"
  by (cases "sr_tag r") (simp_all add: add_new_task_def fresh_task_def hm_contains_key_def Let_def)

lemma add_new_tasks_get:
  "add_new_tasks name ranges (tasks, new) = Some (tasks', new') \<Longrightarrow>
     hm_get tasks' m =
       (if hm_get tasks m = None \<and> mt_cluster_name m = name \<and> mt_slot_range m \<in> set ranges
        then fresh_task m else hm_get tasks m)"
proof (induction ranges arbitrary: tasks new)
  case (Cons r rs)
  let ?r = "\<lparr>mt_cluster_name = name, mt_slot_range = r\<rparr>"
  from Cons.prems obtain tasks1 new1 where step: "add_new_task name r (tasks, new) = Some (tasks1, new1)"
    and rest: "add_new_tasks name rs (tasks1, new1) = Some (tasks', new')"
    by (cases "add_new_task name r (tasks, new)") auto
  obtain n sr where m: "m = \<lparr>mt_cluster_name = n, mt_slot_range = sr\<rparr>" by (cases m) auto
  show ?case
  proof (cases "tag_is_stable (sr_tag r) \<or> hm_get tasks ?r \<noteq> None")
    case True
    with step have "tasks1 = tasks" by (auto simp: add_new_task_alt Let_def)
    moreover from True have "hm_get tasks ?r = None \<Longrightarrow> fresh_task ?r = None"
      by (auto simp: fresh_task_def split: slot_range_tag.split)
    ultimately show ?thesis using Cons.IH [OF rest] by (auto simp: m)
  next
    case False
    with step obtain t where t: "fresh_task ?r = Some t" "tasks1 = hm_insert ?r t tasks"
      by (auto simp: add_new_task_alt Let_def)
    with Cons.IH [OF rest] False show ?thesis by (cases "n = name \<and> sr = r") (auto simp: m)
  qed
qed simp


subsection \<open>Properties of a proxy\<close>

definition example_hash :: hash_lib where
  "example_hash = \<lparr>crc16_xmodem = (\<lambda>_. 100), crc16_arc = (\<lambda>_. 7), crc64_hash = (\<lambda>_. 255)\<rparr>"

definition example_conf :: proxy_config where
  "example_conf =
     \<lparr>pc_announce_address = ''h1:5299'', pc_announce_host = ''h1'', pc_active_redirection = True,
      pc_max_redirections = Some 2, pc_default_redirection_address = None, pc_nodes_version = V2\<rparr>"

definition example_senders :: senders where
  "example_senders =
     \<lparr>sd_node = (\<lambda>_ _. SenderOk), sd_peer = (\<lambda>_. SenderOk), sd_importer = SenderOk, sd_blocking = (\<lambda>_. (False, 0))\<rparr>"

definition example_proxy :: proxy_state where
  "example_proxy =
     \<lparr>ps_epoch = 7, ps_cluster_map = from_cluster_map example_meta True, ps_migration_map = migration_map_empty\<rparr>"

definition example_request :: "resp_vec" where
  "example_request = Arr (ArrayOf [Bulk (Str ''GET''), Bulk (Str ''k'')])"

definition example_ctx :: cmd_ctx where
  "example_ctx =
     \<lparr>cx_cmd = \<lparr>cm_request = Data example_request,
        cm_info = \<lparr>ci_cmd_type = OthersCmd, ci_data_cmd_type = Get, ci_slot = Some 100\<rparr>\<rparr>,
      cx_redirection_times = None\<rparr>"

text \<open>
  (C10) Whatever the metadata of a proxy are at each attempt and however its senders behave, the
  handling of a command that was received ends, and the command is settled exactly once: it
  is answered, dropped with an error, or taken over by the sender of a node, of another proxy
  or by an importing task.
\<close>

theorem command_is_settled_once:
  assumes "pkt_to_resp_vec (cm_request (cx_cmd ctx)) \<noteq> None"
  shows "\<exists>effs. loop_send_cmd_ctx h conf env ctx = Some effs \<and> length (filter settles effs) = 1"
  using send_attempts_settled [of ctx 0 MAX_RETRY_NUM h conf env] assms
  by (simp add: loop_send_cmd_ctx_def ctx_ok_def n_settled_def MAX_RETRY_NUM_def)

theorem command_is_settled_once_witness:
  "pkt_to_resp_vec (cm_request (cx_cmd example_ctx)) \<noteq> None \<and>
   (\<exists>effs. loop_send_cmd_ctx example_hash example_conf (\<lambda>_. (example_senders, example_proxy)) example_ctx = Some effs \<and>
      length (filter settles effs) = 1)"
  using command_is_settled_once [of example_ctx example_hash example_conf "\<lambda>_. (example_senders, example_proxy)"]
  by (simp add: example_ctx_def)

lemma example_request_info:
  "ci_new example_hash (Data (Arr (ArrayOf [Bulk (Str ''GET''), Bulk (Str ''k'')]))) =
     Some \<lparr>ci_cmd_type = OthersCmd, ci_data_cmd_type = Get, ci_slot = Some 100\<rparr>"
  by (simp add: ci_new_def cmd_type_from_packet_def data_cmd_type_from_packet_def ci_get_key_def get_command_element_def
      cmd_type_from_cmd_name_def data_cmd_type_from_cmd_name_def upper_cmd_name_def MAX_COMMAND_NAME_LENGTH_def
      byte_to_uppercase_def cmd_type_table_def data_cmd_type_table_def generate_slot_def example_hash_def SLOT_NUM_def)

lemma example_hop:
  "hops example_hash [example_conf] example_ctx
     (example_ctx\<lparr>cx_redirection_times := Some 0\<rparr>)"
proof -
  have "slot_map_get (slot_map_from_ranges (pm_local example_meta)) 100 = None"
    "slot_map_get (slot_map_from_ranges (pm_peer example_meta)) 100 = Some ''h2:5299''"
    by (subst slot_map_last_owner;
        simp add: hm_defs example_meta_def pm_new_def SLOT_NUM_def slot_owner_def sr_slots_def set_range_slots)+
  note routes = this
  let ?q = "Data (Arr (ArrayOf [Bulk (Str ''UMFORWARD''), Bulk (Str ''0''), Bulk (Str ''GET''), Bulk (Str ''k'')]))"
  have zero: "show_nat 0 = ''0''" by (simp add: show_nat.simps char_of_def bit_Suc_0_iff)
  have fwd: "forward_request example_hash (Some 2) example_ctx = Some (Inr ?q)"
    by (simp add: forward_request_def example_ctx_def example_request_def cm_wrap_cmd_def array_append_front_def
        ci_new_def cmd_type_from_packet_def data_cmd_type_from_packet_def ci_get_key_def get_command_element_def zero)
  have "loop_send_cmd_ctx example_hash example_conf (\<lambda>_. (example_senders, example_proxy)) example_ctx =
      Some [ToPeer ''h2:5299'' ?q SenderOk]"
    using fwd
    by (simp add: loop_send_cmd_ctx_def MAX_RETRY_NUM_def numeral_3_eq_3 send_cmd_ctx_def mg_send_def example_proxy_def
        migration_map_empty_def send_to_cluster_map_def cluster_send_def local_send_def from_cluster_map_def
        local_from_slot_map_def remote_from_slot_map_def routes send_remote_def cx_slot_def example_ctx_def
        send_cmd_ctx_to_remote_directly_def send_remote_directly_def example_conf_def example_senders_def
        from_sender_result_def) (simp add: example_meta_def pm_new_def hm_keys_def)
  moreover obtain info where info: "ci_new example_hash ?q = Some info"
    using ci_new_total [of ?q "Arr (ArrayOf [Bulk (Str ''UMFORWARD''), Bulk (Str ''0''), Bulk (Str ''GET''), Bulk (Str ''k'')])"]
    by auto
  moreover have "parse_u64 (to_uppercase ''0'') = Some 0"
    by (simp add: to_uppercase_def ascii_upper_def parse_u64_def digit_val_def)
  then have "receive_umforward example_hash \<lparr>cm_request = ?q, cm_info = info\<rparr> =
      Some (Inr (example_ctx\<lparr>cx_redirection_times := Some 0\<rparr>))"
    by (simp add: receive_umforward_def get_command_element_def cm_extract_inner_cmd_def left_trim_array_def
        example_ctx_def example_request_def example_request_info byte_in_def)
  ultimately show ?thesis
    by (intro hops_Cons [where env = "\<lambda>_. (example_senders, example_proxy)" and request = ?q] hops_Nil)
      (auto simp: command_new_def hops_Nil)
qed


text \<open>
  (C18) Redirections are bounded: a command that a proxy with a limit of \<open>n\<close> redirections
  starts to pass on goes through at most \<open>n - 1\<close> proxies, whatever their metadata are; each
  of them receives the words of the original command, with one redirection less to go.
\<close>

theorem redirections_are_bounded:
  assumes "pkt_to_resp_vec (cm_request (cx_cmd ctx)) = Some r" "cx_redirection_times ctx = None"
    and "pc_max_redirections conf = Some n" "n < 2 ^ 64" "hops h (conf # confs) ctx ctx'"
  shows "Suc (length confs) \<le> n - 1 \<and> cx_redirection_times ctx' = Some (n - 1 - Suc (length confs)) \<and>
    pkt_to_resp_vec (cm_request (cx_cmd ctx')) = Some r"
proof -
  from assms(5) obtain env effs addr request r' cmd ctx1 where 1: "loop_send_cmd_ctx h conf env ctx = Some effs"
    "ToPeer addr request r' \<in> set effs" "command_new h request = Some cmd" "receive_umforward h cmd = Some (Inr ctx1)"
    "hops h confs ctx1 ctx'" by (rule hops_ConsE)
  have fwd: "forward_request h (pc_max_redirections conf) ctx = Some (Inr request)"
    using send_attempts_forwards 1(1,2) unfolding loop_send_cmd_ctx_def by blast
  from forward_request_wraps [OF assms(1) fwd, of "n - 1"] assms(2,3)
  obtain rs where rs: "n - 1 > 0" "r = Arr (ArrayOf rs)"
    "pkt_to_resp_vec request = Some (Arr (ArrayOf (Bulk (Str ''UMFORWARD'') # Bulk (Str (show_nat (n - 1 - 1))) # rs)))"
    by auto
  have n: "n - 1 - 1 < 2 ^ 64" using assms(4) by linarith
  from receive_wrapped [OF rs(3) n 1(3,4)]
  have ctx1: "cx_redirection_times ctx1 = Some (n - 1 - 1)"
    "pkt_to_resp_vec (cm_request (cx_cmd ctx1)) = Some r" by (simp_all add: rs(2))
  from hops_counted [OF 1(5) ctx1(2,1) n] rs(1) show ?thesis by auto
qed

theorem redirections_are_bounded_witness:
  "Suc (length ([] :: proxy_config list)) \<le> 2 - 1 \<and>
   cx_redirection_times (example_ctx\<lparr>cx_redirection_times := Some 0\<rparr>) = Some (2 - 1 - Suc (length ([] :: proxy_config list))) \<and>
   pkt_to_resp_vec (cm_request (cx_cmd (example_ctx\<lparr>cx_redirection_times := Some 0\<rparr>))) = Some example_request"
  by (rule redirections_are_bounded [OF _ _ _ _ example_hop]) (simp_all add: example_ctx_def example_conf_def)

text \<open>
  (C19) New metadata is accepted only when it is for the host of the proxy and newer than what
  the proxy has, unless it is forced; otherwise nothing changes. Once accepted, routing and
  epoch come from it, and the migration tasks are exactly those it names: a task that was
  already there is kept in its state, a new one starts in the first state.
\<close>

theorem accepted_metadata_replaces_tasks:
  assumes "set_meta conf m st = Some (res, st')"
  shows "case res of
      Inl NotMyMeta \<Rightarrow> st' = st \<and> \<not> check_hosts (pm_local m) (pc_announce_host conf)
    | Inl OldEpoch \<Rightarrow> st' = st \<and> pm_epoch m \<le> ps_epoch st \<and> \<not> cf_force (pm_flags m)
    | Inl TryAgain \<Rightarrow> False
    | Inr new_tasks \<Rightarrow>
        check_hosts (pm_local m) (pc_announce_host conf) \<and> (ps_epoch st < pm_epoch m \<or> cf_force (pm_flags m)) \<and>
        ps_epoch st' = pm_epoch m \<and> ps_cluster_map st' = from_cluster_map m (pc_active_redirection conf) \<and>
        mg_cluster_name (ps_migration_map st') = pm_cluster_name m \<and>
        (\<forall>k. hm_get (mg_tasks (ps_migration_map st')) k =
          task_spec (ps_migration_map st) (pm_cluster_name m) (concat (hm_values (pm_local m))) k)"
proof (cases "check_hosts (pm_local m) (pc_announce_host conf) \<and> (ps_epoch st < pm_epoch m \<or> cf_force (pm_flags m))")
  case True
  with assms obtain mg new where new: "update_from_old_task_map (ps_migration_map st) (pm_cluster_name m) (pm_local m) = Some (mg, new)"
    "res = Inr new" "st' = \<lparr>ps_epoch = pm_epoch m, ps_cluster_map = from_cluster_map m (pc_active_redirection conf), ps_migration_map = mg\<rparr>"
    by (auto simp: set_meta_def not_le split: if_splits)
  let ?rs = "concat (hm_values (pm_local m))"
  from new(1) obtain tasks where tasks:
    "add_new_tasks (pm_cluster_name m) ?rs (fold (keep_old_task (pm_cluster_name m) (mg_tasks (ps_migration_map st))) ?rs [], []) = Some (tasks, new)"
    "mg = \<lparr>mg_empty = (tasks = []), mg_cluster_name = pm_cluster_name m, mg_tasks = tasks\<rparr>"
    by (auto simp: update_from_old_task_map_def Let_def)
  have "hm_get tasks k = task_spec (ps_migration_map st) (pm_cluster_name m) ?rs k" for k
    unfolding add_new_tasks_get [OF tasks(1)] keep_old_tasks task_spec_def
    by (auto simp: fresh_task_def split: option.splits slot_range_tag.splits)
  with True show ?thesis by (simp add: new tasks(2))
next
  case False
  with assms show ?thesis by (auto simp: set_meta_def not_less split: if_splits)
qed

theorem accepted_metadata_replaces_tasks_witness:
  "set_meta example_conf example_meta proxy_state_new = Some (Inr [], example_proxy\<lparr>ps_migration_map :=
       \<lparr>mg_empty = True, mg_cluster_name = ''db'', mg_tasks = []\<rparr>\<rparr>) \<and>
   hm_get (mg_tasks (ps_migration_map (example_proxy\<lparr>ps_migration_map :=
       \<lparr>mg_empty = True, mg_cluster_name = ''db'', mg_tasks = []\<rparr>\<rparr>))) (\<lparr>mt_cluster_name = ''db'',
       mt_slot_range = \<lparr>sr_range_list = [(0, 99)], sr_tag = TagNone\<rparr>\<rparr>) = None"
proof -
  have "set_meta example_conf example_meta proxy_state_new = Some (Inr [], example_proxy\<lparr>ps_migration_map :=
       \<lparr>mg_empty = True, mg_cluster_name = ''db'', mg_tasks = []\<rparr>\<rparr>)"
    by (simp add: set_meta_def check_hosts_def hm_keys_def hm_values_def example_proxy_def example_conf_def proxy_state_new_def
        example_meta_def pm_new_def extract_host_from_address_def update_from_old_task_map_def keep_old_task_def
        add_new_task_def migration_map_empty_def)
  from this accepted_metadata_replaces_tasks [OF this] show ?thesis
    by (simp add: task_spec_def example_meta_def pm_new_def)
qed

end
