(* ===== verification/UM_System.thy ===== *)
theory UM_System
  imports UM_Proxy UM_Safety
begin

section \<open>Broker, coordinator and proxies together\<close>

text \<open>
  The way of the metadata through the system: the broker answers a coordinator with the view
  of a proxy, the coordinator turns it into a SETCLUSTER command, the proxy parses and accepts
  it and routes commands by it. The lemmas show what the metadata of all proxies of a cluster
  have in common: every slot is served by one proxy, all others point to that proxy, a slot
  under way is passed between the two sides of its migration only, and CLUSTER SLOTS covers
  every slot once on every proxy.
\<close>


subsection \<open>Views of a cluster\<close>

lemma in_sr_slots: "slot \<in> set (sr_slots srs) \<longleftrightarrow> (\<exists>sr \<in> set srs. slot \<in> set (rl_slots (sr_range_list sr)))"
  by (induction srs) (auto simp: sr_slots_def)

text \<open>What the routing relies on.\<close>

definition has_mirror :: "node list \<Rightarrow> slot_range \<Rightarrow> bool" where
  "has_mirror ns sr \<longleftrightarrow>
     (\<exists>n' \<in> set ns. \<exists>sr' \<in> set (nd_slots n'). meta_eq sr sr' \<and> sr_tag sr' \<noteq> TagNone \<and>
        tag_is_migrating (sr_tag sr') = (\<not> tag_is_migrating (sr_tag sr)))"

definition view_ok :: "cluster \<Rightarrow> bool" where
  "view_ok cl \<longleftrightarrow>
     nodes_owned (cl_nodes cl) = all_slots \<and>
     (\<forall>n \<in> set (cl_nodes cl). nd_role n = Replica \<longrightarrow> nd_slots n = []) \<and>
     (\<forall>n \<in> set (cl_nodes cl). \<forall>sr \<in> set (nd_slots n).
        rl_inv (sr_range_list sr) \<and> tag_names (sr_tag sr) n \<and> (sr_tag sr \<noteq> TagNone \<longrightarrow> has_mirror (cl_nodes cl) sr)) \<and>
     distinct (map (\<lambda>n. (nd_proxy_address n, nd_address n)) (cl_nodes cl)) \<and>
     distinct (remdups_adj (map nd_proxy_address (cl_nodes cl)))"

lemma view_okD:
  assumes "view_ok cl"
  shows "nodes_owned (cl_nodes cl) = all_slots"
    and "n \<in> set (cl_nodes cl) \<Longrightarrow> nd_role n = Replica \<Longrightarrow> nd_slots n = []"
    and "n \<in> set (cl_nodes cl) \<Longrightarrow> sr \<in> set (nd_slots n) \<Longrightarrow> rl_inv (sr_range_list sr)"
    and "n \<in> set (cl_nodes cl) \<Longrightarrow> sr \<in> set (nd_slots n) \<Longrightarrow> tag_names (sr_tag sr) n"
    and "n \<in> set (cl_nodes cl) \<Longrightarrow> sr \<in> set (nd_slots n) \<Longrightarrow> sr_tag sr \<noteq> TagNone \<Longrightarrow> has_mirror (cl_nodes cl) sr"
    and "distinct (map (\<lambda>n. (nd_proxy_address n, nd_address n)) (cl_nodes cl))"
    and "distinct (remdups_adj (map nd_proxy_address (cl_nodes cl)))"
  using assms by (auto simp: view_ok_def)

text \<open>A slot is owned by one range of one node.\<close>

lemma sum_list_two:
  fixes f :: "'a \<Rightarrow> nat"
  shows "x \<in> set xs \<Longrightarrow> y \<in> set xs \<Longrightarrow> x \<noteq> y \<Longrightarrow> f x + f y \<le> sum_list (map f xs)"
proof (induction xs)
  case (Cons z xs)
  have "f w \<le> sum_list (map f xs)" if "w \<in> set xs" for w
    using that by (induction xs) auto
  with Cons show ?case by (auto simp: add.commute)
qed simp

lemma count_sum_list: "count (sum_list (map f xs)) x = sum_list (map (\<lambda>y. count (f y) x) xs)"
  by (induction xs) auto

lemma owned_once:
  assumes "view_ok cl" "n \<in> set (cl_nodes cl)" "sr \<in> set (nd_slots n)" "\<not> tag_is_importing (sr_tag sr)"
    "n' \<in> set (cl_nodes cl)" "sr' \<in> set (nd_slots n')" "\<not> tag_is_importing (sr_tag sr')"
    "slot \<in> set (rl_slots (sr_range_list sr))" "slot \<in> set (rl_slots (sr_range_list sr'))"
  shows "n' = n \<and> sr' = sr"
proof -
  let ?f = "\<lambda>n. sum_list (map (\<lambda>sr. count (sr_owned sr) slot) (nd_slots n))"
  have own: "1 \<le> count (sr_owned r) slot" if "\<not> tag_is_importing (sr_tag r)" "slot \<in> set (rl_slots (sr_range_list r))" for r
    using that by (simp add: sr_owned_def Suc_le_eq)
  have node: "1 \<le> ?f m" if "r \<in> set (nd_slots m)" "\<not> tag_is_importing (sr_tag r)" "slot \<in> set (rl_slots (sr_range_list r))" for m r
    by (rule order.trans [OF own [OF that(2,3)] member_le_sum_list]) (use that(1) in auto)
  have "sum_list (map ?f (cl_nodes cl)) = count all_slots slot"
    unfolding view_okD(1) [OF assms(1), symmetric] by (simp add: nodes_owned_def count_sum_list)
  then have le: "sum_list (map ?f (cl_nodes cl)) \<le> 1" by (simp add: count_all_slots)
  have n: "n' = n"
    using sum_list_two [OF assms(2,5), of ?f] node [OF assms(3,4,8)] node [OF assms(6,7,9)] le by fastforce
  have "?f n \<le> 1" using le member_le_sum_list [of "?f n" "map ?f (cl_nodes cl)"] assms(2) by auto
  then have "sr' = sr"
    using sum_list_two [OF assms(3) assms(6) [unfolded n], of "\<lambda>sr. count (sr_owned sr) slot"]
      own [OF assms(4,8)] own [OF assms(7,9)] by fastforce
  with n show ?thesis by simp
qed

lemma slot_owned:
  assumes "view_ok cl" "slot < SLOT_NUM"
  obtains n sr where "n \<in> set (cl_nodes cl)" "sr \<in> set (nd_slots n)" "\<not> tag_is_importing (sr_tag sr)"
    "slot \<in> set (rl_slots (sr_range_list sr))"
proof -
  have "slot \<in># nodes_owned (cl_nodes cl)"
    using assms view_okD(1) [OF assms(1)] count_all_slots [of slot] by (simp add: count_greater_zero_iff [symmetric] del: count_greater_zero_iff)
  then have "slot \<in> (\<Union>n \<in> set (cl_nodes cl). \<Union>sr \<in> set (nd_slots n). set_mset (sr_owned sr))"
    unfolding nodes_owned_def set_mset_sum_list by auto
  then show thesis using that by (auto simp: sr_owned_def split: if_splits)
qed

text \<open>All ranges with a slot that is not moving: the one stable range.\<close>

lemma stable_slot_once:
  assumes "view_ok cl" "n \<in> set (cl_nodes cl)" "sr \<in> set (nd_slots n)" "sr_tag sr = TagNone"
    "slot \<in> set (rl_slots (sr_range_list sr))"
    "n' \<in> set (cl_nodes cl)" "sr' \<in> set (nd_slots n')" "slot \<in> set (rl_slots (sr_range_list sr'))"
  shows "n' = n \<and> sr' = sr"
proof (cases "tag_is_importing (sr_tag sr')")
  case True
  then have "sr_tag sr' \<noteq> TagNone" by auto
  with view_okD(5) [OF assms(1,6,7)] True obtain n2 sr2 where 2: "n2 \<in> set (cl_nodes cl)" "sr2 \<in> set (nd_slots n2)"
    "sr_range_list sr' = sr_range_list sr2" "tag_is_migrating (sr_tag sr2)"
    by (cases "sr_tag sr'") (auto simp: has_mirror_def meta_eq_iff)
  with owned_once [OF assms(1-3) _ 2(1,2), of slot] assms(4,5,8) show ?thesis by (cases "sr_tag sr2") auto
qed (use owned_once [OF assms(1-3) _ assms(6,7), of slot] assms(4,5,8) in auto)

text \<open>All ranges with a slot that is moving: the two sides of one migration.\<close>

lemma moving_slot_twice:
  assumes "view_ok cl" "n \<in> set (cl_nodes cl)" "sr \<in> set (nd_slots n)" "sr_tag sr = Migrating m"
    "slot \<in> set (rl_slots (sr_range_list sr))"
    "n' \<in> set (cl_nodes cl)" "sr' \<in> set (nd_slots n')" "slot \<in> set (rl_slots (sr_range_list sr'))"
  shows "n' = n \<and> sr' = sr \<or> sr' = sr\<lparr>sr_tag := Importing m\<rparr>"
proof (cases "tag_is_importing (sr_tag sr')")
  case True
  then have "sr_tag sr' \<noteq> TagNone" by auto
  with view_okD(5) [OF assms(1,6,7)] True obtain n2 sr2 where 2: "n2 \<in> set (cl_nodes cl)" "sr2 \<in> set (nd_slots n2)"
    "meta_eq sr' sr2" "tag_is_migrating (sr_tag sr2)"
    by (cases "sr_tag sr'") (auto simp: has_mirror_def)
  then have "slot \<in> set (rl_slots (sr_range_list sr2))" "\<not> tag_is_importing (sr_tag sr2)"
    using assms(8) by (auto simp: meta_eq_iff split: slot_range_tag.splits) (cases "sr_tag sr2"; simp)
  with owned_once [OF assms(1-3) _ 2(1,2), of slot] assms(4,5) have "sr2 = sr" by simp
  with 2(3) True assms(4) show ?thesis
    by (cases "sr_tag sr'"; cases sr; cases sr') (auto simp: meta_eq_iff)
qed (use owned_once [OF assms(1-3) _ assms(6,7), of slot] assms(4,5,8) in auto)


subsection \<open>The metadata of a proxy\<close>

definition proxy_meta :: "cluster_map_flags \<Rightarrow> cluster \<Rightarrow> address \<Rightarrow> proxy_cluster_meta" where
  "proxy_meta flags cl a = generate_proxy_meta flags (filter_proxy_masters (proxy_view cl a))"

definition masters_at :: "cluster \<Rightarrow> address \<Rightarrow> node list" where
  "masters_at cl a = filter (\<lambda>n. nd_role n = Master \<and> nd_proxy_address n = a) (cl_nodes cl)"

definition masters_elsewhere :: "cluster \<Rightarrow> address \<Rightarrow> node list" where
  "masters_elsewhere cl a = filter (\<lambda>n. nd_role n = Master \<and> nd_proxy_address n \<noteq> a) (cl_nodes cl)"

lemma keys_group_by_adjacent: "map fst (group_by_adjacent f xs) = remdups_adj (map f xs)"
proof (induction f xs rule: group_by_adjacent.induct)
  case (2 f x xs)
  show ?case
  proof (cases xs)
    case (Cons z zs)
    from 2 Cons have ih: "map fst (group_by_adjacent f xs) = remdups_adj (f z # map f zs)" by simp
    then have "group_by_adjacent f xs \<noteq> []" by (metis list.simps(8) list.distinct(1) remdups_adj_Nil_iff)
    then obtain k ys gs where g: "group_by_adjacent f xs = (k, ys) # gs" by (cases "group_by_adjacent f xs") auto
    with ih have k: "k # map fst gs = remdups_adj (f z # map f zs)" by simp
    then have "k = f z" by (metis list.sel(1) hd_remdups_adj)
    with g k Cons show ?thesis by (simp del: group_by_adjacent.simps add: group_by_adjacent.simps(2) [of f x])
  qed simp
qed simp

lemma concat_group_by_adjacent: "concat (map snd (group_by_adjacent f xs)) = xs"
  by (induction f xs rule: group_by_adjacent.induct) (auto split: list.splits)

lemma group_by_adjacent_key:
  "(k, ys) \<in> set (group_by_adjacent f xs) \<Longrightarrow> y \<in> set ys \<Longrightarrow> f y = k \<and> y \<in> set xs"
proof (induction f xs arbitrary: k ys rule: group_by_adjacent.induct)
  case (2 f x xs)
  show ?case
  proof (cases "group_by_adjacent f xs")
    case Nil
    with 2 show ?thesis by auto
  next
    case (Cons g gs)
    obtain k' ys' where g: "g = (k', ys')" by (cases g)
    from "2.IH" [of k' ys'] have "y \<in> set ys' \<Longrightarrow> f y = k' \<and> y \<in> set xs" by (simp add: Cons g)
    with g Cons "2.prems" "2.IH" [of k ys] show ?thesis by (cases "f x = k'") auto
  qed
qed simp

lemma distinct_remdups_adj_Cons:
  "distinct (remdups_adj (y # ys)) \<longleftrightarrow> distinct (remdups_adj ys) \<and> y \<notin> set (dropWhile (\<lambda>x. x = y) ys)"
proof (induction ys)
  case (Cons z ys)
  then show ?case by (cases "z = y") auto
qed simp

lemma distinct_remdups_adj_filter:
  "distinct (remdups_adj (map f xs)) \<Longrightarrow> distinct (remdups_adj (map f (filter P xs)))"
proof (induction xs)
  case (Cons x xs)
  have sub: "set (dropWhile (\<lambda>z. z = y) (map f (filter P zs))) \<subseteq> set (dropWhile (\<lambda>z. z = y) (map f zs))" for y zs
  proof (induction zs)
    case (Cons z zs)
    have "set (dropWhile (\<lambda>z. z = y) (map f (filter P zs))) \<subseteq> f ` set zs" by (auto dest!: set_dropWhileD)
    with Cons show ?case by auto
  qed simp
  from Cons show ?case by (auto simp: distinct_remdups_adj_Cons dest: subsetD [OF sub])
qed simp

lemma proxy_meta_local:
  assumes "view_ok cl"
  shows "pm_local (proxy_meta flags cl a) = map (\<lambda>n. (nd_address n, nd_slots n)) (masters_at cl a)"
proof -
  have "distinct (map nd_address (filter P ns))"
    if "distinct (map (\<lambda>n. (nd_proxy_address n, nd_address n)) ns)" "\<forall>n. P n \<longrightarrow> nd_proxy_address n = a" for P ns
    using that by (induction ns) (force simp: image_iff)+
  from this [OF view_okD(6) [OF assms], of "\<lambda>n. nd_role n = Master \<and> nd_proxy_address n = a"]
  have "distinct (map nd_address (masters_at cl a))" by (simp add: masters_at_def)
  then have "fold (\<lambda>n. hm_insert (nd_address n) (nd_slots n)) (masters_at cl a) [] = map (\<lambda>n. (nd_address n, nd_slots n)) (masters_at cl a)"
    using fold_hm_insert_map [of "map (\<lambda>n. (nd_address n, nd_slots n)) (masters_at cl a)" "[]" id]
    by (simp add: fold_map comp_def)
  moreover have "filter (\<lambda>n. nd_role n = Master) (filter (\<lambda>n. nd_proxy_address n = a) (cl_nodes cl)) = masters_at cl a"
    by (simp add: masters_at_def conj_commute)
  ultimately show ?thesis
    by (simp add: proxy_meta_def generate_proxy_meta_def pm_new_def filter_proxy_masters_def px_get_nodes_def proxy_view_def
        masters_at_def)
qed

lemma proxy_meta_peer:
  assumes "view_ok cl"
  shows "pm_peer (proxy_meta flags cl a) =
    map (\<lambda>(b, ns). (b, concat (map nd_slots ns))) (group_by_adjacent nd_proxy_address (masters_elsewhere cl a))"
proof -
  let ?g = "group_by_adjacent nd_proxy_address (masters_elsewhere cl a)"
  have "distinct (map fst ?g)"
    unfolding keys_group_by_adjacent masters_elsewhere_def
    by (rule distinct_remdups_adj_filter [OF view_okD(7) [OF assms]])
  then have "fold (\<lambda>(k, ns). hm_insert k (concat (map nd_slots ns))) ?g [] = map (\<lambda>(b, ns). (b, concat (map nd_slots ns))) ?g"
    using fold_hm_insert_map [of ?g "[]" "\<lambda>ns. concat (map nd_slots ns)"] by simp
  then show ?thesis
    by (simp add: proxy_meta_def generate_proxy_meta_def pm_new_def filter_proxy_masters_def proxy_view_def
        cluster_peers_def masters_elsewhere_def fold_map comp_def split_def)
qed

lemma proxy_meta_simps [simp]:
  "pm_epoch (proxy_meta flags cl a) = cl_epoch cl" "pm_flags (proxy_meta flags cl a) = flags"
  "pm_cluster_name (proxy_meta flags cl a) = cl_name cl" "pm_config (proxy_meta flags cl a) = cl_config cl"
  "pm_version (proxy_meta flags cl a) = SET_CLUSTER_API_VERSION"
  by (simp_all add: proxy_meta_def generate_proxy_meta_def pm_new_def filter_proxy_masters_def proxy_view_def)

lemma in_local:
  assumes "view_ok cl"
  shows "(addr, srs) \<in> set (pm_local (proxy_meta flags cl a)) \<longleftrightarrow>
    (\<exists>n \<in> set (cl_nodes cl). nd_role n = Master \<and> nd_proxy_address n = a \<and> addr = nd_address n \<and> srs = nd_slots n)"
  by (auto simp: proxy_meta_local [OF assms] masters_at_def)

lemma in_peer:
  assumes "view_ok cl"
  shows "(\<exists>srs. (b, srs) \<in> set (pm_peer (proxy_meta flags cl a)) \<and> sr \<in> set srs) \<longleftrightarrow>
    (\<exists>n \<in> set (cl_nodes cl). nd_role n = Master \<and> nd_proxy_address n = b \<and> b \<noteq> a \<and> sr \<in> set (nd_slots n))"
    (is "?l \<longleftrightarrow> ?r")
proof
  assume ?l
  then obtain ns n where ns: "(b, ns) \<in> set (group_by_adjacent nd_proxy_address (masters_elsewhere cl a))" "n \<in> set ns" "sr \<in> set (nd_slots n)"
    by (auto simp: proxy_meta_peer [OF assms])
  from group_by_adjacent_key [OF ns(1,2)] ns(3) show ?r by (auto simp: masters_elsewhere_def)
next
  assume ?r
  then obtain n where n: "n \<in> set (masters_elsewhere cl a)" "nd_proxy_address n = b" "sr \<in> set (nd_slots n)"
    by (auto simp: masters_elsewhere_def)
  from n(1) have "n \<in> set (concat (map snd (group_by_adjacent nd_proxy_address (masters_elsewhere cl a))))"
    by (simp add: concat_group_by_adjacent)
  then obtain k ns where "(k, ns) \<in> set (group_by_adjacent nd_proxy_address (masters_elsewhere cl a))" "n \<in> set ns"
    by auto
  with group_by_adjacent_key [OF this] n(2,3) show ?l
    by (auto simp: proxy_meta_peer [OF assms] intro!: exI [of _ "concat (map nd_slots ns)"] bexI [of _ "(k, ns)"])
qed

lemma proxy_meta_inv:
  assumes "view_ok cl"
  shows "hm_inv (pm_local (proxy_meta flags cl a))" "hm_inv (pm_peer (proxy_meta flags cl a))"
proof -
  have ins: "hm_inv (fold (\<lambda>x. hm_insert (f x) (g x)) xs m)" if "hm_inv m"
    for f :: "'x \<Rightarrow> address" and g :: "'x \<Rightarrow> slot_range list" and xs m
    using that by (induction xs arbitrary: m) auto
  show "hm_inv (pm_local (proxy_meta flags cl a))" "hm_inv (pm_peer (proxy_meta flags cl a))"
    by (simp_all add: proxy_meta_def generate_proxy_meta_def pm_new_def ins)
qed


subsection \<open>Views the broker gives\<close>

lemma limit_loop_frame:
  assumes "\<And>c v. g (c\<lparr>stable_slots := v\<rparr>) = g c" "\<And>c v. g (c\<lparr>migrating_slots := v\<rparr>) = g c"
  shows "limit_loop lim st es = Some st' \<Longrightarrow> map g (lm_chunks st') = map g (lm_chunks st)"
proof (induction es arbitrary: st)
  case (Cons e es)
  then obtain st1 where 1: "limit_step lim st e = Some st1" "limit_loop lim st1 es = Some st'"
    by (cases "limit_step lim st e") auto
  have upd: "map g (xs[i := x]) = map g xs" if "g x = g (xs ! i)" for xs i x
    using that by (cases "i < length xs") (simp_all add: map_update list_update_same_conv list_update_beyond)
  have "map g (lm_chunks st1) = map g (lm_chunks st)"
    using 1(1) by (auto simp: limit_step_def Let_def merge_stable_def push_migrating_def upd assms split: if_splits option.splits)
  with Cons.IH [OF 1(2)] show ?case by simp
qed simp

lemma limit_migration_frame:
  assumes "limit_migration lim c = Some c'"
  shows "map proxy_addresses (cs_chunks c') = map proxy_addresses (cs_chunks c)"
  using assms
  by (auto simp: limit_migration_def comp_def dest!: limit_loop_frame [of proxy_addresses, rotated 2] split: if_splits)

lemma proxies_shown:
  "map nd_proxy_address (shown_nodes chunks) = concat (map (\<lambda>(a, b). [a, a, b, b]) (map proxy_addresses chunks))"
proof -
  have "map nd_proxy_address (concat (map (\<lambda>chunk. map (shown_node cs chunk) [0 ..< 4]) xs)) =
      concat (map (\<lambda>(a, b). [a, a, b, b]) (map proxy_addresses xs))" for cs xs
    by (induction xs) (auto simp: shown_node_def proxy_addr_def upt_rec split: prod.splits)
  then show ?thesis by (simp add: shown_nodes_def)
qed

lemma distinct_pairs_adj:
  "distinct (concat (map (\<lambda>(a, b). [a, b]) ps)) \<Longrightarrow> distinct (remdups_adj (concat (map (\<lambda>(a, b). [a, a, b, b]) ps)))"
proof (induction ps)
  case (Cons p ps)
  obtain a b where p: "p = (a, b)" by (cases p)
  have "set (concat (map (\<lambda>(a, b). [a, a, b, b]) ps)) = set (concat (map (\<lambda>(a, b). [a, b]) ps))" by (induction ps) auto
  with Cons show ?case by (auto simp: p distinct_remdups_adj_Cons simp del: set_concat dest!: set_dropWhileD)
qed simp

lemma broker_view:
  assumes "reach s" "get_cluster_by_name s name lim = Some (Some cl)"
  obtains c c' where "hm_get (clusters s) name = Some c" "limit_migration lim c = Some c'" "cl = shown_cluster c'"
    "slots_inv all_slots (cs_chunks c')" "distinct (map fst (members_of (cs_chunks c)))"
    "\<And>m. m \<in> set (members_of (cs_chunks c)) \<Longrightarrow> member_ok (registry_of s) {Some name} m"
proof -
  from assms(2) obtain c where c: "hm_get (clusters s) name = Some c"
    "map_option Some (limit_migration lim c) = None \<or> (\<exists>c'. limit_migration lim c = Some c' \<and> cluster_store_to_cluster c' = Some cl)"
    by (auto simp: get_cluster_by_name_def get_cluster_store_def cluster_name_try_from_if split: option.splits if_splits)
  have ok: "store_ok s" using reach_ok [OF assms(1)] by blast
  then obtain n where n: "steady n (cs_chunks c)" using c(1) unfolding store_ok_def by blast
  from limit_migration_spec [OF _ uniq_all_slots, of c lim] n obtain c' where
    c': "limit_migration lim c = Some c'" "slots_inv all_slots (cs_chunks c')" by (auto simp: steady_def)
  moreover have "cl = shown_cluster c'"
    using c(2) c' cluster_store_to_cluster_shown [of c'] by (auto simp: slots_inv_def)
  moreover have "consistent (registry_of s)" using ok by (simp add: store_ok_def registry_ok_def)
  moreover have "reg_members (registry_of s) name = Some (members_of (cs_chunks c))" using c(1) by (simp add: registry_of_def)
  ultimately have "distinct (map fst (members_of (cs_chunks c)))"
    "\<And>m. m \<in> set (members_of (cs_chunks c)) \<Longrightarrow> member_ok (registry_of s) {Some name} m"
    unfolding consistent_def by blast+
  with c' \<open>cl = shown_cluster c'\<close> show thesis using that [OF c(1)] by blast
qed

lemma members_addresses: "map fst (members_of chunks) = concat (map (\<lambda>(a, b). [a, b]) (map proxy_addresses chunks))"
  by (induction chunks) (auto simp: chunk_members_def split: prod.splits)

lemma shown_rl_inv:
  assumes "chunks_ok chunks" "n \<in> set (shown_nodes chunks)" "sr \<in> set (nd_slots n)"
  shows "rl_inv (sr_range_list sr)"
proof -
  from assms(2) obtain k i where k: "k < length chunks" "n = shown_node chunks (chunks ! k) i"
    by (auto simp: set_shown_nodes)
  with assms(3) obtain j where j: "j < 2" "sr \<in> set (part_ranges chunks (chunks ! k) j)"
    using Ex_less_2 [of "\<lambda>j. sr \<in> set (part_ranges chunks (chunks ! k) j)"]
    by (auto simp: shown_node_def node_ranges_def split: if_splits)
  have "stable_ok (part j (stable_slots (chunks ! k)))"
    using assms(1) k(1) j(1) by (auto simp: chunks_ok_def chunk_ok_def)
  moreover have "rl_inv (mr_range_list e)" if "e \<in> set (part j (migrating_slots (chunks ! k)))" for e
    using chunks_ok_part [OF assms(1) k(1) j(1) that] by (simp add: entry_ok_def)
  ultimately show ?thesis
    using j(2) by (cases "part j (stable_slots (chunks ! k))") (auto simp: part_ranges_def entry_slot_range_def)
qed

lemma broker_view_ok:
  assumes "reach s" "get_cluster_by_name s name lim = Some (Some cl)"
    "distinct (map (\<lambda>n. (nd_proxy_address n, nd_address n)) (cl_nodes cl))"
  shows "view_ok cl"
proof -
  from assms(1,2) obtain c c' where c: "limit_migration lim c = Some c'" "cl = shown_cluster c'"
    "slots_inv all_slots (cs_chunks c')" "distinct (map fst (members_of (cs_chunks c)))"
    by (rule broker_view) blast
  let ?cs = "cs_chunks c'"
  have ns: "cl_nodes cl = shown_nodes ?cs" by (simp add: c(2) shown_cluster_def)
  have ok: "chunks_ok ?cs" "mirrored ?cs" "owned ?cs = all_slots" using c(3) by (simp_all add: slots_inv_def)
  have "distinct (remdups_adj (map nd_proxy_address (cl_nodes cl)))"
    unfolding ns proxies_shown limit_migration_frame [OF c(1)] using c(4) by (intro distinct_pairs_adj) (simp add: members_addresses)
  moreover have "nodes_owned (cl_nodes cl) = all_slots" by (simp add: ns nodes_owned_shown [OF ok(1)] ok(3))
  moreover have "nd_slots n = []" if "n \<in> set (cl_nodes cl)" "nd_role n = Replica" for n
    using that by (auto simp: ns set_shown_nodes shown_node_def nd_role_def replica_no_slots)
  moreover have "has_mirror (cl_nodes cl) sr" if "n \<in> set (cl_nodes cl)" "sr \<in> set (nd_slots n)" "sr_tag sr \<noteq> TagNone" for n sr
  proof -
    from shown_mirror [OF ok(2,1)] that obtain n' sr' where m: "n' \<in> set (cl_nodes cl)" "sr' \<in> set (nd_slots n')"
      "meta_eq sr sr'" "tag_is_migrating (sr_tag sr') = (\<not> tag_is_migrating (sr_tag sr))" unfolding ns by blast
    moreover from m(3) that(3) have "sr_tag sr' \<noteq> TagNone" by (cases "sr_tag sr") (auto simp: meta_eq_iff)
    ultimately show ?thesis unfolding has_mirror_def by blast
  qed
  moreover have "tag_names (sr_tag sr) n" if "n \<in> set (cl_nodes cl)" "sr \<in> set (nd_slots n)" for n sr
    using that shown_node_tag_names [OF ok(1)] by (auto simp: ns set_shown_nodes)
  moreover have "rl_inv (sr_range_list sr)" if "n \<in> set (cl_nodes cl)" "sr \<in> set (nd_slots n)" for n sr
    using that shown_rl_inv [OF ok(1)] by (simp add: ns)
  ultimately show ?thesis using assms(3) by (simp add: view_ok_def)
qed

text \<open>The proxy that serves a node of the view is given the same view.\<close>

lemma broker_proxy_view:
  assumes "reach s" "get_cluster_by_name s name lim = Some (Some cl)" "n \<in> set (cl_nodes cl)"
  shows "get_proxy_by_address s (nd_proxy_address n) lim = Some (Some (proxy_view cl (nd_proxy_address n)))"
proof -
  from assms(1,2) obtain c c' where c: "hm_get (clusters s) name = Some c" "limit_migration lim c = Some c'" "cl = shown_cluster c'"
    "slots_inv all_slots (cs_chunks c')"
    and reg: "\<And>m. m \<in> set (members_of (cs_chunks c)) \<Longrightarrow> member_ok (registry_of s) {Some name} m"
    by (rule broker_view) blast
  have "nd_proxy_address n \<in> set (map nd_proxy_address (cl_nodes cl))" using assms(3) by simp
  then have "nd_proxy_address n \<in> set (map fst (members_of (cs_chunks c)))"
    unfolding c(3) shown_cluster_def cluster.simps proxies_shown limit_migration_frame [OF c(2)] members_addresses by fastforce
  then obtain m where m: "m \<in> set (members_of (cs_chunks c))" "fst m = nd_proxy_address n" by auto
  with reg [OF m(1)] obtain pr where "hm_get (all_proxies s) (nd_proxy_address n) = Some pr" "pr_cluster pr = Some name"
    by (auto simp: member_ok_def registry_of_def)
  then show ?thesis
    using c cluster_store_to_cluster_shown [of c']
    by (simp add: get_proxy_by_address_def get_cluster_store_def slots_inv_def)
qed


subsection \<open>Synchronisation of a proxy\<close>

fun cmd_parse_error_debug :: "cmd_parse_error \<Rightarrow> string" where
  "cmd_parse_error_debug CmdInvalidVersion = ''InvalidVersion''"
| "cmd_parse_error_debug CmdInvalidEpoch = ''InvalidEpoch''"
| "cmd_parse_error_debug CmdInvalidClusterName = ''InvalidClusterName''"
| "cmd_parse_error_debug CmdInvalidSlots = ''InvalidSlots''"
| "cmd_parse_error_debug CmdInvalidConfig = ''InvalidConfig''"
| "cmd_parse_error_debug CmdInvalidRole = ''InvalidRole''"
| "cmd_parse_error_debug CmdInvalidArgs = ''InvalidArgs''"

fun meta_error_reply :: "cluster_meta_error \<Rightarrow> string" where
  "meta_error_reply OldEpoch = ''OLD_EPOCH''"
| "meta_error_reply TryAgain = ''TRY_AGAIN''"
| "meta_error_reply NotMyMeta = ''ERR_NOT_MY_META''"

definition handle_umctl_set_cluster ::
  "meta_lib \<Rightarrow> proxy_config \<Rightarrow> resp_vec \<Rightarrow> proxy_state \<Rightarrow> (resp_vec \<times> proxy_state) option" where
  "handle_umctl_set_cluster z conf resp st =
     (case pm_from_resp z resp of
        Inl err \<Rightarrow> Some (Error (''Failed to parse args: '' @ cmd_parse_error_debug err), st)
      | Inr (cluster_meta, extended_ok) \<Rightarrow>
          map_option (\<lambda>(res, st').
              (case res of
                 Inr _ \<Rightarrow> if extended_ok then Simple ''OK'' else Simple ''WARNING: ignored invalid config''
               | Inl err \<Rightarrow> Error (meta_error_reply err), st'))
            (set_meta conf cluster_meta st))"

text \<open>
  The second half of \<open>send_meta_impl\<close>, after SETREPL has been acknowledged: the coordinator
  sends the view of a proxy to it. The reply, unless the command could not be built, and the
  state of the proxy afterwards.
\<close>

definition sync_meta ::
  "meta_lib \<Rightarrow> cluster_map_flags \<Rightarrow> proxy_config \<Rightarrow> proxy \<Rightarrow> proxy_state \<Rightarrow> (resp_vec option \<times> proxy_state) option" where
  "sync_meta z flags conf p st =
     (case generate_proxy_meta_cmd_args z flags (filter_proxy_masters p) of
        Inl _ \<Rightarrow> Some (None, st)
      | Inr args \<Rightarrow>
          map_option (map_prod Some id)
            (handle_umctl_set_cluster z conf
               (Arr (ArrayOf (map (\<lambda>s. Bulk (Str s)) (meta_command ''SETCLUSTER'' args)))) st))"

text \<open>The plain form of the command drops nodes without slots, which makes no difference.\<close>

definition drop_empty :: "node_map \<Rightarrow> node_map" where
  "drop_empty m = filter (\<lambda>e. snd e \<noteq> []) m"

definition as_received :: "proxy_cluster_meta \<Rightarrow> proxy_cluster_meta" where
  "as_received m =
     (if cf_compress (pm_flags m) then m else m\<lparr>pm_local := drop_empty (pm_local m), pm_peer := drop_empty (pm_peer m)\<rparr>)"

lemma nm_to_args_drop_empty: "nm_to_args (drop_empty m) = nm_to_args m"
  by (induction m) (auto simp: nm_to_args_def drop_empty_def)

lemma hm_inv_drop_empty: "hm_inv m \<Longrightarrow> hm_inv (drop_empty m)"
  by (simp add: hm_inv_def hm_keys_def drop_empty_def distinct_map_filter)

lemma values_drop_empty: "concat (hm_values (drop_empty m)) = concat (hm_values m)"
  by (induction m) (auto simp: drop_empty_def hm_values_def)

lemma find_filter: "(\<And>x. x \<in> set xs \<Longrightarrow> P x \<Longrightarrow> Q x) \<Longrightarrow> find P (filter Q xs) = find P xs"
  by (induction xs) auto

lemma slot_owner_drop_empty: "slot_owner (drop_empty m) slot = slot_owner m slot"
proof -
  have "slot \<in> set (sr_slots srs) \<Longrightarrow> srs \<noteq> []" for srs by (auto simp: in_sr_slots)
  then show ?thesis
    unfolding slot_owner_def drop_empty_def rev_filter by (subst find_filter) auto
qed

lemma as_received_simps [simp]:
  "pm_epoch (as_received m) = pm_epoch m" "pm_flags (as_received m) = pm_flags m"
  "pm_cluster_name (as_received m) = pm_cluster_name m" "pm_config (as_received m) = pm_config m"
  "slot_owner (pm_local (as_received m)) slot = slot_owner (pm_local m) slot"
  "slot_owner (pm_peer (as_received m)) slot = slot_owner (pm_peer m) slot"
  "concat (hm_values (pm_local (as_received m))) = concat (hm_values (pm_local m))"
  "concat (hm_values (pm_peer (as_received m))) = concat (hm_values (pm_peer m))"
  "hm_inv (pm_local m) \<Longrightarrow> hm_inv (pm_local (as_received m))"
  "hm_inv (pm_peer m) \<Longrightarrow> hm_inv (pm_peer (as_received m))"
  by (simp_all add: as_received_def slot_owner_drop_empty values_drop_empty hm_inv_drop_empty)

lemma pm_to_args_as_received: "pm_to_args (as_received m) = pm_to_args m"
  by (simp add: pm_to_args_def as_received_def nm_to_args_drop_empty)

definition addresses_ok :: "cluster \<Rightarrow> bool" where
  "addresses_ok cl \<longleftrightarrow> (\<forall>n \<in> set (cl_nodes cl). CHR '':'' \<in> set (nd_address n) \<and> CHR '':'' \<in> set (nd_proxy_address n))"

lemma colon_not_prefix: "CHR '':'' \<in> set s \<Longrightarrow> \<not> is_prefix_token s"
proof -
  assume "CHR '':'' \<in> set s"
  moreover have "ascii_upper (CHR '':'') = CHR '':''" by (simp add: ascii_upper_def)
  ultimately have "CHR '':'' \<in> set (to_uppercase s)" unfolding to_uppercase_def by (metis image_eqI image_set)
  then show ?thesis by (auto simp: is_prefix_token_def PEER_PREFIX_def CONFIG_PREFIX_def)
qed

lemma received_meta:
  assumes "view_ok cl" "addresses_ok cl" "valid_cluster_name (cl_name cl)" "scan_count (cc_migration_config (cl_config cl)) \<noteq> 0"
    "meta_lib_ok z" "generate_proxy_meta_cmd_args z flags (filter_proxy_masters (proxy_view cl a)) = Inr args"
  shows "pm_parse z args = Inr (as_received (proxy_meta flags cl a), True)"
proof (cases "cf_compress flags")
  case True
  then have "pm_to_compressed_args z (proxy_meta flags cl a) = Inr args"
    using assms(6) by (simp add: generate_proxy_meta_cmd_args_def proxy_meta_def Let_def)
  with True assms(5) pm_parse_to_compressed_args [of z "proxy_meta flags cl a" args] show ?thesis
    by (simp add: as_received_def)
next
  case False
  let ?m = "proxy_meta flags cl a"
  have ok: "node_map_ok (drop_empty nm)"
    if "hm_inv nm" "\<And>k srs. (k, srs) \<in> set nm \<Longrightarrow> srs \<noteq> [] \<Longrightarrow> CHR '':'' \<in> set k \<and> (\<forall>sr \<in> set srs. sr_inv sr)" for nm
    unfolding node_map_ok_def using hm_inv_drop_empty [OF that(1)] that(2)
    by (auto simp: drop_empty_def list_all_iff colon_not_prefix)
  have "node_map_ok (drop_empty (pm_local ?m))"
    using assms(1,2) by (intro ok proxy_meta_inv) (auto simp: in_local addresses_ok_def sr_inv_def dest: view_okD(3))
  moreover have "node_map_ok (drop_empty (pm_peer ?m))"
  proof (intro ok proxy_meta_inv assms(1))
    fix k srs assume e: "(k, srs) \<in> set (pm_peer ?m)" "srs \<noteq> []"
    have each: "\<exists>n \<in> set (cl_nodes cl). nd_proxy_address n = k \<and> sr \<in> set (nd_slots n)" if "sr \<in> set srs" for sr
      using in_peer [OF assms(1), of k flags a sr] e that by blast
    moreover from each [of "hd srs"] e(2) assms(2) have "CHR '':'' \<in> set k" by (auto simp: addresses_ok_def)
    ultimately show "CHR '':'' \<in> set k \<and> (\<forall>sr \<in> set srs. sr_inv sr)"
      using view_okD(3) [OF assms(1)] by (fastforce simp: sr_inv_def)
  qed
  ultimately have "pm_ok (as_received ?m)"
    using assms(3,4) False by (simp add: pm_ok_def as_received_def)
  moreover have "args = pm_to_args ?m"
    using assms(6) False by (simp add: generate_proxy_meta_cmd_args_def proxy_meta_def)
  then have "args = pm_to_args (as_received ?m)" by (simp add: pm_to_args_as_received)
  ultimately show ?thesis using pm_parse_to_args [of "as_received ?m" z] False by simp
qed

lemma synced_state:
  assumes "view_ok cl" "addresses_ok cl" "valid_cluster_name (cl_name cl)" "scan_count (cc_migration_config (cl_config cl)) \<noteq> 0"
    "meta_lib_ok z" "\<And>args. generate_proxy_meta_cmd_args z flags (filter_proxy_masters (proxy_view cl a)) = Inr args \<Longrightarrow> list_all utf8_valid args"
    "sync_meta z flags conf (proxy_view cl a) st = Some (Some (Simple ''OK''), st')"
  obtains new_tasks where "set_meta conf (as_received (proxy_meta flags cl a)) st = Some (Inr new_tasks, st')"
proof -
  from assms(7) obtain args where args: "generate_proxy_meta_cmd_args z flags (filter_proxy_masters (proxy_view cl a)) = Inr args"
    by (auto simp: sync_meta_def split: sum.splits)
  have "pm_from_resp z (Arr (ArrayOf (map (\<lambda>s. Bulk (Str s)) (meta_command ''SETCLUSTER'' args)))) = Inr (as_received (proxy_meta flags cl a), True)"
    by (simp add: pm_from_resp_def control_args_command [OF assms(6) [OF args]] received_meta [OF assms(1-5) args])
  with assms(7) args obtain res where "set_meta conf (as_received (proxy_meta flags cl a)) st = Some (res, st')"
    "(case res of Inr _ \<Rightarrow> if True then Simple ''OK'' else Simple ''WARNING: ignored invalid config''
        | Inl err \<Rightarrow> Error (meta_error_reply err)) = Simple ''OK''"
    by (cases "set_meta conf (as_received (proxy_meta flags cl a)) st") (auto simp: sync_meta_def handle_umctl_set_cluster_def)
  then show thesis using that by (cases res) auto
qed


subsection \<open>Routing by the metadata\<close>

lemma local_send_route:
  assumes "hm_inv (pm_local m)" "slot < SLOT_NUM" "pm_cluster_name m \<noteq> []"
  shows "local_send ns (cb_local (from_cluster_map m act)) (Some slot) hint =
    (case slot_owner (pm_local m) slot of
       Some addr \<Rightarrow> ([ToNode addr hint (ns addr hint)], from_sender_result (ns addr hint))
     | None \<Rightarrow> ([], Some (SlotNotFound hint)))"
proof -
  have "addr \<in> set (hm_keys (pm_local m))" if "slot_owner (pm_local m) slot = Some addr" for addr
    by (rule slot_owner_Some [OF that]) (force simp: hm_keys_def)
  with assms(3) show ?thesis
    by (cases "slot_owner (pm_local m) slot")
      (simp_all add: local_send_def from_cluster_map_def local_from_slot_map_def slot_map_last_owner [OF assms(1,2)] Let_def)
qed

lemma send_remote_route:
  assumes "hm_inv (pm_peer m)" "slot < SLOT_NUM" "pm_cluster_name m \<noteq> []"
  shows "send_remote (cb_remote (from_cluster_map m act)) (Some slot) hint =
    (case slot_owner (pm_peer m) slot of
       Some addr \<Rightarrow>
         if act then ([], Some (ActiveRedirection slot addr)) else ([Reply (Error (gen_moved slot addr))], None)
     | None \<Rightarrow> ([Reply (Error (''slot not covered '' @ show_nat slot))], Some SlotNotCovered))"
  using assms(3)
  by (cases "slot_owner (pm_peer m) slot")
    (simp_all add: send_remote_def from_cluster_map_def remote_from_slot_map_def slot_map_last_owner [OF assms(1,2)])

lemma cluster_send_route:
  assumes "hm_inv (pm_local m)" "hm_inv (pm_peer m)" "slot < SLOT_NUM" "pm_cluster_name m \<noteq> []"
  shows "cluster_send ns (from_cluster_map m act) (Some slot) hint =
    (case slot_owner (pm_local m) slot of
       Some addr \<Rightarrow> ([ToNode addr hint (ns addr hint)], from_sender_result (ns addr hint))
     | None \<Rightarrow> send_remote (cb_remote (from_cluster_map m act)) (Some slot) hint)"
proof (cases "slot_owner (pm_local m) slot")
  case None
  then show ?thesis by (simp add: cluster_send_def local_send_route [OF assms(1,3,4)] case_prod_beta)
next
  case (Some addr)
  then show ?thesis
    by (cases "ns addr hint") (simp_all add: cluster_send_def local_send_route [OF assms(1,3,4)] from_sender_result_def)
qed

lemma mg_send_no_task:
  "task_for_slot (mg_tasks mg) slot = None \<Longrightarrow> mg_send act bs im mg (Some slot) = ([], Some (SlotNotFound NotBlocking))"
  by (simp add: mg_send_def mg_send_helper_def)

text \<open>The task of a slot is one of the tagged ranges of the proxy, with the slots of the range.\<close>

definition task_matches :: "cluster_name \<Rightarrow> slot_range \<Rightarrow> mgr_task \<Rightarrow> bool" where
  "task_matches name sr t \<longleftrightarrow>
     (\<exists>side meta. fresh_task \<lparr>mt_cluster_name = name, mt_slot_range = sr\<rparr> = Some \<lparr>mk_side = side, mk_meta = meta,
         mk_range_map = mk_range_map t, mk_state = PreCheck\<rparr> \<and> mk_side t = side \<and> mk_meta t = meta)"

text \<open>Tasks keep what they were created from; only the state changes.\<close>

definition tasks_ok :: "migration_map \<Rightarrow> bool" where
  "tasks_ok mg \<longleftrightarrow>
     (\<forall>k t. hm_get (mg_tasks mg) k = Some t \<longrightarrow> task_matches (mt_cluster_name k) (mt_slot_range k) t) \<and>
     hm_inv (mg_tasks mg) \<and> mg_empty mg = (mg_tasks mg = [])"

lemma fresh_task_matches: "fresh_task k = Some t \<Longrightarrow> task_matches (mt_cluster_name k) (mt_slot_range k) t"
  by (cases k) (auto simp: task_matches_def fresh_task_def mgr_task_new_def split: slot_range_tag.splits)

lemma tasks_ok_empty: "tasks_ok migration_map_empty"
  by (simp add: tasks_ok_def migration_map_empty_def)

lemma add_new_tasks_inv:
  "add_new_tasks name rs (tasks, new) = Some (tasks', new') \<Longrightarrow> hm_inv tasks \<Longrightarrow> hm_inv tasks'"
proof (induction rs arbitrary: tasks new)
  case (Cons r rs)
  then obtain tasks1 new1 where step: "add_new_task name r (tasks, new) = Some (tasks1, new1)"
    and rest: "add_new_tasks name rs (tasks1, new1) = Some (tasks', new')"
    by (cases "add_new_task name r (tasks, new)") auto
  from step Cons.prems(2) have "hm_inv tasks1" by (auto simp: add_new_task_alt Let_def split: if_splits)
  with Cons.IH [OF rest] show ?case .
qed simp

lemma keep_old_tasks_inv: "hm_inv tasks \<Longrightarrow> hm_inv (fold (keep_old_task name old) rs tasks)"
  by (induction rs arbitrary: tasks) (auto simp: keep_old_task_def Let_def split: option.split)

text \<open>
  What happens in a proxy while its metadata stay: its importing tasks are switched by their
  peers, and its running migrating tasks store their progress.
\<close>

inductive proxy_tick :: "proxy_state \<Rightarrow> proxy_state \<Rightarrow> bool" where
  tick_switch: "handle_switch arg sub_cmd st = Inr st' \<Longrightarrow> proxy_tick st st'"
| tick_progress: "hm_get (mg_tasks (ps_migration_map st)) k = Some t \<Longrightarrow> mk_side t = MigratingSide \<Longrightarrow>
    proxy_tick st (st\<lparr>ps_migration_map := (ps_migration_map st)\<lparr>mg_tasks :=
      hm_modify k (\<lambda>_. t\<lparr>mk_state := s\<rparr>) (mg_tasks (ps_migration_map st))\<rparr>\<rparr>)"

inductive proxy_run :: "proxy_config \<Rightarrow> proxy_state \<Rightarrow> bool" for conf where
  run_new: "proxy_run conf proxy_state_new"
| run_meta: "proxy_run conf st \<Longrightarrow> set_meta conf m st = Some (res, st') \<Longrightarrow> proxy_run conf st'"
| run_tick: "proxy_run conf st \<Longrightarrow> proxy_tick st st' \<Longrightarrow> proxy_run conf st'"

text \<open>A proxy that has accepted a view and not been given a newer one since.\<close>

inductive serving :: "meta_lib \<Rightarrow> cluster_map_flags \<Rightarrow> proxy_config \<Rightarrow> proxy \<Rightarrow> proxy_state \<Rightarrow> bool"
  for z flags conf p where
  serving_sync: "proxy_run conf st \<Longrightarrow> sync_meta z flags conf p st = Some (Some (Simple ''OK''), st') \<Longrightarrow>
    serving z flags conf p st'"
| serving_tick: "serving z flags conf p st \<Longrightarrow> proxy_tick st st' \<Longrightarrow> serving z flags conf p st'"

lemma task_matches_state: "task_matches name sr t \<Longrightarrow> task_matches name sr (t\<lparr>mk_state := s\<rparr>)"
  by (simp add: task_matches_def)

lemma tasks_ok_modify:
  assumes "tasks_ok mg" "\<And>t. hm_get (mg_tasks mg) k = Some t \<Longrightarrow> \<exists>s. f t = t\<lparr>mk_state := s\<rparr>"
  shows "tasks_ok (mg\<lparr>mg_tasks := hm_modify k f (mg_tasks mg)\<rparr>)"
proof -
  have "task_matches (mt_cluster_name k') (mt_slot_range k') t'" if k': "hm_get (hm_modify k f (mg_tasks mg)) k' = Some t'" for k' t'
  proof (cases "k' = k")
    case True
    with k' obtain t where t: "hm_get (mg_tasks mg) k = Some t" "t' = f t" by auto
    with assms(2) obtain s where "t' = t\<lparr>mk_state := s\<rparr>" by blast
    with t(1) True assms(1) show ?thesis by (simp add: tasks_ok_def task_matches_state)
  qed (use k' assms(1) in \<open>simp add: tasks_ok_def\<close>)
  moreover have "hm_modify k f (mg_tasks mg) = [] \<longleftrightarrow> mg_tasks mg = []" by (simp add: hm_modify_def)
  ultimately show ?thesis using assms(1) by (simp add: tasks_ok_def)
qed

lemma handle_switch_shape:
  assumes "handle_switch arg sub_cmd st = Inr st'"
  obtains k t s where "hm_get (mg_tasks (ps_migration_map st)) k = Some t"
    "st' = st\<lparr>ps_migration_map := (ps_migration_map st)\<lparr>mg_tasks := hm_modify k (\<lambda>_. t\<lparr>mk_state := s\<rparr>) (mg_tasks (ps_migration_map st))\<rparr>\<rparr>"
proof -
  from assms obtain arg' mg where mg: "mg_handle_switch (ps_migration_map st) arg' sub_cmd = Inr mg" "st' = st\<lparr>ps_migration_map := mg\<rparr>"
    by (auto simp: handle_switch_def Let_def map_sum_def split: option.splits if_splits sum.splits)
  from mg(1) obtain t t' where t: "hm_get (mg_tasks (ps_migration_map st)) (sa_meta arg') = Some t"
    "importing_handle_switch t arg' sub_cmd = Inr t'"
    "mg = (ps_migration_map st)\<lparr>mg_tasks := hm_modify (sa_meta arg') (\<lambda>_. t') (mg_tasks (ps_migration_map st))\<rparr>"
    by (auto simp: mg_handle_switch_def split: option.splits if_splits sum.splits migration_error.splits)
  from t(2) obtain s where "t' = t\<lparr>mk_state := s\<rparr>"
    by (auto simp: importing_handle_switch_def split: if_splits)
  with t mg(2) show thesis using that by blast
qed

lemma proxy_tick_shape:
  assumes "proxy_tick st st'"
  obtains k t s where "hm_get (mg_tasks (ps_migration_map st)) k = Some t"
    "st' = st\<lparr>ps_migration_map := (ps_migration_map st)\<lparr>mg_tasks := hm_modify k (\<lambda>_. t\<lparr>mk_state := s\<rparr>) (mg_tasks (ps_migration_map st))\<rparr>\<rparr>"
  using assms
proof (cases rule: proxy_tick.cases)
  case (tick_switch arg sub_cmd)
  then show ?thesis using handle_switch_shape that by blast
next
  case (tick_progress k t s)
  then show ?thesis using that by blast
qed

lemma tasks_ok_set_meta:
  assumes "tasks_ok (ps_migration_map st)" "set_meta conf m st = Some (Inr new, st')"
  shows "tasks_ok (ps_migration_map st')" "\<And>k. hm_get (mg_tasks (ps_migration_map st')) k =
      task_spec (ps_migration_map st) (pm_cluster_name m) (concat (hm_values (pm_local m))) k"
    "ps_cluster_map st' = from_cluster_map m (pc_active_redirection conf)"
    "mg_cluster_name (ps_migration_map st') = pm_cluster_name m"
proof -
  let ?rs = "concat (hm_values (pm_local m))"
  from assms(2) obtain tasks where tasks:
    "add_new_tasks (pm_cluster_name m) ?rs (fold (keep_old_task (pm_cluster_name m) (mg_tasks (ps_migration_map st))) ?rs [], []) = Some (tasks, new)"
    and st': "st' = \<lparr>ps_epoch = pm_epoch m, ps_cluster_map = from_cluster_map m (pc_active_redirection conf),
      ps_migration_map = \<lparr>mg_empty = (tasks = []), mg_cluster_name = pm_cluster_name m, mg_tasks = tasks\<rparr>\<rparr>"
    by (auto simp: set_meta_def update_from_old_task_map_def Let_def split: if_splits)
  have get: "hm_get tasks k = task_spec (ps_migration_map st) (pm_cluster_name m) ?rs k" for k
    unfolding add_new_tasks_get [OF tasks(1)] keep_old_tasks task_spec_def
    by (auto simp: fresh_task_def split: option.splits slot_range_tag.splits)
  have "hm_inv tasks" by (rule add_new_tasks_inv [OF tasks]) (simp add: keep_old_tasks_inv)
  moreover have "task_matches (mt_cluster_name k) (mt_slot_range k) t" if "hm_get tasks k = Some t" for k t
  proof -
    from that have "hm_get (mg_tasks (ps_migration_map st)) k = Some t \<or> fresh_task k = Some t"
      unfolding get task_spec_def by (simp split: if_splits option.splits)
    with assms(1) show ?thesis by (auto simp: tasks_ok_def fresh_task_matches)
  qed
  ultimately show "tasks_ok (ps_migration_map st')" by (simp add: st' tasks_ok_def)
  show "\<And>k. hm_get (mg_tasks (ps_migration_map st')) k =
      task_spec (ps_migration_map st) (pm_cluster_name m) (concat (hm_values (pm_local m))) k"
    "ps_cluster_map st' = from_cluster_map m (pc_active_redirection conf)"
    "mg_cluster_name (ps_migration_map st') = pm_cluster_name m"
    by (simp_all add: st' get)
qed

lemma proxy_run_tasks_ok: "proxy_run conf st \<Longrightarrow> tasks_ok (ps_migration_map st)"
proof (induction rule: proxy_run.induct)
  case run_new
  then show ?case by (simp add: proxy_state_new_def tasks_ok_empty)
next
  case (run_meta st m res st')
  show ?case
  proof (cases res)
    case (Inl e)
    with run_meta show ?thesis by (auto simp: set_meta_def split: if_splits)
  next
    case (Inr new)
    with run_meta show ?thesis using tasks_ok_set_meta(1) by blast
  qed
next
  case (run_tick st st')
  from proxy_tick_shape [OF run_tick.hyps(2)] obtain k t s where
    "hm_get (mg_tasks (ps_migration_map st)) k = Some t"
    "st' = st\<lparr>ps_migration_map := (ps_migration_map st)\<lparr>mg_tasks := hm_modify k (\<lambda>_. t\<lparr>mk_state := s\<rparr>) (mg_tasks (ps_migration_map st))\<rparr>\<rparr>" .
  with run_tick.IH show ?case by (auto intro!: tasks_ok_modify)
qed

text \<open>What a serving proxy has of the metadata.\<close>

definition has_meta :: "proxy_config \<Rightarrow> proxy_cluster_meta \<Rightarrow> proxy_state \<Rightarrow> bool" where
  "has_meta conf m st \<longleftrightarrow>
     ps_cluster_map st = from_cluster_map m (pc_active_redirection conf) \<and>
     mg_cluster_name (ps_migration_map st) = pm_cluster_name m \<and> tasks_ok (ps_migration_map st) \<and>
     (\<forall>k. hm_get (mg_tasks (ps_migration_map st)) k \<noteq> None \<longleftrightarrow>
        mt_cluster_name k = pm_cluster_name m \<and> mt_slot_range k \<in> set (concat (hm_values (pm_local m))) \<and>
        \<not> tag_is_stable (sr_tag (mt_slot_range k)))"

lemma has_meta_tick:
  assumes "has_meta conf m st" "proxy_tick st st'"
  shows "has_meta conf m st'"
proof -
  from proxy_tick_shape [OF assms(2)] obtain k t s where k: "hm_get (mg_tasks (ps_migration_map st)) k = Some t"
    and st': "st' = st\<lparr>ps_migration_map := (ps_migration_map st)\<lparr>mg_tasks := hm_modify k (\<lambda>_. t\<lparr>mk_state := s\<rparr>) (mg_tasks (ps_migration_map st))\<rparr>\<rparr>" .
  have "tasks_ok (ps_migration_map st')"
    using assms(1) k by (auto simp: st' has_meta_def intro!: tasks_ok_modify)
  moreover have "hm_get (hm_modify k (\<lambda>_. t\<lparr>mk_state := s\<rparr>) (mg_tasks (ps_migration_map st))) k' \<noteq> None \<longleftrightarrow>
      hm_get (mg_tasks (ps_migration_map st)) k' \<noteq> None" for k'
    by simp
  ultimately show ?thesis using assms(1) unfolding has_meta_def st' by simp
qed

lemma has_meta_set_meta:
  assumes "proxy_run conf st" "set_meta conf m st = Some (Inr new, st')"
    "\<And>sr. sr \<in> set (concat (hm_values (pm_local m))) \<Longrightarrow> rl_inv (sr_range_list sr)"
  shows "has_meta conf m st'"
proof -
  note ok = tasks_ok_set_meta [OF proxy_run_tasks_ok [OF assms(1)] assms(2)]
  have "fresh_task k \<noteq> None" if "rl_inv (sr_range_list (mt_slot_range k))" "\<not> tag_is_stable (sr_tag (mt_slot_range k))" for k
    using that range_map_correct [of "sr_range_list (mt_slot_range k)"]
    by (cases "sr_tag (mt_slot_range k)") (auto simp: fresh_task_def mgr_task_new_def rl_inv_def)
  then have "task_spec (ps_migration_map st) (pm_cluster_name m) (concat (hm_values (pm_local m))) k \<noteq> None \<longleftrightarrow>
      mt_cluster_name k = pm_cluster_name m \<and> mt_slot_range k \<in> set (concat (hm_values (pm_local m))) \<and>
      \<not> tag_is_stable (sr_tag (mt_slot_range k))" for k
    using assms(3) [of "mt_slot_range k"] unfolding task_spec_def by (simp split: option.split)
  with ok show ?thesis unfolding has_meta_def by simp
qed

text \<open>Commands of ASCII strings arrive as they are.\<close>

definition ascii :: "string \<Rightarrow> bool" where
  "ascii s \<longleftrightarrow> list_all (byte_in 0 127) s"

lemma ascii_simps [simp]: "ascii []" "ascii (c # s) \<longleftrightarrow> byte_in 0 127 c \<and> ascii s" "ascii (s @ t) \<longleftrightarrow> ascii s \<and> ascii t"
  by (simp_all add: ascii_def)

lemma ascii_utf8: "ascii s \<Longrightarrow> utf8_valid s"
  by (induction s) simp_all

lemma ascii_show_nat [simp]: "ascii (show_nat n)"
proof (induction n rule: show_nat.induct)
  case (1 n)
  have "byte_in 0 127 (char_of (48 + k))" if "k < 10" for k :: nat
    using that by (simp add: byte_in_def)
  with 1 show ?case by (cases "n < 10") (simp_all add: show_nat.simps [of n])
qed

lemma ascii_show_u64 [simp]: "ascii (show_u64 e)"
  by (simp add: show_u64_def)

lemma ascii_flags: "ascii (flags_to_arg f)"
  by (cases "cf_force f"; cases "cf_compress f") (simp_all add: flags_to_arg_def byte_in_def)

lemma ascii_config: "list_all ascii (cc_to_args c)"
  by (cases "cc_compression_strategy c")
    (simp_all add: cc_to_args_def cluster_config_to_str_map_def compression_to_str_def Let_def byte_in_def)

lemma ascii_name: "valid_cluster_name n \<Longrightarrow> ascii n"
proof -
  assume "valid_cluster_name n"
  then have "list_all (\<lambda>c. is_ascii_alphanumeric c \<or> c = CHR ''@'' \<or> c = CHR ''-'' \<or> c = CHR ''_'') n"
    by (simp add: valid_cluster_name_def cluster_name_try_from_def split: if_splits)
  then show ?thesis
    unfolding ascii_def by (rule list.pred_mono_strong) (auto simp: is_ascii_alphanumeric_def byte_in_def Let_def)
qed

lemma ascii_ranges: "list_all ascii (rl_to_strings rl)"
  by (induction rl) (simp_all add: rl_to_strings_def range_to_string_def byte_in_def)

fun tag_ascii :: "slot_range_tag \<Rightarrow> bool" where
  "tag_ascii TagNone = True"
| "tag_ascii (Migrating m) =
     (ascii (src_proxy_address m) \<and> ascii (src_node_address m) \<and> ascii (dst_proxy_address m) \<and> ascii (dst_node_address m))"
| "tag_ascii (Importing m) =
     (ascii (src_proxy_address m) \<and> ascii (src_node_address m) \<and> ascii (dst_proxy_address m) \<and> ascii (dst_node_address m))"

lemma ascii_slot_range: "tag_ascii (sr_tag sr) \<Longrightarrow> list_all ascii (sr_into_strings sr)"
  by (cases "sr_tag sr")
    (simp_all add: sr_into_strings_def ascii_ranges mm_into_strings_def MIGRATING_TAG_def IMPORTING_TAG_def byte_in_def)

lemma ascii_node_map:
  "(\<And>a srs sr. (a, srs) \<in> set m \<Longrightarrow> sr \<in> set srs \<Longrightarrow> ascii a \<and> tag_ascii (sr_tag sr)) \<Longrightarrow> list_all ascii (nm_to_args m)"
proof -
  assume m: "\<And>a srs sr. (a, srs) \<in> set m \<Longrightarrow> sr \<in> set srs \<Longrightarrow> ascii a \<and> tag_ascii (sr_tag sr)"
  have "list_all ascii (a # sr_into_strings sr)" if "(a, srs) \<in> set m" "sr \<in> set srs" for a srs sr
    using m [OF that] ascii_slot_range [of sr] by simp
  moreover have "ascii a" if "(a, srs) \<in> set m" "srs \<noteq> []" for a srs
    using m [OF that(1) hd_in_set [OF that(2)]] by simp
  ultimately show "list_all ascii (nm_to_args m)" unfolding nm_to_args_def list_all_iff by auto
qed

text \<open>The deployment: addresses are of the form host:port, and the two nodes of a proxy differ.\<close>

definition deployed :: "meta_lib \<Rightarrow> cluster_map_flags \<Rightarrow> cluster \<Rightarrow> bool" where
  "deployed z flags cl \<longleftrightarrow>
     meta_lib_ok z \<and> (cf_compress flags \<longrightarrow> (\<forall>b. ascii (base64_encode z b))) \<and>
     addresses_ok cl \<and> (\<forall>n \<in> set (cl_nodes cl). ascii (nd_address n) \<and> ascii (nd_proxy_address n)) \<and>
     distinct (map (\<lambda>n. (nd_proxy_address n, nd_address n)) (cl_nodes cl)) \<and>
     valid_cluster_name (cl_name cl) \<and> cl_name cl \<noteq> [] \<and> scan_count (cc_migration_config (cl_config cl)) \<noteq> 0"

lemma deployedD:
  assumes "deployed z flags cl"
  shows "meta_lib_ok z" "addresses_ok cl" "distinct (map (\<lambda>n. (nd_proxy_address n, nd_address n)) (cl_nodes cl))"
    "valid_cluster_name (cl_name cl)" "scan_count (cc_migration_config (cl_config cl)) \<noteq> 0"
    "n \<in> set (cl_nodes cl) \<Longrightarrow> ascii (nd_address n)" "n \<in> set (cl_nodes cl) \<Longrightarrow> ascii (nd_proxy_address n)"
    "cf_compress flags \<Longrightarrow> ascii (base64_encode z b)"
  using assms by (simp_all add: deployed_def)

lemma deployed_tag_ascii:
  assumes "view_ok cl" "deployed z flags cl" "n \<in> set (cl_nodes cl)" "sr \<in> set (nd_slots n)"
  shows "tag_ascii (sr_tag sr)"
proof (cases "sr_tag sr = TagNone")
  case False
  from view_okD(5) [OF assms(1,3,4) False] obtain n' sr' where m: "n' \<in> set (cl_nodes cl)" "sr' \<in> set (nd_slots n')" "meta_eq sr sr'"
    "sr_tag sr' \<noteq> TagNone" "tag_is_migrating (sr_tag sr') = (\<not> tag_is_migrating (sr_tag sr))" unfolding has_mirror_def by blast
  note ascii = deployedD(6,7) [OF assms(2)]
  show ?thesis
    using view_okD(4) [OF assms(1,3,4)] view_okD(4) [OF assms(1) m(1,2)] m(3-5) False
      ascii [OF assms(3)] ascii [OF m(1)]
    by (cases "sr_tag sr"; cases "sr_tag sr'") (auto simp: meta_eq_iff)
qed simp

lemma deployed_args:
  assumes "view_ok cl" "deployed z flags cl"
    "generate_proxy_meta_cmd_args z flags (filter_proxy_masters (proxy_view cl a)) = Inr args"
  shows "list_all utf8_valid args"
proof -
  let ?m = "proxy_meta flags cl a"
  have name: "ascii (cl_name cl)" using deployedD(4) [OF assms(2)] by (rule ascii_name)
  have "list_all ascii args"
  proof (cases "cf_compress flags")
    case True
    then have "pm_to_compressed_args z ?m = Inr args"
      using assms(3) by (simp add: generate_proxy_meta_cmd_args_def proxy_meta_def Let_def)
    then obtain b where "args = [pm_version ?m, show_u64 (pm_epoch ?m), flags_to_arg (pm_flags ?m), base64_encode z b]"
      by (auto simp: pm_to_compressed_args_def gen_compressed_data_def split: sum.splits option.splits)
    then show ?thesis
      using deployedD(8) [OF assms(2) True] by (simp add: ascii_flags SET_CLUSTER_API_VERSION_def byte_in_def)
  next
    case False
    have "list_all ascii (nm_to_args (pm_local ?m))"
      by (rule ascii_node_map) (auto simp: in_local [OF assms(1)] deployedD(6) [OF assms(2)] deployed_tag_ascii [OF assms(1,2)])
    moreover have "list_all ascii (nm_to_args (pm_peer ?m))"
    proof (rule ascii_node_map)
      fix b srs sr assume "(b, srs) \<in> set (pm_peer ?m)" "sr \<in> set srs"
      then have "\<exists>srs. (b, srs) \<in> set (pm_peer ?m) \<and> sr \<in> set srs" by blast
      then show "ascii b \<and> tag_ascii (sr_tag sr)"
        unfolding in_peer [OF assms(1)] using deployedD(7) [OF assms(2)] deployed_tag_ascii [OF assms(1,2)] by blast
    qed
    moreover have "args = pm_to_args ?m"
      using assms(3) False by (simp add: generate_proxy_meta_cmd_args_def proxy_meta_def)
    ultimately show ?thesis
      by (simp add: pm_to_args_def name ascii_flags ascii_config SET_CLUSTER_API_VERSION_def PEER_PREFIX_def CONFIG_PREFIX_def byte_in_def Let_def)
  qed
  then show ?thesis by (rule list.pred_mono_strong) (rule ascii_utf8)
qed

lemma serving_has_meta:
  assumes "view_ok cl" "deployed z flags cl" "serving z flags conf (proxy_view cl a) st"
  shows "has_meta conf (as_received (proxy_meta flags cl a)) st"
  using assms(3)
proof (induction rule: serving.induct)
  case (serving_sync st st')
  note d = deployedD [OF assms(2)]
  have inv: "rl_inv (sr_range_list sr)" if sr: "sr \<in> set (concat (hm_values (pm_local (proxy_meta flags cl a))))" for sr a
    using sr view_okD(3) [OF assms(1)] by (auto simp: hm_values_def proxy_meta_local [OF assms(1)] masters_at_def)
  obtain new_tasks where new: "set_meta conf (as_received (proxy_meta flags cl a)) st = Some (Inr new_tasks, st')"
    by (rule synced_state [OF assms(1) d(2,4,5,1) deployed_args [OF assms(1,2)] serving_sync.hyps(2)])
  show ?case by (rule has_meta_set_meta [OF serving_sync.hyps(1) new]) (simp only: as_received_simps inv)
qed (rule has_meta_tick)

subsection \<open>The way of a command through the cluster\<close>

text \<open>A command for a slot of another proxy: passed on or answered with MOVED.\<close>

definition redirected ::
  "hash_lib \<Rightarrow> proxy_config \<Rightarrow> senders \<Rightarrow> proxy_state \<Rightarrow> cmd_ctx \<Rightarrow> usize \<Rightarrow> address \<Rightarrow> (effect list \<times> bool) option" where
  "redirected h conf sd st ctx slot addr =
     (if pc_active_redirection conf
      then map_option (\<lambda>effs. (effs, False)) (send_cmd_ctx_to_remote_directly h conf sd (ps_cluster_map st) ctx slot addr)
      else Some ([Reply (Error (gen_moved slot addr))], False))"

text \<open>A command for a slot of a node of this proxy.\<close>

definition delivered :: "senders \<Rightarrow> address \<Rightarrow> blocking_hint \<Rightarrow> (effect list \<times> bool) option" where
  "delivered sd addr hint = Some ([ToNode addr hint (sd_node sd addr hint)], sd_node sd addr hint = SenderRetry)"

lemma cluster_map_route:
  assumes "has_meta conf m st" "hm_inv (pm_local m)" "hm_inv (pm_peer m)" "pm_cluster_name m \<noteq> []"
    "cx_slot ctx = Some slot" "slot < SLOT_NUM"
  shows "slot_owner (pm_local m) slot = Some addr \<Longrightarrow> send_to_cluster_map h conf sd (ps_cluster_map st) ctx hint = delivered sd addr hint"
    and "slot_owner (pm_local m) slot = None \<Longrightarrow> slot_owner (pm_peer m) slot = Some b \<Longrightarrow>
      send_to_cluster_map h conf sd (ps_cluster_map st) ctx hint = redirected h conf sd st ctx slot b"
proof -
  have cb: "ps_cluster_map st = from_cluster_map m (pc_active_redirection conf)" using assms(1) by (simp add: has_meta_def)
  note route = cluster_send_route [OF assms(2,3,6,4)] send_remote_route [OF assms(3,6,4)]
  show "slot_owner (pm_local m) slot = Some addr \<Longrightarrow> send_to_cluster_map h conf sd (ps_cluster_map st) ctx hint = delivered sd addr hint"
    by (cases "sd_node sd addr hint") (simp_all add: send_to_cluster_map_def cb route assms(5) delivered_def from_sender_result_def)
  show "slot_owner (pm_local m) slot = None \<Longrightarrow> slot_owner (pm_peer m) slot = Some b \<Longrightarrow>
      send_to_cluster_map h conf sd (ps_cluster_map st) ctx hint = redirected h conf sd st ctx slot b"
    by (cases "pc_active_redirection conf") (simp_all add: send_to_cluster_map_def cb route assms(5) redirected_def)
qed

text \<open>The tasks of a serving proxy.\<close>

lemma task_of_range:
  assumes "task_matches name sr t" "rl_inv (sr_range_list sr)" "slot < SLOT_NUM"
    "\<And>x. x \<in> set (rl_slots (sr_range_list sr)) \<Longrightarrow> x < SLOT_NUM"
  shows "contains_slot (mk_range_map t) slot \<longleftrightarrow> slot \<in> set (rl_slots (sr_range_list sr))"
    and "sr_tag sr = (if mk_side t = MigratingSide then Migrating else Importing) (mk_meta t)"
proof -
  from range_map_correct [of "sr_range_list sr"] assms(2) obtain rm where
    rm: "range_map_from (sr_range_list sr) = Some rm"
      "contains_slot rm slot \<longleftrightarrow> slot \<in> set (rl_slots (sr_range_list sr)) \<and> (\<forall>x \<in> set (rl_slots (sr_range_list sr)). x < SLOT_NUM)"
    by (auto simp: rl_inv_def)
  with assms(1) have "mk_range_map t = rm"
    by (auto simp: task_matches_def fresh_task_def mgr_task_new_def split: slot_range_tag.splits)
  with rm(2) assms(4) show "contains_slot (mk_range_map t) slot \<longleftrightarrow> slot \<in> set (rl_slots (sr_range_list sr))" by blast
  show "sr_tag sr = (if mk_side t = MigratingSide then Migrating else Importing) (mk_meta t)"
    using assms(1) by (auto simp: task_matches_def fresh_task_def mgr_task_new_def split: slot_range_tag.splits)
qed

text \<open>A range with a slot, of a node of the view.\<close>

definition holds_slot :: "cluster \<Rightarrow> usize \<Rightarrow> node \<Rightarrow> slot_range \<Rightarrow> bool" where
  "holds_slot cl slot n sr \<longleftrightarrow>
     n \<in> set (cl_nodes cl) \<and> sr \<in> set (nd_slots n) \<and> slot \<in> set (rl_slots (sr_range_list sr))"

lemma holds_slot_master: "view_ok cl \<Longrightarrow> holds_slot cl slot n sr \<Longrightarrow> nd_role n = Master"
  using view_okD(2) [of cl n] by (cases "nd_role n") (auto simp: holds_slot_def)

lemma holds_slot_owned:
  assumes "view_ok cl" "holds_slot cl slot n sr"
  obtains n' sr' where "holds_slot cl slot n' sr'" "\<not> tag_is_importing (sr_tag sr')" "sr_range_list sr' = sr_range_list sr"
proof (cases "tag_is_importing (sr_tag sr)")
  case True
  then have tag: "sr_tag sr \<noteq> TagNone" "\<not> tag_is_migrating (sr_tag sr)" by (cases "sr_tag sr"; simp)+
  have n: "n \<in> set (cl_nodes cl)" "sr \<in> set (nd_slots n)" "slot \<in> set (rl_slots (sr_range_list sr))"
    using assms(2) by (simp_all add: holds_slot_def)
  from view_okD(5) [OF assms(1) n(1,2) tag(1)] tag(2) obtain n' sr' where n': "n' \<in> set (cl_nodes cl)" "sr' \<in> set (nd_slots n')"
    "meta_eq sr sr'" "tag_is_migrating (sr_tag sr')" unfolding has_mirror_def by blast
  from n'(3) have rl: "sr_range_list sr' = sr_range_list sr" by (simp add: meta_eq_iff)
  moreover from n' n(3) rl have "holds_slot cl slot n' sr'" by (simp add: holds_slot_def)
  moreover from n'(4) have "\<not> tag_is_importing (sr_tag sr')" by (cases "sr_tag sr'") simp_all
  ultimately show ?thesis using that by blast
qed (use that assms(2) in blast)

lemma holds_slot_bound:
  assumes "view_ok cl" "holds_slot cl slot n sr"
  shows "slot < SLOT_NUM"
proof -
  from assms obtain n' sr' where h: "holds_slot cl slot n' sr'" "\<not> tag_is_importing (sr_tag sr')" by (rule holds_slot_owned)
  then have "slot \<in># sr_owned sr'" by (simp add: sr_owned_def holds_slot_def)
  with h(1) have "slot \<in># nodes_owned (cl_nodes cl)"
    by (auto simp: nodes_owned_def set_mset_sum_list holds_slot_def)
  then have "slot \<in># all_slots" by (simp only: view_okD(1) [OF assms(1)])
  then show ?thesis using count_all_slots [of slot] by (cases "slot < SLOT_NUM") (auto simp: count_eq_zero_iff)
qed

lemma local_owner_Some:
  assumes "view_ok cl" "slot_owner (pm_local (proxy_meta flags cl a)) slot = Some addr"
  shows "\<exists>n sr. holds_slot cl slot n sr \<and> nd_proxy_address n = a \<and> nd_address n = addr"
  by (rule slot_owner_Some [OF assms(2)]) (auto simp: in_local [OF assms(1)] in_sr_slots holds_slot_def)

lemma local_owner_None:
  assumes "view_ok cl" "slot_owner (pm_local (proxy_meta flags cl a)) slot = None" "holds_slot cl slot n sr"
  shows "nd_proxy_address n \<noteq> a"
proof
  assume a: "nd_proxy_address n = a"
  then have "(nd_address n, nd_slots n) \<in> set (pm_local (proxy_meta flags cl a))"
    using assms(3) holds_slot_master [OF assms(1,3)] unfolding in_local [OF assms(1)] holds_slot_def by blast
  with assms(2,3) show False by (auto simp: slot_owner_None in_sr_slots holds_slot_def)
qed

lemma peer_owner_Some:
  assumes "view_ok cl" "slot_owner (pm_peer (proxy_meta flags cl a)) slot = Some b"
  shows "\<exists>n sr. holds_slot cl slot n sr \<and> nd_proxy_address n = b \<and> b \<noteq> a"
proof -
  obtain srs where srs: "(b, srs) \<in> set (pm_peer (proxy_meta flags cl a))" "slot \<in> set (sr_slots srs)"
    by (rule slot_owner_Some [OF assms(2)])
  from srs(2) obtain sr where sr: "sr \<in> set srs" "slot \<in> set (rl_slots (sr_range_list sr))" by (auto simp: in_sr_slots)
  with srs(1) have "\<exists>srs. (b, srs) \<in> set (pm_peer (proxy_meta flags cl a)) \<and> sr \<in> set srs" by blast
  with sr(2) show ?thesis unfolding in_peer [OF assms(1)] holds_slot_def by blast
qed

lemma peer_owner_None:
  assumes "view_ok cl" "slot_owner (pm_peer (proxy_meta flags cl a)) slot = None" "holds_slot cl slot n sr"
  shows "nd_proxy_address n = a"
proof (rule ccontr)
  assume a: "nd_proxy_address n \<noteq> a"
  then have "\<exists>srs. (nd_proxy_address n, srs) \<in> set (pm_peer (proxy_meta flags cl a)) \<and> sr \<in> set srs"
    using assms(3) holds_slot_master [OF assms(1,3)] unfolding in_peer [OF assms(1)] holds_slot_def by blast
  with assms(2,3) show False by (auto simp: slot_owner_None in_sr_slots holds_slot_def)
qed

lemma served_task:
  assumes "view_ok cl" "has_meta conf (as_received (proxy_meta flags cl a)) st"
  shows "task_for_slot (mg_tasks (ps_migration_map st)) slot = Some t \<Longrightarrow> slot < SLOT_NUM \<Longrightarrow>
      \<exists>n sr. holds_slot cl slot n sr \<and> nd_proxy_address n = a \<and>
        sr_tag sr = (if mk_side t = MigratingSide then Migrating else Importing) (mk_meta t)"
    and "holds_slot cl slot n sr \<Longrightarrow> nd_proxy_address n = a \<Longrightarrow> sr_tag sr \<noteq> TagNone \<Longrightarrow>
      task_for_slot (mg_tasks (ps_migration_map st)) slot \<noteq> None"
proof -
  let ?tasks = "mg_tasks (ps_migration_map st)"
  have ranges: "sr \<in> set (concat (hm_values (pm_local (as_received (proxy_meta flags cl a))))) \<longleftrightarrow>
      (\<exists>n \<in> set (cl_nodes cl). nd_role n = Master \<and> nd_proxy_address n = a \<and> sr \<in> set (nd_slots n))" for sr
    by (auto simp only: as_received_simps) (auto simp: proxy_meta_local [OF assms(1)] masters_at_def hm_values_def)
  have get: "hm_get ?tasks k \<noteq> None \<longleftrightarrow> mt_cluster_name k = cl_name cl \<and> (\<exists>n \<in> set (cl_nodes cl). nd_role n = Master \<and>
      nd_proxy_address n = a \<and> mt_slot_range k \<in> set (nd_slots n)) \<and> \<not> tag_is_stable (sr_tag (mt_slot_range k))" for k
    using assms(2) ranges unfolding has_meta_def by simp
  have match: "task_matches (mt_cluster_name k) (mt_slot_range k) t" if "hm_get ?tasks k = Some t" for k t
    using assms(2) that unfolding has_meta_def tasks_ok_def by blast
  have inv: "hm_inv ?tasks" using assms(2) unfolding has_meta_def tasks_ok_def by blast
  have task: "(contains_slot (mk_range_map t) slot \<longleftrightarrow> slot \<in> set (rl_slots (sr_range_list (mt_slot_range k)))) \<and>
      sr_tag (mt_slot_range k) = (if mk_side t = MigratingSide then Migrating else Importing) (mk_meta t)"
    if k: "hm_get ?tasks k = Some t" and s: "slot < SLOT_NUM" for k t
  proof -
    from get [of k] k obtain n where n: "n \<in> set (cl_nodes cl)" "mt_slot_range k \<in> set (nd_slots n)" by auto
    then show ?thesis
      using task_of_range [OF match [OF k] view_okD(3) [OF assms(1) n] s] holds_slot_bound [OF assms(1)]
      unfolding holds_slot_def by blast
  qed
  show "\<exists>n sr. holds_slot cl slot n sr \<and> nd_proxy_address n = a \<and>
        sr_tag sr = (if mk_side t = MigratingSide then Migrating else Importing) (mk_meta t)"
    if "task_for_slot ?tasks slot = Some t" "slot < SLOT_NUM"
  proof -
    from that(1) have "t \<in> set (hm_values ?tasks)" "contains_slot (mk_range_map t) slot"
      by (auto simp: task_for_slot_def dest: find_SomeD)
    moreover from this(1) inv obtain k where k: "hm_get ?tasks k = Some t" by (auto simp: hm_values_def hm_get_def hm_inv_def hm_keys_def)
    ultimately show ?thesis using task [OF k that(2)] get [of k] unfolding holds_slot_def by fastforce
  qed
  show "task_for_slot ?tasks slot \<noteq> None" if h: "holds_slot cl slot n sr" "nd_proxy_address n = a" "sr_tag sr \<noteq> TagNone"
  proof -
    let ?k = "\<lparr>mt_cluster_name = cl_name cl, mt_slot_range = sr\<rparr>"
    have "hm_get ?tasks ?k \<noteq> None"
      using h holds_slot_master [OF assms(1) h(1)] unfolding get holds_slot_def by (cases "sr_tag sr") auto
    then obtain t where t: "hm_get ?tasks ?k = Some t" by blast
    with task [OF t holds_slot_bound [OF assms(1) h(1)]] h(1) have "contains_slot (mk_range_map t) slot" by (simp add: holds_slot_def)
    moreover from t have "t \<in> set (hm_values ?tasks)" by (auto simp: hm_values_def hm_get_def dest: map_of_SomeD intro: rev_image_eqI)
    ultimately show ?thesis by (auto simp: task_for_slot_def find_None_iff)
  qed
qed

lemma meta_route:
  assumes "view_ok cl" "deployed z flags cl" "has_meta conf (as_received (proxy_meta flags cl a)) st"
    "cx_slot ctx = Some slot" "slot < SLOT_NUM"
  shows "slot_owner (pm_local (proxy_meta flags cl a)) slot = Some addr \<Longrightarrow>
      send_to_cluster_map h conf sd (ps_cluster_map st) ctx hint = delivered sd addr hint"
    and "slot_owner (pm_local (proxy_meta flags cl a)) slot = None \<Longrightarrow> slot_owner (pm_peer (proxy_meta flags cl a)) slot = Some b \<Longrightarrow>
      send_to_cluster_map h conf sd (ps_cluster_map st) ctx hint = redirected h conf sd st ctx slot b"
  using cluster_map_route [OF assms(3) _ _ _ assms(4,5)] proxy_meta_inv [OF assms(1)] assms(2) by (simp_all add: deployed_def)

lemma no_task_route:
  assumes "task_for_slot (mg_tasks (ps_migration_map st)) slot = None" "cx_slot ctx = Some slot"
  shows "send_cmd_ctx h conf sd st ctx = send_to_cluster_map h conf sd (ps_cluster_map st) ctx NotBlocking"
  by (simp add: send_cmd_ctx_def assms(2) mg_send_no_task [OF assms(1)] option.map_id)

lemma stable_slot_route:
  assumes "view_ok cl" "deployed z flags cl" "has_meta conf (as_received (proxy_meta flags cl a)) st" "cx_slot ctx = Some slot"
    "holds_slot cl slot n sr" "sr_tag sr = TagNone"
  shows "send_cmd_ctx h conf sd st ctx =
    (if nd_proxy_address n = a then delivered sd (nd_address n) NotBlocking
     else redirected h conf sd st ctx slot (nd_proxy_address n))"
proof -
  note bound = holds_slot_bound [OF assms(1,5)]
  note route = meta_route [OF assms(1-4) bound]
  have once: "n' = n \<and> sr' = sr" if "holds_slot cl slot n' sr'" for n' sr'
    using stable_slot_once [OF assms(1) _ _ assms(6)] assms(5) that unfolding holds_slot_def by blast
  have "task_for_slot (mg_tasks (ps_migration_map st)) slot = None"
  proof (rule ccontr)
    assume "task_for_slot (mg_tasks (ps_migration_map st)) slot \<noteq> None"
    then obtain t where "task_for_slot (mg_tasks (ps_migration_map st)) slot = Some t" by blast
    from served_task(1) [OF assms(1,3) this bound] once assms(6) show False by (auto split: if_splits)
  qed
  note send = no_task_route [OF this assms(4), of h conf sd]
  show ?thesis
  proof (cases "nd_proxy_address n = a")
    case True
    then obtain addr where addr: "slot_owner (pm_local (proxy_meta flags cl a)) slot = Some addr"
      using local_owner_None [OF assms(1) _ assms(5), of flags a] by (cases "slot_owner (pm_local (proxy_meta flags cl a)) slot") auto
    from local_owner_Some [OF assms(1) addr] once have "addr = nd_address n" by blast
    with route(1) [OF addr] True show ?thesis by (simp add: send)
  next
    case False
    have none: "slot_owner (pm_local (proxy_meta flags cl a)) slot = None"
      using local_owner_Some [OF assms(1), of flags a slot] once False by (cases "slot_owner (pm_local (proxy_meta flags cl a)) slot") auto
    from False obtain b where b: "slot_owner (pm_peer (proxy_meta flags cl a)) slot = Some b"
      using peer_owner_None [OF assms(1) _ assms(5), of flags a] by (cases "slot_owner (pm_peer (proxy_meta flags cl a)) slot") auto
    from peer_owner_Some [OF assms(1) b] once have "b = nd_proxy_address n" by blast
    with route(2) [OF none b] False show ?thesis by (simp add: send)
  qed
qed

text \<open>The two sides of a migration of a slot.\<close>

lemma moving_slot_sides:
  assumes "view_ok cl" "holds_slot cl slot n sr" "sr_tag sr = Migrating m"
  shows "nd_proxy_address n = src_proxy_address m" "nd_address n = src_node_address m"
    and "holds_slot cl slot n' sr' \<Longrightarrow> n' = n \<and> sr' = sr \<or>
      sr_tag sr' = Importing m \<and> nd_proxy_address n' = dst_proxy_address m \<and> nd_address n' = dst_node_address m"
    and "\<exists>n' sr'. holds_slot cl slot n' sr' \<and> sr_tag sr' = Importing m \<and> nd_proxy_address n' = dst_proxy_address m"
proof -
  have h: "n \<in> set (cl_nodes cl)" "sr \<in> set (nd_slots n)" "slot \<in> set (rl_slots (sr_range_list sr))"
    using assms(2) by (simp_all add: holds_slot_def)
  from view_okD(4) [OF assms(1) h(1,2)] assms(3)
  show "nd_proxy_address n = src_proxy_address m" "nd_address n = src_node_address m" by simp_all
  show sides: "n' = n \<and> sr' = sr \<or>
      sr_tag sr' = Importing m \<and> nd_proxy_address n' = dst_proxy_address m \<and> nd_address n' = dst_node_address m"
    if h': "holds_slot cl slot n' sr'" for n' sr'
    using moving_slot_twice [OF assms(1) h(1,2) assms(3) h(3), of n' sr'] view_okD(4) [OF assms(1), of n' sr'] h'
    by (auto simp: holds_slot_def)
  from view_okD(5) [OF assms(1) h(1,2)] assms(3) obtain n' sr' where 1: "n' \<in> set (cl_nodes cl)" "sr' \<in> set (nd_slots n')"
    "meta_eq sr sr'" "\<not> tag_is_migrating (sr_tag sr')" by (auto simp: has_mirror_def)
  then have "holds_slot cl slot n' sr'" using h(3) by (simp add: holds_slot_def meta_eq_iff)
  moreover from sides [OF this] 1(4) assms(3) have "sr_tag sr' = Importing m \<and> nd_proxy_address n' = dst_proxy_address m" by auto
  ultimately show "\<exists>n' sr'. holds_slot cl slot n' sr' \<and> sr_tag sr' = Importing m \<and> nd_proxy_address n' = dst_proxy_address m" by blast
qed

lemma moving_slot_task:
  assumes "view_ok cl" "has_meta conf (as_received (proxy_meta flags cl a)) st"
    "holds_slot cl slot n sr" "sr_tag sr = Migrating m" "src_proxy_address m \<noteq> dst_proxy_address m"
    "a = (case side of MigratingSide \<Rightarrow> src_proxy_address m | ImportingSide \<Rightarrow> dst_proxy_address m)"
  shows "\<exists>t. task_for_slot (mg_tasks (ps_migration_map st)) slot = Some t \<and> mk_side t = side \<and> mk_meta t = m"
proof -
  note sides = moving_slot_sides [OF assms(1,3,4)]
  obtain n1 sr1 where "holds_slot cl slot n1 sr1" "nd_proxy_address n1 = a" "sr_tag sr1 \<noteq> TagNone"
    using assms(3,4,6) sides(1,4) by (cases side) auto
  with served_task(2) [OF assms(1,2)] obtain t where t: "task_for_slot (mg_tasks (ps_migration_map st)) slot = Some t" by blast
  from served_task(1) [OF assms(1,2) t holds_slot_bound [OF assms(1,3)]] obtain n2 sr2 where
    2: "holds_slot cl slot n2 sr2" "nd_proxy_address n2 = a" "sr_tag sr2 = (if mk_side t = MigratingSide then Migrating else Importing) (mk_meta t)"
    by blast
  from sides(3) [OF 2(1)] 2(2,3) sides(1) assms(4-6) have "mk_side t = side \<and> mk_meta t = m"
    by (cases side; cases "mk_side t") auto
  with t show ?thesis by blast
qed

lemma task_route:
  assumes "deployed z flags cl" "has_meta conf (as_received (proxy_meta flags cl a)) st"
    "task_for_slot (mg_tasks (ps_migration_map st)) slot = Some t"
  shows "mg_send act bs im (ps_migration_map st) (Some slot) =
    (if mk_side t = MigratingSide then migrating_send act bs t (Some slot) else importing_send act im t (Some slot))"
proof -
  have "\<not> mg_empty (ps_migration_map st)" "mg_cluster_name (ps_migration_map st) \<noteq> []"
    using assms by (auto simp: has_meta_def tasks_ok_def deployed_def task_for_slot_def hm_values_def)
  then show ?thesis using assms(3) by (simp add: mg_send_def mg_send_helper_def)
qed

lemma source_route:
  assumes "view_ok cl" "deployed z flags cl" "has_meta conf (as_received (proxy_meta flags cl (src_proxy_address m))) st"
    "cx_slot ctx = Some slot" "holds_slot cl slot n sr" "sr_tag sr = Migrating m" "src_proxy_address m \<noteq> dst_proxy_address m"
  shows "\<exists>t. task_for_slot (mg_tasks (ps_migration_map st)) slot = Some t \<and>
      (if mk_state t \<in> {PreCheck, PreBlocking, PreSwitch} then \<exists>hint. send_cmd_ctx h conf sd st ctx = delivered sd (src_node_address m) hint
       else send_cmd_ctx h conf sd st ctx = redirected h conf sd st ctx slot (dst_proxy_address m))"
proof -
  let ?local = "pm_local (proxy_meta flags cl (src_proxy_address m))"
  note sides = moving_slot_sides [OF assms(1,5,6)]
  obtain t where t: "task_for_slot (mg_tasks (ps_migration_map st)) slot = Some t" "mk_side t = MigratingSide" "mk_meta t = m"
    using moving_slot_task [OF assms(1,3,5-7), of MigratingSide] by auto
  obtain addr where addr: "slot_owner ?local slot = Some addr"
    using local_owner_None [OF assms(1) _ assms(5), of flags "src_proxy_address m"] sides(1) by (cases "slot_owner ?local slot") auto
  obtain n1 sr1 where 1: "holds_slot cl slot n1 sr1" "nd_proxy_address n1 = src_proxy_address m" "nd_address n1 = addr"
    using local_owner_Some [OF assms(1) addr] by blast
  from sides(3) [OF 1(1)] 1(2,3) sides(2) assms(7) have "addr = src_node_address m" by auto
  note deliver = meta_route(1) [OF assms(1-4) holds_slot_bound [OF assms(1,5)] addr, of h sd, unfolded this]
  have "if mk_state t \<in> {PreCheck, PreBlocking, PreSwitch} then \<exists>hint. send_cmd_ctx h conf sd st ctx = delivered sd (src_node_address m) hint
       else send_cmd_ctx h conf sd st ctx = redirected h conf sd st ctx slot (dst_proxy_address m)"
    by (cases "mk_state t"; cases "sd_blocking sd (src_node_address m)"; cases "pc_active_redirection conf")
      (auto simp: send_cmd_ctx_def assms(4) task_route [OF assms(2,3) t(1)] t(2,3) migrating_send_def deliver option.map_id
        handle_redirection_def redirected_def)
  with t(1) show ?thesis by blast
qed

lemma destination_route:
  assumes "view_ok cl" "deployed z flags cl" "has_meta conf (as_received (proxy_meta flags cl (dst_proxy_address m))) st"
    "cx_slot ctx = Some slot" "holds_slot cl slot n sr" "sr_tag sr = Migrating m" "src_proxy_address m \<noteq> dst_proxy_address m"
  shows "\<exists>t. task_for_slot (mg_tasks (ps_migration_map st)) slot = Some t \<and>
      (if mk_state t = PreCheck then send_cmd_ctx h conf sd st ctx = redirected h conf sd st ctx slot (src_proxy_address m)
       else \<exists>r. send_cmd_ctx h conf sd st ctx = Some ([ToImporter r], r = SenderRetry))"
proof -
  obtain t where t: "task_for_slot (mg_tasks (ps_migration_map st)) slot = Some t" "mk_side t = ImportingSide" "mk_meta t = m"
    using moving_slot_task [OF assms(1,3,5-7), of ImportingSide] by auto
  have "if mk_state t = PreCheck then send_cmd_ctx h conf sd st ctx = redirected h conf sd st ctx slot (src_proxy_address m)
       else \<exists>r. send_cmd_ctx h conf sd st ctx = Some ([ToImporter r], r = SenderRetry)"
    by (cases "pc_active_redirection conf")
      (auto simp: send_cmd_ctx_def assms(4) task_route [OF assms(2,3) t(1)] t(2,3) importing_send_def handle_redirection_def redirected_def)
  with t(1) show ?thesis by blast
qed

lemma bystander_route:
  assumes "view_ok cl" "deployed z flags cl" "has_meta conf (as_received (proxy_meta flags cl a)) st"
    "cx_slot ctx = Some slot" "holds_slot cl slot n sr" "sr_tag sr = Migrating m"
    "a \<noteq> src_proxy_address m" "a \<noteq> dst_proxy_address m"
  shows "\<exists>b \<in> {src_proxy_address m, dst_proxy_address m}. send_cmd_ctx h conf sd st ctx = redirected h conf sd st ctx slot b"
proof -
  let ?local = "pm_local (proxy_meta flags cl a)" and ?peer = "pm_peer (proxy_meta flags cl a)"
  let ?tasks = "mg_tasks (ps_migration_map st)"
  note sides = moving_slot_sides [OF assms(1,5,6)] and bound = holds_slot_bound [OF assms(1,5)]
  have there: "nd_proxy_address n' \<in> {src_proxy_address m, dst_proxy_address m}" if "holds_slot cl slot n' sr'" for n' sr'
    using sides(1) sides(3) [OF that] by auto
  have "task_for_slot ?tasks slot = None"
    using served_task(1) [OF assms(1,3) _ bound] there assms(7,8) by (cases "task_for_slot ?tasks slot") blast+
  note send = no_task_route [OF this assms(4), of h conf sd]
  have none: "slot_owner ?local slot = None"
    using local_owner_Some [OF assms(1), of flags a slot] there assms(7,8) by (cases "slot_owner ?local slot") blast+
  obtain b where b: "slot_owner ?peer slot = Some b"
    using peer_owner_None [OF assms(1) _ assms(5), of flags a] sides(1) assms(7) by (cases "slot_owner ?peer slot") auto
  from peer_owner_Some [OF assms(1) b] there have "b \<in> {src_proxy_address m, dst_proxy_address m}" by blast
  with meta_route(2) [OF assms(1-4) bound none b, of h sd] show ?thesis unfolding send by blast
qed


subsection \<open>What CLUSTER SLOTS covers\<close>

definition tagged :: "(slot_range_tag \<Rightarrow> bool) \<Rightarrow> slot_range list \<Rightarrow> range_list multiset" where
  "tagged P rs = mset (map sr_range_list (filter (\<lambda>sr. P (sr_tag sr)) rs))"

definition announced :: "migration_states \<Rightarrow> slot_range list \<Rightarrow> nat multiset" where
  "announced states rs =
     sum_list (map (\<lambda>sr. mset (rl_slots (sr_range_list sr))) (filter (\<lambda>sr. \<not> should_ignore_slots states sr) rs))"

definition shown_ranges :: "cluster \<Rightarrow> slot_range list" where
  "shown_ranges cl = concat (map nd_slots (cl_nodes cl))"

text \<open>
  Whatever the states are, each migration is announced by one of its sides: together they
  announce what the sources own.
\<close>

lemma announced_owned:
  assumes "tagged tag_is_migrating rs = tagged tag_is_importing rs"
  shows "announced states rs = sum_list (map sr_owned rs)"
proof -
  let ?late = "\<lambda>X. sum_mset (image_mset (\<lambda>rl. mset (rl_slots rl)) (filter_mset (\<lambda>rl. hm_get states rl \<noteq> Some PreCheck) X))"
  have "announced states xs + ?late (tagged tag_is_migrating xs) = sum_list (map sr_owned xs) + ?late (tagged tag_is_importing xs)" for xs
  proof (induction xs)
    case (Cons x xs)
    then show ?case
      by (cases "sr_tag x") (auto simp: announced_def tagged_def should_ignore_slots_def sr_owned_def ac_simps)
  qed (simp add: announced_def tagged_def)
  from this [of rs] assms show ?thesis by simp
qed

lemma announced_mset: "mset rs = mset rs' \<Longrightarrow> announced states rs = announced states rs'"
proof -
  assume "mset rs = mset rs'"
  then have "image_mset (\<lambda>sr. mset (rl_slots (sr_range_list sr))) (filter_mset (\<lambda>sr. \<not> should_ignore_slots states sr) (mset rs)) =
      image_mset (\<lambda>sr. mset (rl_slots (sr_range_list sr))) (filter_mset (\<lambda>sr. \<not> should_ignore_slots states sr) (mset rs'))" by simp
  then show ?thesis unfolding announced_def sum_mset_sum_list [symmetric] by simp
qed

lemma shown_ranges_mset:
  "mset (concat (map nd_slots (shown_nodes chunks))) =
     mset (concat (map (\<lambda>chunk. part_ranges chunks chunk 0 @ part_ranges chunks chunk 1) chunks))"
proof -
  have "mset (concat (map nd_slots (map (shown_node cs chunk) [0 ..< 4]))) = mset (part_ranges cs chunk 0 @ part_ranges cs chunk 1)" for cs chunk
    by (cases "role_position chunk") (simp_all add: shown_node_def node_ranges_def upt_rec)
  then have "mset (concat (map nd_slots (concat (map (\<lambda>chunk. map (shown_node cs chunk) [0 ..< 4]) xs)))) =
      mset (concat (map (\<lambda>chunk. part_ranges cs chunk 0 @ part_ranges cs chunk 1) xs))" for cs xs
    by (induction xs) (simp_all del: upt_rec_numeral)
  then show ?thesis by (simp add: shown_nodes_def)
qed

lemma tagged_mset: "mset rs = mset rs' \<Longrightarrow> tagged P rs = tagged P rs'"
  unfolding tagged_def mset_map mset_filter by simp

lemma tagged_part_ranges:
  assumes "stable_ok (part j (stable_slots chunk))"
  shows "tagged tag_is_migrating (part_ranges cs chunk j) = image_mset fst (keys_of True (part j (migrating_slots chunk)))"
    "tagged tag_is_importing (part_ranges cs chunk j) = image_mset fst (keys_of False (part j (migrating_slots chunk)))"
proof -
  have "tagged tag_is_migrating (map (entry_slot_range cs) es) = image_mset fst (keys_of True es)"
    "tagged tag_is_importing (map (entry_slot_range cs) es) = image_mset fst (keys_of False es)" for es
    by (induction es) (auto simp: tagged_def keys_of_def entry_slot_range_def mr_key_def)
  with assms show "tagged tag_is_migrating (part_ranges cs chunk j) = image_mset fst (keys_of True (part j (migrating_slots chunk)))"
    "tagged tag_is_importing (part_ranges cs chunk j) = image_mset fst (keys_of False (part j (migrating_slots chunk)))"
    by (cases "part j (stable_slots chunk)"; simp add: part_ranges_def tagged_def)+
qed

lemma shown_ranges_paired:
  assumes "chunks_ok chunks" "mirrored chunks"
  shows "tagged tag_is_migrating (concat (map nd_slots (shown_nodes chunks))) = tagged tag_is_importing (concat (map nd_slots (shown_nodes chunks)))"
proof -
  have app: "tagged P (xs @ ys) = tagged P xs + tagged P ys" for P xs ys by (simp add: tagged_def)
  have keys: "tagged tag_is_migrating (concat (map (\<lambda>chunk. part_ranges cs chunk 0 @ part_ranges cs chunk 1) xs)) = image_mset fst (chunks_keys True xs) \<and>
      tagged tag_is_importing (concat (map (\<lambda>chunk. part_ranges cs chunk 0 @ part_ranges cs chunk 1) xs)) = image_mset fst (chunks_keys False xs)"
    if "\<forall>chunk \<in> set xs. \<forall>j < 2. stable_ok (part j (stable_slots chunk))" for cs xs
    using that
  proof (induction xs)
    case (Cons x xs)
    then have "stable_ok (part 0 (stable_slots x))" "stable_ok (part 1 (stable_slots x))"
      using all_less_2 [of "\<lambda>j. stable_ok (part j (stable_slots x))"] by auto
    from tagged_part_ranges [OF this(1), of cs] tagged_part_ranges [OF this(2), of cs] Cons show ?case
      by (simp add: app chunks_keys_def chunk_entries_eq keys_of_def)
  qed (simp add: tagged_def chunks_keys_def)
  have "\<forall>chunk \<in> set chunks. \<forall>j < 2. stable_ok (part j (stable_slots chunk))"
    using assms(1) by (auto simp: chunks_ok_def chunk_ok_def in_set_conv_nth)
  from keys [OF this, of chunks] assms(2) show ?thesis
    unfolding tagged_mset [OF shown_ranges_mset] mirrored_def by presburger
qed

lemma broker_view_paired:
  assumes "reach s" "get_cluster_by_name s name lim = Some (Some cl)"
  shows "tagged tag_is_migrating (shown_ranges cl) = tagged tag_is_importing (shown_ranges cl)"
proof -
  from assms obtain c c' where "cl = shown_cluster c'" "slots_inv all_slots (cs_chunks c')" by (rule broker_view) blast
  then show ?thesis using shown_ranges_paired [of "cs_chunks c'"] by (simp add: shown_ranges_def shown_cluster_def slots_inv_def)
qed

text \<open>The metadata of every proxy have all ranges of the view.\<close>

lemma meta_ranges:
  assumes "view_ok cl"
  shows "mset (concat (hm_values (pm_local (proxy_meta flags cl a))) @ concat (hm_values (pm_peer (proxy_meta flags cl a)))) =
    mset (shown_ranges cl)"
proof -
  have "concat (map (\<lambda>(b, ns). concat (map nd_slots ns)) gs) = concat (map nd_slots (concat (map snd gs)))"
    for gs :: "(address \<times> node list) list"
    by (induction gs) auto
  from this [of "group_by_adjacent nd_proxy_address (masters_elsewhere cl a)"]
  have peer: "concat (hm_values (pm_peer (proxy_meta flags cl a))) = concat (map nd_slots (masters_elsewhere cl a))"
    by (simp add: proxy_meta_peer [OF assms] hm_values_def concat_group_by_adjacent comp_def split_def)
  have "mset (concat (map nd_slots (filter (\<lambda>n. nd_role n = Master \<and> nd_proxy_address n = a) ns))) +
      mset (concat (map nd_slots (filter (\<lambda>n. nd_role n = Master \<and> nd_proxy_address n \<noteq> a) ns))) = mset (concat (map nd_slots ns))"
    if "\<forall>n \<in> set ns. nd_role n = Replica \<longrightarrow> nd_slots n = []" for ns
    using that
  proof (induction ns)
    case (Cons n ns)
    then show ?case by (cases "nd_role n") (auto simp: ac_simps)
  qed simp
  then show ?thesis
    using view_okD(2) [OF assms]
    by (simp add: peer) (simp add: proxy_meta_local [OF assms] hm_values_def comp_def masters_at_def masters_elsewhere_def shown_ranges_def)
qed

text \<open>Whether an element of the reply covers a slot.\<close>

fun element_covers :: "resp_vec \<Rightarrow> usize \<Rightarrow> bool" where
  "element_covers (Arr (ArrayOf (Integer x # Integer y # _))) slot =
     (case (parse_u64 x, parse_u64 y) of (Some a, Some b) \<Rightarrow> a \<le> slot \<and> slot \<le> b | _ \<Rightarrow> False)"
| "element_covers _ slot = False"

definition covers_of :: "resp_vec list \<Rightarrow> usize \<Rightarrow> nat" where
  "covers_of els slot = length (filter (\<lambda>el. element_covers el slot) els)"

lemma covers_of_append: "covers_of (xs @ ys) slot = covers_of xs slot + covers_of ys slot"
  by (simp add: covers_of_def)

lemma element_covers_range:
  assumes "fst r < 2 ^ 64 - 1" "snd r < 2 ^ 64 - 1"
  shows "element_covers (cluster_slots_element host port nid r) slot \<longleftrightarrow> fst r \<le> slot \<and> slot \<le> snd r"
proof -
  have "fst r < 2 ^ 64" "snd r < 2 ^ 64" using assms by linarith+
  note b = this
  have "parse_u64 (show_nat (fst r)) = Some (fst r)" "parse_u64 (show_nat (snd r)) = Some (snd r)"
    by (rule parse_u64_show [OF b(1)], rule parse_u64_show [OF b(2)])
  then show ?thesis by (simp add: cluster_slots_element_def del: parse_u64_show)
qed

lemma covers_of_ranges:
  "rl_bounded rl \<Longrightarrow> covers_of (map (cluster_slots_element host port nid) rl) slot = count (mset (rl_slots rl)) slot"
proof (induction rl)
  case (Cons r rl)
  then have b: "fst r < 2 ^ 64 - 1" "snd r < 2 ^ 64 - 1" "rl_bounded rl" by (simp_all add: rl_bounded_def)
  have "count (mset (range_slots r)) slot = (if fst r \<le> slot \<and> slot \<le> snd r then 1 else 0)"
    by (auto simp: range_slots_def distinct_count_atmost_1 less_Suc_eq_le)
  with Cons.IH [OF b(3)] element_covers_range [OF b(1,2)] show ?case
    by (simp add: covers_of_def rl_slots_def)
qed (simp add: covers_of_def rl_slots_def)

lemma split_on_two: "d \<in> set s \<Longrightarrow> \<exists>x y zs. split_on d s = x # y # zs"
proof (induction s)
  case (Cons c s)
  then show ?case by (cases "split_on d s"; cases "c = d") auto
qed simp

lemma cluster_slots_of_covers:
  assumes "CHR '':'' \<in> set (fst e)" "\<And>sr. sr \<in> set (snd e) \<Longrightarrow> rl_inv (sr_range_list sr)"
  shows "\<exists>els. cluster_slots_of h seg states e = Inr els \<and> covers_of els slot = count (announced states (snd e)) slot"
proof -
  obtain host port rest where s: "split_on (CHR '':'') (fst e) = host # port # rest" using split_on_two [OF assms(1)] by blast
  have "covers_of (concat (map (map (cluster_slots_element host port nid) \<circ> sr_range_list) rs)) slot =
      count (sum_list (map (\<lambda>sr. mset (rl_slots (sr_range_list sr))) rs)) slot" if "\<forall>sr \<in> set rs. rl_inv (sr_range_list sr)" for rs nid
    using that by (induction rs) (simp_all add: covers_of_append covers_of_ranges rl_inv_bounded, simp add: covers_of_def)
  from this [of "filter (\<lambda>sr. \<not> should_ignore_slots states sr) (snd e)"] show ?thesis
    using assms(2) by (simp add: cluster_slots_of_def s announced_def)
qed

lemma cluster_slots_loop_covers:
  assumes "\<And>a srs. (a, srs) \<in> set es \<Longrightarrow> CHR '':'' \<in> set a \<and> (\<forall>sr \<in> set srs. rl_inv (sr_range_list sr))"
  shows "\<exists>els. cluster_slots_loop h seg states es = Inr els \<and> covers_of els slot = count (announced states (concat (map snd es))) slot"
  using assms
proof (induction es)
  case (Cons e es)
  from Cons.prems [of "fst e" "snd e"] obtain xs where xs: "cluster_slots_of h seg states e = Inr xs"
    "covers_of xs slot = count (announced states (snd e)) slot"
    using cluster_slots_of_covers [of e h seg states slot] by auto
  have "CHR '':'' \<in> set a \<and> (\<forall>sr \<in> set srs. rl_inv (sr_range_list sr))" if "(a, srs) \<in> set es" for a srs
    using Cons.prems [of a srs] that by simp
  from Cons.IH [OF this] obtain ys where "cluster_slots_loop h seg states es = Inr ys"
    "covers_of ys slot = count (announced states (concat (map snd es))) slot" by blast
  with xs show ?case by (simp add: covers_of_append announced_def)
qed (simp add: covers_of_def announced_def)

end
