(* ===== verification/UM_Serving.thy ===== *)
theory UM_Serving
  imports UM_System
begin

section \<open>A cluster as its clients see it\<close>

text \<open>
  The properties of the whole way of the metadata: where the proxies of a cluster send the
  commands for a slot, stable or moving, and what they answer to CLUSTER SLOTS, for every view
  a reachable broker gives and every state of the proxies that accepted it. A broker with a
  running migration serves as the example.
\<close>


subsection \<open>Accepting a view\<close>

lemma fresh_task_total:
  assumes "rl_inv (sr_range_list (mt_slot_range k))" "\<not> tag_is_stable (sr_tag (mt_slot_range k))"
  shows "\<exists>t. fresh_task k = Some t"
  using assms range_map_correct [of "sr_range_list (mt_slot_range k)"]
  by (cases "sr_tag (mt_slot_range k)") (auto simp: fresh_task_def mgr_task_new_def rl_inv_def)

lemma add_new_tasks_total:
  "\<forall>sr \<in> set rs. rl_inv (sr_range_list sr) \<Longrightarrow> \<exists>res. add_new_tasks name rs st = Some res"
proof (induction rs arbitrary: st)
  case (Cons r rs)
  obtain tasks new where st: "st = (tasks, new)" by (cases st)
  from Cons.prems fresh_task_total [of "\<lparr>mt_cluster_name = name, mt_slot_range = r\<rparr>"]
  have "\<exists>st'. add_new_task name r st = Some st'" by (auto simp: st add_new_task_alt Let_def)
  with Cons show ?case by auto
qed simp

lemma newer_view_accepted:
  assumes "view_ok cl" "deployed z flags cl" "generate_proxy_meta_cmd_args z flags (filter_proxy_masters (proxy_view cl a)) = Inr args"
    "ps_epoch st < cl_epoch cl \<or> cf_force flags"
    "\<And>n. n \<in> set (cl_nodes cl) \<Longrightarrow> nd_proxy_address n = a \<Longrightarrow> extract_host_from_address (nd_address n) = Some (pc_announce_host conf)"
  shows "\<exists>st'. sync_meta z flags conf (proxy_view cl a) st = Some (Some (Simple ''OK''), st') \<and> ps_epoch st' = cl_epoch cl"
proof -
  let ?m = "as_received (proxy_meta flags cl a)"
  note d = deployedD [OF assms(2)]
  have "extract_host_from_address addr = Some (pc_announce_host conf)" if "addr \<in> set (hm_keys (pm_local ?m))" for addr
  proof -
    from that obtain srs where "(addr, srs) \<in> set (pm_local (proxy_meta flags cl a))"
      by (auto simp: as_received_def drop_empty_def hm_keys_def split: if_splits)
    then show ?thesis unfolding in_local [OF assms(1)] using assms(5) by blast
  qed
  then have hosts: "UM_Proto.check_hosts (pm_local ?m) (pc_announce_host conf)" by (simp add: UM_Proto.check_hosts_def list_all_iff)
  have "\<forall>sr \<in> set (concat (hm_values (pm_local ?m))). rl_inv (sr_range_list sr)"
    unfolding as_received_simps using view_okD(3) [OF assms(1)]
    by (auto simp: hm_values_def proxy_meta_local [OF assms(1)] masters_at_def)
  then obtain tasks new0 where "add_new_tasks (pm_cluster_name ?m) (concat (hm_values (pm_local ?m)))
      (fold (keep_old_task (pm_cluster_name ?m) (mg_tasks (ps_migration_map st))) (concat (hm_values (pm_local ?m))) [], []) = Some (tasks, new0)"
    using add_new_tasks_total by fastforce
  then obtain mg new where mg: "update_from_old_task_map (ps_migration_map st) (pm_cluster_name ?m) (pm_local ?m) = Some (mg, new)"
    unfolding update_from_old_task_map_def Let_def by simp
  have "\<not> (pm_epoch ?m \<le> ps_epoch st \<and> \<not> cf_force (pm_flags ?m))" using assms(4) by auto
  then obtain st' where st': "set_meta conf ?m st = Some (Inr new, st')" "ps_epoch st' = cl_epoch cl"
    unfolding set_meta_def mg if_not_P [OF \<open>\<not> (pm_epoch ?m \<le> ps_epoch st \<and> \<not> cf_force (pm_flags ?m))\<close>] using hosts by simp
  have "pm_from_resp z (Arr (ArrayOf (map (\<lambda>s. Bulk (Str s)) (meta_command ''SETCLUSTER'' args)))) = Inr (?m, True)"
    by (simp add: pm_from_resp_def control_args_command [OF deployed_args [OF assms(1-3)]] received_meta [OF assms(1) d(2,4,5,1) assms(3)])
  with st' assms(3) show ?thesis by (simp add: sync_meta_def handle_umctl_set_cluster_def)
qed

lemma serving_route:
  assumes "reach s" "get_cluster_by_name s name lim = Some (Some cl)" "deployed z flags cl"
    "n0 \<in> set (cl_nodes cl)" "get_proxy_by_address s (nd_proxy_address n0) lim = Some (Some p)"
    "serving z flags conf p st"
  shows "view_ok cl" "has_meta conf (as_received (proxy_meta flags cl (nd_proxy_address n0))) st"
proof -
  show ok: "view_ok cl" by (rule broker_view_ok [OF assms(1,2) deployedD(3) [OF assms(3)]])
  have "p = proxy_view cl (nd_proxy_address n0)" using broker_proxy_view [OF assms(1,2,4)] assms(5) by simp
  with assms(6) serving_has_meta [OF ok assms(3)] show "has_meta conf (as_received (proxy_meta flags cl (nd_proxy_address n0))) st" by blast
qed

lemma owned_ranges: "sum_list (map sr_owned (concat (map nd_slots ns))) = nodes_owned ns"
  by (induction ns) (simp_all add: nodes_owned_def)

lemma serving_cluster_slots:
  assumes "view_ok cl" "deployed z flags cl" "has_meta conf (as_received (proxy_meta flags cl a)) st"
    "tagged tag_is_migrating (shown_ranges cl) = tagged tag_is_importing (shown_ranges cl)"
    "CHR '':'' \<in> set (pc_announce_address conf)" "slot < SLOT_NUM"
  shows "\<exists>els. proxy_cluster_slots h conf st = Inr (Arr (ArrayOf els)) \<and> covers_of els slot = 1"
proof -
  let ?m = "as_received (proxy_meta flags cl a)" and ?states = "get_states (ps_migration_map st)"
  let ?local = "concat (hm_values (pm_local ?m))" and ?peer = "concat (hm_values (pm_peer ?m))"
  let ?seg = "gen_cluster_name_seg (pm_cluster_name ?m)"
  have ranges: "mset (?local @ ?peer) = mset (shown_ranges cl)" unfolding as_received_simps by (rule meta_ranges [OF assms(1)])
  have inv: "rl_inv (sr_range_list sr)" if "sr \<in> set ?local \<or> sr \<in> set ?peer" for sr
  proof -
    from that ranges have "sr \<in> set (shown_ranges cl)" by (metis Un_iff set_append set_mset_mset)
    with view_okD(3) [OF assms(1)] show ?thesis by (auto simp: shown_ranges_def)
  qed
  have "b \<in> set (map nd_proxy_address (cl_nodes cl))" if "(b, srs) \<in> set (pm_peer (proxy_meta flags cl a))" for b srs
  proof -
    from that have "b \<in> set (map fst (group_by_adjacent nd_proxy_address (masters_elsewhere cl a)))"
      by (force simp: proxy_meta_peer [OF assms(1)])
    then show ?thesis unfolding keys_group_by_adjacent by (auto simp: masters_elsewhere_def)
  qed
  then have colon: "CHR '':'' \<in> set b" if "(b, srs) \<in> set (pm_peer ?m)" for b srs
    using that deployedD(2) [OF assms(2)] by (fastforce simp: addresses_ok_def as_received_def drop_empty_def split: if_splits)
  have "(b, srs) \<in> set [(pc_announce_address conf, ?local)] \<Longrightarrow> CHR '':'' \<in> set b \<and> (\<forall>sr \<in> set srs. rl_inv (sr_range_list sr))" for b srs
    using assms(5) inv by auto
  from cluster_slots_loop_covers [where es = "[(pc_announce_address conf, ?local)]" and h = h and seg = ?seg and states = ?states and slot = slot, OF this] obtain xs where
    xs: "cluster_slots_loop h ?seg ?states [(pc_announce_address conf, ?local)] = Inr xs"
    "covers_of xs slot = count (announced ?states ?local) slot" by (auto simp del: cluster_slots_loop.simps)
  have "(b, srs) \<in> set (pm_peer ?m) \<Longrightarrow> CHR '':'' \<in> set b \<and> (\<forall>sr \<in> set srs. rl_inv (sr_range_list sr))" for b srs
    using colon [of b srs] inv by (force simp: hm_values_def)
  from cluster_slots_loop_covers [where es = "pm_peer ?m" and h = h and seg = ?seg and states = ?states and slot = slot, OF this] obtain ys where
    ys: "cluster_slots_loop h ?seg ?states (pm_peer ?m) = Inr ys" "covers_of ys slot = count (announced ?states ?peer) slot"
    unfolding hm_values_def by blast
  have "announced ?states ?local + announced ?states ?peer = announced ?states (?local @ ?peer)" by (simp add: announced_def)
  also have "\<dots> = announced ?states (shown_ranges cl)" by (rule announced_mset [OF ranges])
  also have "\<dots> = nodes_owned (cl_nodes cl)"
    unfolding announced_owned [OF assms(4)] unfolding shown_ranges_def by (rule owned_ranges)
  finally have "count (announced ?states ?local) slot + count (announced ?states ?peer) slot = 1"
    using count_all_slots [of slot] assms(6) view_okD(1) [OF assms(1)] by (metis count_union)
  then have "covers_of (xs @ ys) slot = 1" unfolding covers_of_append xs(2) ys(2) .
  moreover have cb: "lc_cluster_name (cb_local (ps_cluster_map st)) = pm_cluster_name ?m"
    "rc_cluster_name (cb_remote (ps_cluster_map st)) = pm_cluster_name ?m"
    "lc_slot_ranges (cb_local (ps_cluster_map st)) = pm_local ?m" "rc_slot_ranges (cb_remote (ps_cluster_map st)) = pm_peer ?m"
    using assms(3) by (simp_all add: has_meta_def from_cluster_map_def local_from_slot_map_def remote_from_slot_map_def)
  have "proxy_cluster_slots h conf st = Inr (Arr (ArrayOf (xs @ ys)))"
    unfolding proxy_cluster_slots_def gen_cluster_slots_def gen_cluster_slots_helper_def announced_slot_ranges_def cb xs(1) ys(1) by simp
  ultimately show ?thesis by blast
qed


subsection \<open>An example\<close>

definition example_moving :: "chunk_store list" where
  "example_moving =
     (let e = (\<lambda>b rl j. \<lparr>mr_range_list = rl, mr_is_migrating = b,
        mr_meta = \<lparr>ms_epoch = 7, src_chunk_index = 0, src_chunk_part = j, dst_chunk_index = 1, dst_chunk_part = j\<rparr>\<rparr>)
      in [(example_chunk ''a:1'' ''b:1'' (Some \<lparr>sr_range_list = [(0, 4095)], sr_tag = TagNone\<rparr>, Some \<lparr>sr_range_list = [(8192, 12287)], sr_tag = TagNone\<rparr>))
            \<lparr>migrating_slots := ([e True [(4096, 8191)] 0], [e True [(12288, 16383)] 1])\<rparr>,
          (example_chunk ''c:1'' ''d:1'' (None, None))
            \<lparr>migrating_slots := ([e False [(4096, 8191)] 0], [e False [(12288, 16383)] 1])\<rparr>])"

lemma example_s3_clusters: "clusters example_s3 = [(''db'', \<lparr>cs_epoch = 7, cs_name = ''db'', cs_chunks = example_moving, cs_config = cluster_config_default\<rparr>)]"
proof -
  obtain c where c: "hm_get (clusters example_s2) ''db'' = Some c" "empty_exists c" "idle (cs_chunks c)"
    "cs_chunks c = [example_chunk ''a:1'' ''b:1'' (Some (share_range 2 0), Some (share_range 2 1)), example_chunk ''c:1'' ''d:1'' (None, None)]"
    by (rule example_s2_cluster)
  have "migrate_slots ''db'' example_s2 = start_migration ''db'' c (remove_slots_from_src 7 (cs_chunks c)) (bump_global_epoch example_s2)"
    using c(1,2,3) valid_name_db by (simp add: migrate_slots_def cluster_name_try_from_if check_running_tasks_idle example_s2(2))
  then have s3: "example_s3 = snd (start_migration ''db'' c (remove_slots_from_src 7 (cs_chunks c)) (bump_global_epoch example_s2))"
    by (simp add: example_s3_def run_def reply_def)
  obtain xs0 where "c = \<lparr>cs_epoch = 6, cs_name = ''db'', cs_chunks = xs0, cs_config = cluster_config_default\<rparr>"
    using c(1) by (auto simp: example_s2 hm_get_def)
  then have "cs_set_epoch e (c\<lparr>cs_chunks := xs\<rparr>) = \<lparr>cs_epoch = e, cs_name = ''db'', cs_chunks = xs, cs_config = cluster_config_default\<rparr>" for e xs
    by (simp add: cs_set_epoch_def)
  moreover obtain ys ms where plan: "remove_slots_from_src 7 (cs_chunks c) = Some (ys, ms)" unfolding c(4) example_plan by blast
  then have "assign_dst_slots ms ys = Some example_moving"
    unfolding c(4) example_plan
    by (auto simp: assign_dst_slots_def push_migrating_def example_chunk_def compact_slots_def arr2_modify_def compact_entry_def
        example_moving_def Let_def compact_stable_def compact_single)
  ultimately show ?thesis
    unfolding s3 by (simp add: start_migration_def plan example_s2 bump_global_epoch_def hm_modify_def Let_def)
qed

definition example_view :: cluster where
  "example_view = shown_cluster \<lparr>cs_epoch = 7, cs_name = ''db'', cs_chunks = example_moving, cs_config = cluster_config_default\<rparr>"

definition example_flags :: cluster_map_flags where
  "example_flags = \<lparr>cf_force = False, cf_compress = False\<rparr>"

definition example_migration :: migration_meta where
  "example_migration =
     \<lparr>mm_epoch = 7, src_proxy_address = ''a:1'', src_node_address = ''127.0.0.1:7001'',
      dst_proxy_address = ''c:1'', dst_node_address = ''127.0.0.1:7001''\<rparr>"

definition example_source :: node where
  "example_source = shown_node example_moving (example_moving ! 0) 0"

lemma example_view_nodes:
  "cl_nodes example_view = shown_nodes example_moving" "cl_name example_view = ''db''" "cl_epoch example_view = 7"
  "cl_config example_view = cluster_config_default"
  by (simp_all add: example_view_def shown_cluster_def)

lemma upt_4: "[0 ..< 4] = [0, 1, 2, 3 :: nat]"
  by (simp add: upt_rec)

lemma example_addresses:
  "map (\<lambda>n. (nd_proxy_address n, nd_address n)) (cl_nodes example_view) =
     [(''a:1'', ''127.0.0.1:7001''), (''a:1'', ''127.0.0.1:7002''), (''b:1'', ''127.0.0.1:7001''), (''b:1'', ''127.0.0.1:7002''),
      (''c:1'', ''127.0.0.1:7001''), (''c:1'', ''127.0.0.1:7002''), (''d:1'', ''127.0.0.1:7001''), (''d:1'', ''127.0.0.1:7002'')]"
proof -
  have "map (\<lambda>n. (nd_proxy_address n, nd_address n)) (shown_nodes cs) =
      concat (map (\<lambda>c. map (\<lambda>i. (proxy_addr c i, node_addr c i)) [0, 1, 2, 3]) cs)" for cs
    by (simp add: shown_nodes_def upt_4 map_concat comp_def shown_node_def)
  then show ?thesis
    by (simp add: example_view_nodes example_moving_def example_chunk_def example_nodes_def proxy_addr_def node_addr_def Let_def)
qed

lemma example_moving_ok: "slots_inv all_slots example_moving"
proof -
  have "hm_get (clusters example_s3) ''db'' = Some \<lparr>cs_epoch = 7, cs_name = ''db'', cs_chunks = example_moving, cs_config = cluster_config_default\<rparr>"
    by (simp add: example_s3_clusters hm_get_def)
  then obtain n where "steady n example_moving"
    using reach_ok [OF example_s3(1)] unfolding store_ok_def by (metis (no_types, lifting) cluster_store.select_convs(3))
  then show ?thesis by (simp add: steady_def)
qed

lemma example_view: "get_cluster_by_name example_s3 ''db'' 0 = Some (Some example_view)"
proof -
  let ?c = "\<lparr>cs_epoch = 7, cs_name = ''db'', cs_chunks = example_moving, cs_config = cluster_config_default\<rparr>"
  have "cluster_store_to_cluster ?c = Some example_view"
    using cluster_store_to_cluster_shown [of ?c] example_moving_ok by (simp add: example_view_def slots_inv_def)
  moreover have "hm_get (clusters example_s3) ''db'' = Some ?c" by (simp add: example_s3_clusters hm_get_def)
  moreover have "cluster_name_try_from ''db'' = Some ''db''" using valid_name_db by (simp add: valid_cluster_name_def)
  ultimately show ?thesis by (simp add: get_cluster_by_name_def get_cluster_store_def limit_migration_def)
qed

lemma example_deployed: "deployed example_meta_lib example_flags example_view"
proof -
  have "(nd_proxy_address n, nd_address n) \<in> set (map (\<lambda>n. (nd_proxy_address n, nd_address n)) (cl_nodes example_view))"
    if "n \<in> set (cl_nodes example_view)" for n
    using that by (simp add: image_iff) blast
  then have "CHR '':'' \<in> set (nd_address n) \<and> CHR '':'' \<in> set (nd_proxy_address n) \<and> ascii (nd_address n) \<and> ascii (nd_proxy_address n)"
    if "n \<in> set (cl_nodes example_view)" for n
    using that unfolding example_addresses by (fastforce simp: byte_in_def)
  then show ?thesis
    unfolding deployed_def example_addresses addresses_ok_def example_view_nodes(2-)
    using valid_name_db
    by (simp add: example_flags_def example_meta_lib_def meta_lib_ok_def cluster_config_default_def migration_config_default_def)
qed

lemma example_source:
  "holds_slot example_view 100 example_source \<lparr>sr_range_list = [(0, 4095)], sr_tag = TagNone\<rparr>"
  "holds_slot example_view 5000 example_source \<lparr>sr_range_list = [(4096, 8191)], sr_tag = Migrating example_migration\<rparr>"
  "nd_proxy_address example_source = ''a:1''" "nd_address example_source = ''127.0.0.1:7001''"
proof -
  have "100 \<in> set (rl_slots [(0, 4095)])" "5000 \<in> set (rl_slots [(4096, 8191)])"
    by (simp_all add: rl_slots_def range_slots_def del: upt_rec_numeral)
  moreover have "example_source \<in> set (cl_nodes example_view)"
  proof -
    have "0 < length example_moving" by (simp add: example_moving_def Let_def)
    then show ?thesis unfolding example_view_nodes example_source_def set_shown_nodes by (intro exI [of _ 0] conjI refl) simp_all
  qed
  moreover have "nd_slots example_source =
      [\<lparr>sr_range_list = [(0, 4095)], sr_tag = TagNone\<rparr>, \<lparr>sr_range_list = [(4096, 8191)], sr_tag = Migrating example_migration\<rparr>]"
    by (simp add: example_source_def shown_node_def node_ranges_def part_ranges_def example_moving_def example_chunk_def Let_def
        entry_slot_range_def entry_meta_def master_of_def proxy_addr_def node_addr_def example_nodes_def example_migration_def)
  ultimately show "holds_slot example_view 100 example_source \<lparr>sr_range_list = [(0, 4095)], sr_tag = TagNone\<rparr>"
    "holds_slot example_view 5000 example_source \<lparr>sr_range_list = [(4096, 8191)], sr_tag = Migrating example_migration\<rparr>"
    by (simp_all add: holds_slot_def)
  show "nd_proxy_address example_source = ''a:1''" "nd_address example_source = ''127.0.0.1:7001''"
    by (simp_all add: example_source_def shown_node_def proxy_addr_def node_addr_def example_moving_def example_chunk_def
        example_nodes_def Let_def)
qed

definition example_proxy_conf :: "address \<Rightarrow> proxy_config" where
  "example_proxy_conf a =
     \<lparr>pc_announce_address = a, pc_announce_host = ''127.0.0.1'', pc_active_redirection = False,
      pc_max_redirections = None, pc_default_redirection_address = None, pc_nodes_version = V2\<rparr>"

definition example_key :: "usize \<Rightarrow> cmd_ctx" where
  "example_key slot =
     \<lparr>cx_cmd = \<lparr>cm_request = Data example_request,
        cm_info = \<lparr>ci_cmd_type = OthersCmd, ci_data_cmd_type = Get, ci_slot = Some slot\<rparr>\<rparr>,
      cx_redirection_times = None\<rparr>"

lemma example_view_ok: "view_ok example_view"
  by (rule broker_view_ok [OF example_s3(1) example_view deployedD(3) [OF example_deployed]])

text \<open>Each of the four proxies can be given the view.\<close>

lemma example_node_at:
  assumes "a \<in> {''a:1'', ''b:1'', ''c:1'', ''d:1''}"
  obtains n where "n \<in> set (cl_nodes example_view)" "nd_proxy_address n = a"
proof -
  have "a \<in> fst ` set (map (\<lambda>n. (nd_proxy_address n, nd_address n)) (cl_nodes example_view))"
    unfolding example_addresses using assms by auto
  then show thesis using that by auto
qed

lemma example_host:
  assumes "m \<in> set (cl_nodes example_view)"
  shows "extract_host_from_address (nd_address m) = Some (pc_announce_host (example_proxy_conf a))"
proof -
  have "(nd_proxy_address m, nd_address m) \<in> set (map (\<lambda>n. (nd_proxy_address n, nd_address n)) (cl_nodes example_view))"
    using assms by (simp add: image_iff) blast
  then show ?thesis unfolding example_addresses by (auto simp: extract_host_from_address_def example_proxy_conf_def)
qed

lemma example_served:
  assumes "n \<in> set (cl_nodes example_view)"
  obtains p st where "get_proxy_by_address example_s3 (nd_proxy_address n) 0 = Some (Some p)"
    "sync_meta example_meta_lib example_flags (example_proxy_conf (nd_proxy_address n)) p proxy_state_new = Some (Some (Simple ''OK''), st)"
    "serving example_meta_lib example_flags (example_proxy_conf (nd_proxy_address n)) p st"
proof -
  let ?a = "nd_proxy_address n"
  obtain st where st: "sync_meta example_meta_lib example_flags (example_proxy_conf ?a) (proxy_view example_view ?a) proxy_state_new = Some (Some (Simple ''OK''), st)"
    using newer_view_accepted [OF example_view_ok example_deployed, of ?a _ proxy_state_new "example_proxy_conf ?a"] example_host
    by (auto simp: generate_proxy_meta_cmd_args_def proxy_state_new_def example_view_nodes example_flags_def Let_def)
  have "get_proxy_by_address example_s3 ?a 0 = Some (Some (proxy_view example_view ?a))"
    by (rule broker_proxy_view [OF example_s3(1) example_view assms])
  with st show thesis using that serving_sync [OF run_new st] by blast
qed


subsection \<open>Properties of the whole system\<close>

text \<open>
  (C6) For every reachable state of the broker and every cluster it shows, all proxies of the
  cluster that have accepted this view agree on a slot that is not moving: the proxy of the
  node that owns the slot gives a command for it to that node, every other proxy redirects it
  there, whatever happened to their migration tasks since. So of all proxies exactly one
  serves the slot.
\<close>

theorem stable_slots_are_served_by_their_owner:
  assumes "reach s" "get_cluster_by_name s name lim = Some (Some cl)" "deployed z flags cl"
    "n0 \<in> set (cl_nodes cl)" "get_proxy_by_address s (nd_proxy_address n0) lim = Some (Some p)"
    "serving z flags conf p st" "cx_slot ctx = Some slot"
    "holds_slot cl slot n sr" "sr_tag sr = TagNone"
  shows "send_cmd_ctx h conf sd st ctx =
    (if nd_proxy_address n0 = nd_proxy_address n then delivered sd (nd_address n) NotBlocking
     else redirected h conf sd st ctx slot (nd_proxy_address n))"
  unfolding stable_slot_route [OF serving_route(1) [OF assms(1-6)] assms(3) serving_route(2) [OF assms(1-6)] assms(7-9)]
  by (simp add: eq_commute)

theorem stable_slots_are_served_by_their_owner_witness:
  "\<exists>p st. get_proxy_by_address example_s3 ''b:1'' 0 = Some (Some p) \<and>
     serving example_meta_lib example_flags (example_proxy_conf ''b:1'') p st \<and>
     send_cmd_ctx example_hash (example_proxy_conf ''b:1'') example_senders st (example_key 100) =
       Some ([Reply (Error (gen_moved 100 ''a:1''))], False)"
proof -
  obtain n where n: "n \<in> set (cl_nodes example_view)" "nd_proxy_address n = ''b:1''" by (rule example_node_at [of "''b:1''"]) simp_all
  obtain p st where p: "get_proxy_by_address example_s3 (nd_proxy_address n) 0 = Some (Some p)"
    "serving example_meta_lib example_flags (example_proxy_conf (nd_proxy_address n)) p st"
    by (rule example_served [OF n(1)])
  have "send_cmd_ctx example_hash (example_proxy_conf (nd_proxy_address n)) example_senders st (example_key 100) =
      (if nd_proxy_address n = nd_proxy_address example_source then delivered example_senders (nd_address example_source) NotBlocking
       else redirected example_hash (example_proxy_conf (nd_proxy_address n)) example_senders st (example_key 100) 100 (nd_proxy_address example_source))"
    by (rule stable_slots_are_served_by_their_owner [OF example_s3(1) example_view example_deployed n(1) p _ example_source(1)])
      (simp_all add: example_key_def cx_slot_def)
  with p show ?thesis by (auto simp: n(2) example_source redirected_def example_proxy_conf_def)
qed

text \<open>
  (C7) A slot that is moving is handled by the two proxies of its migration only. The source
  gives the command to its node until the switch and redirects to the destination afterwards;
  the destination redirects to the source until it has been switched and takes the command
  afterwards; every other proxy redirects to one of the two.
\<close>

theorem moving_slots_stay_with_their_migration:
  assumes "reach s" "get_cluster_by_name s name lim = Some (Some cl)" "deployed z flags cl"
    "n0 \<in> set (cl_nodes cl)" "get_proxy_by_address s (nd_proxy_address n0) lim = Some (Some p)"
    "serving z flags conf p st" "cx_slot ctx = Some slot"
    "holds_slot cl slot n sr" "sr_tag sr = Migrating m" "src_proxy_address m \<noteq> dst_proxy_address m"
  shows "if nd_proxy_address n0 = src_proxy_address m then
      \<exists>t. task_for_slot (mg_tasks (ps_migration_map st)) slot = Some t \<and>
        (if mk_state t \<in> {PreCheck, PreBlocking, PreSwitch} then \<exists>hint. send_cmd_ctx h conf sd st ctx = delivered sd (src_node_address m) hint
         else send_cmd_ctx h conf sd st ctx = redirected h conf sd st ctx slot (dst_proxy_address m))
    else if nd_proxy_address n0 = dst_proxy_address m then
      \<exists>t. task_for_slot (mg_tasks (ps_migration_map st)) slot = Some t \<and>
        (if mk_state t = PreCheck then send_cmd_ctx h conf sd st ctx = redirected h conf sd st ctx slot (src_proxy_address m)
         else \<exists>r. send_cmd_ctx h conf sd st ctx = Some ([ToImporter r], r = SenderRetry))
    else \<exists>b \<in> {src_proxy_address m, dst_proxy_address m}. send_cmd_ctx h conf sd st ctx = redirected h conf sd st ctx slot b"
proof -
  note ok = serving_route [OF assms(1-6)]
  consider "nd_proxy_address n0 = src_proxy_address m" | "nd_proxy_address n0 = dst_proxy_address m" "nd_proxy_address n0 \<noteq> src_proxy_address m"
    | "nd_proxy_address n0 \<noteq> src_proxy_address m" "nd_proxy_address n0 \<noteq> dst_proxy_address m" by blast
  then show ?thesis
  proof cases
    case 1
    then show ?thesis unfolding if_P [OF 1] using source_route [OF ok(1) assms(3) _ assms(7-10)] ok(2) by presburger
  next
    case 2
    then show ?thesis
      unfolding if_not_P [OF 2(2)] if_P [OF 2(1)] using destination_route [OF ok(1) assms(3) _ assms(7-10)] ok(2) by presburger
  next
    case 3
    then show ?thesis
      unfolding if_not_P [OF 3(1)] if_not_P [OF 3(2)] by (rule bystander_route [OF ok(1) assms(3) ok(2) assms(7-9)])
  qed
qed

theorem moving_slots_stay_with_their_migration_witness:
  "\<exists>p st. get_proxy_by_address example_s3 ''b:1'' 0 = Some (Some p) \<and>
     serving example_meta_lib example_flags (example_proxy_conf ''b:1'') p st \<and>
     (\<exists>b \<in> {''a:1'', ''c:1''}. send_cmd_ctx example_hash (example_proxy_conf ''b:1'') example_senders st (example_key 5000) =
       Some ([Reply (Error (gen_moved 5000 b))], False))"
proof -
  obtain n where n: "n \<in> set (cl_nodes example_view)" "nd_proxy_address n = ''b:1''" by (rule example_node_at [of "''b:1''"]) simp_all
  obtain p st where p: "get_proxy_by_address example_s3 (nd_proxy_address n) 0 = Some (Some p)"
    "serving example_meta_lib example_flags (example_proxy_conf (nd_proxy_address n)) p st"
    by (rule example_served [OF n(1)])
  have key: "cx_slot (example_key 5000) = Some 5000"
    "sr_tag \<lparr>sr_range_list = [(4096, 8191)], sr_tag = Migrating example_migration\<rparr> = Migrating example_migration"
    "src_proxy_address example_migration \<noteq> dst_proxy_address example_migration"
    by (simp_all add: example_key_def cx_slot_def example_migration_def)
  have "\<exists>b \<in> {''a:1'', ''c:1''}. send_cmd_ctx example_hash (example_proxy_conf ''b:1'') example_senders st (example_key 5000) =
      redirected example_hash (example_proxy_conf ''b:1'') example_senders st (example_key 5000) 5000 b"
    using moving_slots_stay_with_their_migration
      [OF example_s3(1) example_view example_deployed n(1) p key(1) example_source(2) key(2,3), of example_hash example_senders]
    by (simp add: n(2) example_migration_def)
  with p show ?thesis by (auto simp: n(2) redirected_def example_proxy_conf_def)
qed

text \<open>
  (C8) Whatever states the migrations of a cluster are in, the answer to CLUSTER SLOTS of every
  proxy that has accepted a view of a reachable broker has exactly one entry for every slot:
  a client that builds its routing table from it finds no gap and no conflict.
\<close>

theorem cluster_slots_has_each_slot_once:
  assumes "reach s" "get_cluster_by_name s name lim = Some (Some cl)" "deployed z flags cl"
    "n0 \<in> set (cl_nodes cl)" "get_proxy_by_address s (nd_proxy_address n0) lim = Some (Some p)"
    "serving z flags conf p st" "CHR '':'' \<in> set (pc_announce_address conf)" "slot < SLOT_NUM"
  shows "\<exists>els. proxy_cluster_slots h conf st = Inr (Arr (ArrayOf els)) \<and> covers_of els slot = 1"
  by (rule serving_cluster_slots [OF serving_route(1) [OF assms(1-6)] assms(3) serving_route(2) [OF assms(1-6)]
      broker_view_paired [OF assms(1,2)] assms(7,8)])

theorem cluster_slots_has_each_slot_once_witness:
  "\<exists>p st els. get_proxy_by_address example_s3 ''a:1'' 0 = Some (Some p) \<and>
     serving example_meta_lib example_flags (example_proxy_conf ''a:1'') p st \<and>
     proxy_cluster_slots example_hash (example_proxy_conf ''a:1'') st = Inr (Arr (ArrayOf els)) \<and> covers_of els 5000 = 1"
proof -
  obtain n where n: "n \<in> set (cl_nodes example_view)" "nd_proxy_address n = ''a:1''" by (rule example_node_at [of "''a:1''"]) simp_all
  obtain p st where p: "get_proxy_by_address example_s3 (nd_proxy_address n) 0 = Some (Some p)"
    "serving example_meta_lib example_flags (example_proxy_conf (nd_proxy_address n)) p st"
    by (rule example_served [OF n(1)])
  have "CHR '':'' \<in> set (pc_announce_address (example_proxy_conf (nd_proxy_address n)))" "5000 < SLOT_NUM"
    by (simp_all add: n(2) example_proxy_conf_def SLOT_NUM_def)
  from cluster_slots_has_each_slot_once [OF example_s3(1) example_view example_deployed n(1) p this, of example_hash] p
  show ?thesis unfolding n(2) by blast
qed



end
