(* ===== verification/Spec2Isabelle.thy ===== *)
theory Spec2Isabelle
  imports UM_Safety UM_Serving
begin

text \<open>
  Verification of undermoon, a Redis cluster made of three programs.

  \<^item> The \<^emph>\<open>memory broker\<close> (\<open>src/src/broker\<close>) holds the metadata: the registered
    proxies, the clusters, the chunks of two proxies with two Redis nodes each, the slots of
    every part of a chunk, and the running migrations. It plans scaling, failover and the
    commit of migrations, and answers with views of clusters and proxies.
  \<^item> The \<^emph>\<open>coordinator\<close> (\<open>src/src/coordinator\<close>) reads the views and sends them to the
    proxies as commands \<open>UMCTL SETREPL\<close> and \<open>UMCTL SETCLUSTER\<close>.
  \<^item> The \<^emph>\<open>server proxies\<close> (\<open>src/src/proxy\<close>, \<open>src/src/migration\<close>) accept the
    metadata, route the commands of the clients to their nodes or to other proxies, and move
    slots between nodes.

  \<^bold>\<open>Conventions.\<close> The model has the semantics of a release build. A \<open>usize\<close> is a natural
  number with the wrapping operations of \<open>UM_Prelude\<close>; epochs and other \<open>u64\<close> values are
  words of 64 bits. Strings are lists of bytes. A \<open>HashMap\<close> is the association list of its
  entries in iteration order, with distinct keys; nothing is assumed about that order. Arrays of
  two are pairs. Every operation takes the state and returns its outcome and the state after the
  call; a panic is the outcome \<open>Panic\<close> or an outer None. Third-party crates are parameters:
  the RESP line scanner and number parser (\<open>resp_lib\<close>), JSON, gzip and base64 (\<open>meta_lib\<close>),
  the CRC functions (\<open>hash_lib\<close>). What is relied on is in \<open>lib_ok\<close> and \<open>meta_lib_ok\<close>,
  and concrete instances show that these can hold.

  \<^bold>\<open>Theories.\<close>

  \<^item> \<open>UM_Prelude\<close>: arithmetic, decimal numbers, splitting of strings, hash maps (locale
    \<open>hash_map\<close>), round trips of string codecs (locale \<open>string_codec\<close>).
  \<^item> \<open>UM_Ranges\<close>, \<open>UM_Cluster\<close> (\<open>common/cluster.rs\<close>, \<open>common/config.rs\<close>): range
    lists and their compaction, the range map, migration metadata, slot ranges with tags, tasks,
    configuration. Compaction computes the unique canonical form (locale \<open>slot_set\<close>).
  \<^item> \<open>UM_Store\<close>, \<open>UM_Query\<close> (\<open>broker/store.rs\<close>, \<open>broker/query.rs\<close>): the
    records of the store, \<open>limit_migration\<close>, the views and the consistency check.
    \<open>UM_Ownership\<close> defines who owns a slot and shows that \<open>limit_migration\<close> keeps it.
  \<^item> \<open>UM_Registry\<close>, \<open>UM_Alloc\<close>, \<open>UM_Update\<close> (\<open>broker/update.rs\<close>): proxies and
    clusters, the choice of free proxies (locale \<open>free_proxy_allocator\<close>, interpreted by both
    allocators), failures and failover. The abstraction to a registry makes every reassignment of
    proxies one abstract step.
  \<^item> \<open>UM_Migrate\<close>, \<open>UM_Balance\<close>, \<open>UM_Commit\<close> (\<open>broker/migrate.rs\<close>): planning
    of scale-out and scale-down (locales \<open>drain_loop\<close> and \<open>drain_parts\<close>, interpreted by
    both directions), the balance of the load, the commit.
  \<^item> \<open>UM_Broker\<close> (\<open>broker/store.rs\<close>, \<open>broker/storage.rs\<close>, \<open>broker/resource.rs\<close>):
    the requests of the storage interface. \<open>UM_Reach\<close> has the abstract life of a cluster as a
    step relation, the refinement of all requests to it and the reachable states;
    \<open>UM_Safety\<close> the properties of all runs.
  \<^item> \<open>UM_Resp\<close>, \<open>UM_Packet\<close> (\<open>src/src/protocol\<close>): encoder, incremental parser,
    packets in their two representations, edits of commands, the codecs of several packets
    (locales \<open>resp_library\<close> and \<open>packet_stream\<close>).
  \<^item> \<open>UM_Proto\<close> (\<open>common/proto.rs\<close>, \<open>replication/replicator.rs\<close>,
    \<open>coordinator/sync.rs\<close>): the metadata commands, plain and compressed, in both directions.
  \<^item> \<open>UM_Route\<close> (\<open>proxy/slot.rs\<close>, \<open>proxy/command.rs\<close>, \<open>proxy/cluster.rs\<close>):
    commands with their keys and slots, the slot table, local and remote clusters, CLUSTER NODES
    and CLUSTER SLOTS. The slot table is shown equal to looking for the last entry with the slot.
  \<^item> \<open>UM_Proxy\<close> (\<open>migration/task.rs\<close>, \<open>migration/scan_task.rs\<close>,
    \<open>migration/manager.rs\<close>, \<open>proxy/manager.rs\<close>): migration tasks, accepting metadata,
    switches, sending with retries and redirections. Senders are parameters that may fail or ask
    for a retry at every call; each attempt of \<open>loop_send_cmd_ctx\<close> meets a state of its own.
  \<^item> \<open>UM_System\<close>, \<open>UM_Serving\<close>: the three programs together. A view of a reachable broker
    goes through \<open>generate_proxy_meta_cmd_args\<close>, the command, \<open>handle_umctl_set_cluster\<close>
    and \<open>set_meta\<close> into a proxy (\<open>sync_meta\<close>); \<open>serving\<close> closes this under switches
    and the progress of migrations.

  \<^bold>\<open>Results.\<close> In all runs of the broker no request panics, the metadata are consistent, every
  cluster owns each slot once and is balanced, epochs order the versions of a cluster, migrations
  can be committed, and failed requests change nothing. Views give each slot one master. Packets
  and metadata commands survive encoding and any chunking. Every command is settled exactly once,
  redirections are bounded. All proxies that accepted one view agree on the proxy of every slot at
  rest, a moving slot is handled by the two proxies of its migration only, CLUSTER SLOTS has each
  slot once, and newer views are accepted.

  \<^bold>\<open>Bounds and fuel.\<close> Reachability bounds a cluster to \<open>max_chunks\<close> chunks; beyond it
  scaling down plans wrongly, which is proved too. \<open>send_attempts\<close> counts the three attempts
  of the code down, so that the bound of the recursion is the bound of the loop; no function
  depends on fuel otherwise. The deployment hypotheses of the system properties (\<open>deployed\<close>)
  are that addresses are ASCII of the form host:port, that the two nodes of a proxy differ, and that
  the cluster has a valid name and a scan count other than 0.

  \<^bold>\<open>Not modelled.\<close> The HTTP services and the polling loops of the coordinator, connections,
  timers and statistics are I/O. The blocking queue (\<open>proxy/blocking.rs\<close>), the transfer of
  keys (\<open>migration/scan_migration.rs\<close>, \<open>proxy/migration_backend.rs\<close>) and the Redis
  replication are asynchronous programs over Redis connections; of them the model has the effect
  on the state of a task and the hint given to a sender. \<open>RedisScanMigratingTask::send\<close>
  reads the state of the task and of the queue one after the other; the model reads both at one
  moment. Compression of values, the slow log and the multi-key commands of the executor are left
  out.
\<close>

end
